(* ===== verification/Prelude.thy ===== *)
theory Prelude
  imports Main "HOL-Library.Word" "HOL-Library.AList"
begin

text \<open>
  Shared material of the development: the machine integers of the Rust code, its
  checked arithmetic (the profiles in Cargo.toml set \<open>overflow-checks = true\<close> and
  \<open>panic = "abort"\<close>, so an overflow ends the process), the outcome type of every
  fallible or diverging operation, the primary-key tables and the bounded caches the
  components keep, and the lemma collections the component theories draw on.
\<close>

section \<open>Integers\<close>

type_synonym u8 = "8 word"
type_synonym u16 = "16 word"
type_synonym u32 = "32 word"
type_synonym u64 = "64 word"
type_synonym u128 = "128 word"
type_synonym bytes = "8 word list"

named_theorems arith_defs \<open>definitions of the checked operations\<close>
named_theorems op_defs \<open>definitions of the operations of the components\<close>

definition checked_add :: "'a::len word \<Rightarrow> 'a word \<Rightarrow> 'a word option" where
  [arith_defs]: "checked_add a b = (if unat a + unat b < 2 ^ LENGTH('a) then Some (a + b) else None)"

definition checked_mul :: "'a::len word \<Rightarrow> 'a word \<Rightarrow> 'a word option" where
  [arith_defs]: "checked_mul a b = (if unat a * unat b < 2 ^ LENGTH('a) then Some (a * b) else None)"

lemma checked_add_Some_unat:
  "checked_add a b = Some c \<Longrightarrow> unat c = unat a + unat b"
  by (auto simp: checked_add_def unat_word_ariths split: if_splits)

lemma checked_mul_Some_unat:
  "checked_mul a b = Some c \<Longrightarrow> unat c = unat a * unat b"
  by (auto simp: checked_mul_def unat_word_ariths split: if_splits)

lemma checked_add_Some_iff:
  fixes a b c :: "'a::len word"
  shows "checked_add a b = Some c \<longleftrightarrow> unat a + unat b < 2 ^ LENGTH('a) \<and> c = a + b"
  by (auto simp: checked_add_def)

lemma checked_add_is_Some:
  fixes a b :: "'a::len word"
  shows "unat a + unat b < 2 ^ LENGTH('a) \<Longrightarrow> checked_add a b = Some (a + b)"
  by (simp add: checked_add_def)

lemma checked_add_None_iff:
  fixes a b :: "'a::len word"
  shows "checked_add a b = None \<longleftrightarrow> 2 ^ LENGTH('a) \<le> unat a + unat b"
  by (auto simp: checked_add_def)

lemma unat_of_nat_small: "n < 2 ^ LENGTH('a) \<Longrightarrow> unat (of_nat n :: 'a::len word) = n"
  by (simp add: unat_of_nat)

lemma unat_ucast_mod: "unat (ucast (x::'a::len word) :: 'b::len word) = unat x mod 2 ^ LENGTH('b)"
  by (metis of_nat_unat unat_of_nat)

lemma unat_bound_64: "unat (x::u64) < 18446744073709551616"
  using unsigned_less [of x] by simp

lemma unat_bound_32: "unat (x::u32) < 4294967296"
  using unsigned_less [of x] by simp

lemma unat_plus_one: "unat (a::u64) + 1 < 2 ^ 64 \<Longrightarrow> unat (a + 1) = Suc (unat a)"
  by (simp add: unat_word_ariths)

section \<open>Outcomes\<close>

text \<open>
  The errors of the code, one constructor per \<open>bail!\<close> or failing \<open>?\<close>;
  \<open>Ctx\<close> is anyhow's \<open>context\<close>, \<open>Lib\<close> an error value made by a dependency.
\<close>

datatype err =
    CannotApply u64 u64
  | InsufficientVotes u64 u128 u128
  | DuplicateTx
  | MempoolFull
  | Deser
  | SqlParam
  | SqlConflict
  | Timeout
  | MissingBlock u64
  | WantedBlock u64 u64
  | NotConfirmed u64
  | Ctx string err
  | Lib string

datatype panic = Overflow | Assertion | Unwrap | Expect string | Todo string

text \<open>
  What a call can do: return a value, return an error, abort the process, or never
  return. Loops whose end is not guaranteed are \<open>partial_function (option)\<close>;
  \<open>loop_res\<close> reads their \<open>None\<close> as \<open>Hang\<close>.
\<close>

datatype 'a res = Ok 'a | Err err | Panic panic | Hang

definition bind_res :: "'a res \<Rightarrow> ('a \<Rightarrow> 'b res) \<Rightarrow> 'b res" where
  "bind_res r f = (case r of Ok x \<Rightarrow> f x | Err e \<Rightarrow> Err e | Panic p \<Rightarrow> Panic p | Hang \<Rightarrow> Hang)"

text \<open>The same with a state that the first part may have changed.\<close>

definition bind_st :: "'a res \<times> 's \<Rightarrow> ('a \<Rightarrow> 's \<Rightarrow> 'b res \<times> 's) \<Rightarrow> 'b res \<times> 's" where
  "bind_st r f = (case r of
      (Ok x, s) \<Rightarrow> f x s
    | (Err e, s) \<Rightarrow> (Err e, s)
    | (Panic p, s) \<Rightarrow> (Panic p, s)
    | (Hang, s) \<Rightarrow> (Hang, s))"

definition context_res :: "string \<Rightarrow> 'a res \<Rightarrow> 'a res" where
  "context_res c r = (case r of Err e \<Rightarrow> Err (Ctx c e) | x \<Rightarrow> x)"

definition of_sum :: "err + 'a \<Rightarrow> 'a res" where
  "of_sum r = (case r of Inl e \<Rightarrow> Err e | Inr x \<Rightarrow> Ok x)"

definition of_checked :: "'a option \<Rightarrow> 'a res" where
  "of_checked r = (case r of None \<Rightarrow> Panic Overflow | Some x \<Rightarrow> Ok x)"

definition loop_res :: "'a res option \<Rightarrow> 'a res" where
  "loop_res r = (case r of None \<Rightarrow> Hang | Some x \<Rightarrow> x)"

lemma bind_res_simps [simp]:
  "bind_res (Ok x) f = f x"
  "bind_res (Err e) f = Err e"
  "bind_res (Panic p) f = Panic p"
  "bind_res Hang f = Hang"
  by (simp_all add: bind_res_def)

lemma bind_st_simps [simp]:
  "bind_st (Ok x, s) g = g x s"
  "bind_st (Err e, s) g = (Err e, s)"
  "bind_st (Panic p, s) g = (Panic p, s)"
  "bind_st (Hang, s) g = (Hang, s)"
  by (simp_all add: bind_st_def)

lemma bind_res_Ok: "bind_res r f = Ok y \<longleftrightarrow> (\<exists>x. r = Ok x \<and> f x = Ok y)"
  by (cases r) simp_all

lemma bind_res_Err: "bind_res r f = Err e \<longleftrightarrow> r = Err e \<or> (\<exists>x. r = Ok x \<and> f x = Err e)"
  by (cases r) simp_all

lemma bind_st_Ok:
  "bind_st r g = (Ok y, t) \<longleftrightarrow> (\<exists>x s. r = (Ok x, s) \<and> g x s = (Ok y, t))"
  by (cases r; cases "fst r") (auto simp: bind_st_def)

lemma bind_st_Err:
  "bind_st r g = (Err e, t) \<longleftrightarrow>
     r = (Err e, t) \<or> (\<exists>x s. r = (Ok x, s) \<and> g x s = (Err e, t))"
  by (cases r; cases "fst r") (auto simp: bind_st_def)

lemma context_res_simps [simp]:
  "context_res c (Ok x) = Ok x"
  "context_res c (Err e) = Err (Ctx c e)"
  "context_res c (Panic p) = Panic p"
  "context_res c Hang = Hang"
  by (simp_all add: context_res_def)

lemma context_res_Ok [simp]: "context_res c r = Ok x \<longleftrightarrow> r = Ok x"
  by (cases r) simp_all

lemma of_sum_simps [simp]: "of_sum (Inl e) = Err e" "of_sum (Inr x) = Ok x"
  by (simp_all add: of_sum_def)

lemma of_sum_Ok [simp]: "of_sum r = Ok x \<longleftrightarrow> r = Inr x"
  by (cases r) simp_all

lemma of_checked_simps [simp]:
  "of_checked None = Panic Overflow" "of_checked (Some x) = Ok x"
  by (simp_all add: of_checked_def)

lemma of_checked_Ok [simp]: "of_checked r = Ok x \<longleftrightarrow> r = Some x"
  by (cases r) simp_all

lemma of_checked_not_Err [simp]: "of_checked r \<noteq> Err e"
  by (cases r) simp_all

lemma loop_res_simps [simp]: "loop_res None = Hang" "loop_res (Some r) = r"
  by (simp_all add: loop_res_def)

section \<open>Loops\<close>

text \<open>
  A \<open>while\<close> or \<open>loop\<close> whose end is not certain: one pass of the body either leaves
  the loop with a result (\<open>Inl\<close>) or gives the variables of the next pass (\<open>Inr\<close>);
  \<open>None\<close> is that the loop never ends.
\<close>

partial_function (option) iterate :: "('a \<Rightarrow> 'r + 'a) \<Rightarrow> 'a \<Rightarrow> 'r option" where
  "iterate f x = (case f x of Inl r \<Rightarrow> Some r | Inr y \<Rightarrow> iterate f y)"

lemma iterate_Inl: "f x = Inl r \<Longrightarrow> iterate f x = Some r"
  by (simp add: iterate.simps)

lemma iterate_Inr: "f x = Inr y \<Longrightarrow> iterate f x = iterate f y"
  by (simp add: iterate.simps)

lemma iterate_invariant:
  assumes "iterate f x = Some r" and "I x"
    and step: "\<And>x y. I x \<Longrightarrow> f x = Inr y \<Longrightarrow> I y"
    and leave: "\<And>x r. I x \<Longrightarrow> f x = Inl r \<Longrightarrow> Q r"
  shows "Q r"
proof -
  have "(case (f, x) of (g, x) \<Rightarrow> (\<lambda>r. g = f \<longrightarrow> I x \<longrightarrow> Q r)) r"
  proof (rule iterate.raw_induct)
    fix h g x r
    assume "\<And>g x r. h g x = Some r \<Longrightarrow> g = f \<longrightarrow> I x \<longrightarrow> Q r"
      and "(case g x of Inl r \<Rightarrow> Some r | Inr y \<Rightarrow> h g y) = Some r"
    then show "g = f \<longrightarrow> I x \<longrightarrow> Q r"
      using step leave by (auto split: sum.splits)
  qed (simp add: assms(1))
  with assms(2) show ?thesis by simp
qed

text \<open>A loop that keeps being sent back never ends.\<close>

lemma iterate_diverges:
  assumes "I x" and "\<And>x. I x \<Longrightarrow> \<exists>y. f x = Inr y \<and> I y"
  shows "iterate f x = None"
proof (cases "iterate f x")
  case (Some r)
  have False
    by (rule iterate_invariant [where I = I and Q = "\<lambda>_. False", OF Some assms(1)])
      (use assms(2) in fastforce)+
  then show ?thesis ..
qed

text \<open>A loop whose every pass makes a measure smaller ends.\<close>

lemma iterate_terminates:
  fixes m :: "'a \<Rightarrow> nat"
  assumes "I x" and "\<And>x y. I x \<Longrightarrow> f x = Inr y \<Longrightarrow> I y \<and> m y < m x"
  shows "\<exists>r. iterate f x = Some r"
  using assms(1)
proof (induction "m x" arbitrary: x rule: less_induct)
  case less
  show ?case
  proof (cases "f x")
    case (Inl r)
    then show ?thesis by (simp add: iterate_Inl)
  next
    case (Inr y)
    with less assms(2) [of x y] show ?thesis by (simp add: iterate_Inr)
  qed
qed

section \<open>Tables with a primary key\<close>

text \<open>
  A SQLite table is its list of rows in insertion order, the primary key first.
  \<open>insert_row\<close> is \<open>insert into\<close> (\<open>None\<close>: the key is taken, the statement fails),
  \<open>insert_row_or_ignore\<close> the same with \<open>on conflict do nothing\<close>,
  \<open>select_row\<close> is \<open>select .. where key = $1\<close> and \<open>select_max\<close>
  \<open>select max(key)\<close>.
\<close>

type_synonym ('k, 'v) table = "('k \<times> 'v) list"

definition insert_row :: "'k \<Rightarrow> 'v \<Rightarrow> ('k, 'v) table \<Rightarrow> ('k, 'v) table option" where
  "insert_row k v t = (if k \<in> fst ` set t then None else Some (t @ [(k, v)]))"

definition insert_row_or_ignore :: "'k \<Rightarrow> 'v \<Rightarrow> ('k, 'v) table \<Rightarrow> ('k, 'v) table" where
  "insert_row_or_ignore k v t = (if k \<in> fst ` set t then t else t @ [(k, v)])"

definition select_row :: "('k, 'v) table \<Rightarrow> 'k \<Rightarrow> 'v option" where
  "select_row t k = map_of t k"

definition select_max :: "('k::linorder, 'v) table \<Rightarrow> 'k option" where
  "select_max t = (case t of [] \<Rightarrow> None | r # rs \<Rightarrow> Some (fold max (map fst rs) (fst r)))"

text \<open>The interface the storage relies on: what a lookup returns after an insert.\<close>

locale keyed_table =
  fixes ins :: "'k \<Rightarrow> 'v \<Rightarrow> 't \<Rightarrow> 't option"
    and sel :: "'t \<Rightarrow> 'k \<Rightarrow> 'v option"
    and keys :: "'t \<Rightarrow> 'k list"
  assumes ins_fresh: "(ins k v t = None) = (k \<in> set (keys t))"
    and ins_sel: "ins k v t = Some t' \<Longrightarrow> sel t' k' = (if k' = k then Some v else sel t k')"
    and ins_keys: "ins k v t = Some t' \<Longrightarrow> keys t' = keys t @ [k]"
    and sel_keys: "(sel t k = None) = (k \<notin> set (keys t))"
begin

lemma ins_old: "ins k v t = Some t' \<Longrightarrow> sel t k' = Some w \<Longrightarrow> sel t' k' = Some w"
  using ins_fresh [of k v t] sel_keys [of t k] by (auto simp: ins_sel)

lemma ins_new: "ins k v t = Some t' \<Longrightarrow> sel t' k = Some v"
  by (simp add: ins_sel)

lemma ins_twice: "ins k v t = Some t' \<Longrightarrow> ins k w t' = None"
  by (simp add: ins_fresh ins_keys)

lemma ins_distinct: "distinct (keys t) \<Longrightarrow> ins k v t = Some t' \<Longrightarrow> distinct (keys t')"
  using ins_fresh [of k v t] by (simp add: ins_keys)

end

lemma select_insert_row:
  "insert_row k v t = Some t' \<Longrightarrow> select_row t' k' = (if k' = k then Some v else select_row t k')"
  using map_of_eq_None_iff [of t k]
  by (auto simp: insert_row_def select_row_def map_add_def split: if_splits option.splits)

interpretation sql: keyed_table insert_row select_row "map fst"
  by unfold_locales
    (simp_all add: select_insert_row, auto simp: insert_row_def select_row_def map_of_eq_None_iff split: if_splits)

lemma select_max_None [simp]: "select_max t = None \<longleftrightarrow> t = []"
  by (cases t) (simp_all add: select_max_def)

lemma select_max_Nil [simp]: "select_max [] = None"
  by simp

lemma fold_max_append: "fold max (xs @ [k]) a = max k (fold max xs (a::'k::linorder))"
  by simp

lemma select_max_append:
  "select_max (t @ [(k, v)]) =
     Some (case select_max t of None \<Rightarrow> k | Some m \<Rightarrow> max k m)"
  by (cases t) (simp_all add: select_max_def)

section \<open>Bounded caches\<close>

text \<open>
  The caches of the code (\<open>moka::sync::Cache\<close>, \<open>lru::LruCache\<close>) hold what was put
  in them until they evict it. \<open>cache_put ev k v m\<close> stores \<open>v\<close> under \<open>k\<close> while
  the cache, as it may at any insertion, drops the entries of \<open>ev\<close>.
\<close>

definition cache_put :: "'k set \<Rightarrow> 'k \<Rightarrow> 'v \<Rightarrow> ('k \<rightharpoonup> 'v) \<Rightarrow> ('k \<rightharpoonup> 'v)" where
  "cache_put ev k v m = ((m |` (- ev))(k \<mapsto> v))"

text \<open>A cache over a source of truth: whatever it holds, the truth says too.\<close>

definition coherent :: "('k \<Rightarrow> 'v \<Rightarrow> bool) \<Rightarrow> ('k \<rightharpoonup> 'v) \<Rightarrow> bool" where
  "coherent truth m \<longleftrightarrow> (\<forall>k v. m k = Some v \<longrightarrow> truth k v)"

locale read_through =
  fixes put :: "'e \<Rightarrow> 'k \<Rightarrow> 'v \<Rightarrow> 'c \<Rightarrow> 'c"
    and look :: "'c \<Rightarrow> 'k \<Rightarrow> 'v option"
  assumes put_sound: "look (put ev k v c) k' = Some w \<Longrightarrow> (k' = k \<and> w = v) \<or> look c k' = Some w"
    and put_hit: "look (put ev k v c) k = Some v"
begin

lemma put_coherent:
  "coherent truth (look c) \<Longrightarrow> truth k v \<Longrightarrow> coherent truth (look (put ev k v c))"
  using put_sound unfolding coherent_def by blast

lemma evict_coherent: "coherent truth (look c) \<Longrightarrow> look c' \<subseteq>\<^sub>m look c \<Longrightarrow> coherent truth (look c')"
  by (auto simp: coherent_def map_le_def dom_def)

lemma hit_true: "coherent truth (look c) \<Longrightarrow> look c k = Some v \<Longrightarrow> truth k v"
  by (simp add: coherent_def)

end

interpretation cache: read_through cache_put "\<lambda>m. m"
  by unfold_locales (auto simp: cache_put_def restrict_map_def split: if_splits)

lemma coherent_empty [simp]: "coherent truth Map.empty"
  by (simp add: coherent_def)

lemma coherent_mono:
  "coherent truth m \<Longrightarrow> (\<And>k v. truth k v \<Longrightarrow> truth' k v) \<Longrightarrow> coherent truth' m"
  by (auto simp: coherent_def)

end
