(* ===== verification/Autoretry.thy ===== *)
theory Autoretry
  imports Prelude
begin

text \<open>
  \<open>src/autoretry.rs\<close>: retrying a fallible call with a sleep that doubles, and the
  part of the standard library's \<open>Duration\<close> it computes with.
\<close>

section \<open>Durations\<close>

text \<open>Seconds and nanoseconds below one second, as \<open>std::time::Duration\<close> keeps them.\<close>

datatype duration = Duration (as_secs: u64) (subsec_nanos: u32)

definition from_millis :: "u64 \<Rightarrow> duration" where
  "from_millis m = Duration (m div 1000) (ucast (m mod 1000) * 1000000)"

definition from_secs :: "u64 \<Rightarrow> duration" where
  "from_secs s = Duration s 0"

definition wf_duration :: "duration \<Rightarrow> bool" where
  "wf_duration d \<longleftrightarrow> unat (subsec_nanos d) < 1000000000"

definition nanos :: "duration \<Rightarrow> nat" where
  "nanos d = unat (as_secs d) * 1000000000 + unat (subsec_nanos d)"

text \<open>
  \<open>Duration::checked_mul\<close>: the nanoseconds are multiplied in 64 bits, the carry is added
  to the product of the seconds; \<open>*=\<close> panics where this gives \<open>None\<close>.
\<close>

definition duration_mul :: "duration \<Rightarrow> u32 \<Rightarrow> duration option" where
  "duration_mul d k =
     (let total = (ucast (subsec_nanos d) :: u64) * ucast k;
          extra = total div 1000000000;
          ns = ucast (total mod 1000000000)
      in case checked_mul (as_secs d) (ucast k) of
           None \<Rightarrow> None
         | Some s \<Rightarrow> (case checked_add s extra of
               None \<Rightarrow> None
             | Some s' \<Rightarrow> Some (Duration s' ns)))"

instantiation duration :: linorder
begin

definition less_eq_duration :: "duration \<Rightarrow> duration \<Rightarrow> bool" where
  "less_eq_duration a b \<longleftrightarrow>
     as_secs a < as_secs b \<or> as_secs a = as_secs b \<and> subsec_nanos a \<le> subsec_nanos b"

definition less_duration :: "duration \<Rightarrow> duration \<Rightarrow> bool" where
  "less_duration a b \<longleftrightarrow>
     as_secs a < as_secs b \<or> as_secs a = as_secs b \<and> subsec_nanos a < subsec_nanos b"

instance
  by standard (auto simp: less_eq_duration_def less_duration_def intro: duration.expand)

end

section \<open>The retry loop\<close>

text \<open>
  \<open>f n\<close> is what the n-th call of the closure returns. A failure sleeps and doubles the
  interval; the doubling panics when the interval no longer fits a \<open>Duration\<close>.
\<close>

partial_function (option) autoretry_loop ::
  "(nat \<Rightarrow> err + 'a) \<Rightarrow> nat \<Rightarrow> duration \<Rightarrow> 'a res option" where
  "autoretry_loop f n sleep_interval =
     (case f n of
        Inr val \<Rightarrow> Some (Ok val)
      | Inl e \<Rightarrow> (case duration_mul sleep_interval 2 of
            None \<Rightarrow> Some (Panic Overflow)
          | Some s \<Rightarrow> autoretry_loop f (Suc n) s))"

definition autoretry :: "(nat \<Rightarrow> err + 'a) \<Rightarrow> 'a res" where
  "autoretry f = loop_res (autoretry_loop f 0 (from_millis 50))"

section \<open>Facts about durations\<close>

lemma unat_ucast_32_64 [simp]: "unat (ucast (x::u32) :: u64) = unat x"
  using unat_bound_32 [of x] by (simp add: unat_ucast_mod)

lemma unat_prod_32: "unat (ucast (a::u32) * ucast (b::u32) :: u64) = unat a * unat b"
proof -
  have "unat a * unat b < 4294967296 * 4294967296"
    using unat_bound_32 [of a] unat_bound_32 [of b] by (intro mult_strict_mono) auto
  then show ?thesis by (simp add: unat_word_ariths)
qed

lemma unat_rest_32: "unat (ucast (t mod 1000000000 :: u64) :: u32) = unat t mod 1000000000"
proof -
  have "unat t mod 1000000000 < (4294967296::nat)"
    by (rule less_trans [OF mod_less_divisor]) simp_all
  then show ?thesis by (simp add: unat_ucast_mod unat_mod)
qed

lemma nanos_mul_div:
  "(s * 1000000000 + n) * k div 1000000000 = s * k + n * k div (1000000000::nat)"
  "(s * 1000000000 + n) * k = (s * k + n * k div 1000000000) * 1000000000 + n * k mod (1000000000::nat)"
proof -
  have "(s * 1000000000 + n) * k = n * k + (s * k) * 1000000000"
    by (simp add: algebra_simps)
  then show "(s * 1000000000 + n) * k div 1000000000 = s * k + n * k div (1000000000::nat)"
    by simp
  show "(s * 1000000000 + n) * k = (s * k + n * k div 1000000000) * 1000000000 + n * k mod (1000000000::nat)"
    using div_mult_mod_eq [of "n * k" 1000000000] by (simp add: algebra_simps)
qed

lemma duration_mul_spec:
  fixes d :: duration and k :: u32
  defines "q \<equiv> unat (as_secs d) * unat k + unat (subsec_nanos d) * unat k div 1000000000"
  shows "duration_mul d k = (if q < 2 ^ 64
           then Some (Duration (of_nat q) (of_nat (unat (subsec_nanos d) * unat k mod 1000000000)))
           else None)"
proof -
  let ?t = "(ucast (subsec_nanos d) :: u64) * ucast k"
  have t: "unat ?t = unat (subsec_nanos d) * unat k" by (rule unat_prod_32)
  have e: "unat (?t div 1000000000) = unat (subsec_nanos d) * unat k div 1000000000"
    by (simp add: unat_div t)
  have r: "ucast (?t mod 1000000000) =
      (of_nat (unat (subsec_nanos d) * unat k mod 1000000000) :: u32)"
    by (metis unat_rest_32 t of_nat_unat ucast_id)
  show ?thesis
  proof (cases "unat (as_secs d) * unat k < 2 ^ 64")
    case True
    then have m: "checked_mul (as_secs d) (ucast k) = Some (as_secs d * ucast k)"
      and u: "unat (as_secs d * ucast k) = unat (as_secs d) * unat k"
      by (simp_all add: checked_mul_def unat_word_ariths)
    have "(of_nat q :: u64) =
        of_nat (unat (as_secs d * ucast k)) + of_nat (unat (?t div 1000000000))"
      unfolding q_def u e by simp
    then have sum: "as_secs d * ucast k + ?t div 1000000000 = (of_nat q :: u64)"
      by (simp only: of_nat_unat ucast_id)
    have "checked_add (as_secs d * ucast k) (?t div 1000000000) =
        (if q < 2 ^ 64 then Some (of_nat q) else None)"
      unfolding checked_add_def u e q_def [symmetric] sum by simp
    then show ?thesis
      unfolding duration_mul_def Let_def m option.case r by simp
  next
    case False
    then have "checked_mul (as_secs d) (ucast k) = None" by (simp add: checked_mul_def)
    moreover have "\<not> q < 2 ^ 64" using False by (simp add: q_def)
    ultimately show ?thesis by (simp add: duration_mul_def)
  qed
qed

lemma scaled_le_iff: "m < 1000000000 \<Longrightarrow> (2 ^ 64 * 1000000000 \<le> q * 1000000000 + m) = (\<not> q < (2::nat) ^ 64)"
  by simp linarith

lemma duration_mul_None:
  "duration_mul d k = None \<longleftrightarrow> 2 ^ 64 * 1000000000 \<le> nanos d * unat k"
  unfolding nanos_def nanos_mul_div(2) by (subst scaled_le_iff) (simp_all add: duration_mul_spec)

lemma duration_mul_Some:
  assumes "duration_mul d k = Some d'"
  shows "wf_duration d' \<and> nanos d' = nanos d * unat k"
proof -
  let ?m = "unat (subsec_nanos d) * unat k mod 1000000000"
  let ?q = "unat (as_secs d) * unat k + unat (subsec_nanos d) * unat k div 1000000000"
  have q: "?q < 2 ^ 64" and d': "d' = Duration (of_nat ?q) (of_nat ?m)"
    using assms by (auto simp: duration_mul_spec split: if_splits)
  have m: "?m < 1000000000" by simp
  then have "unat (of_nat ?m :: u32) = ?m"
    by (intro unat_of_nat_small) simp
  moreover have "unat (of_nat ?q :: u64) = ?q"
    using q by (intro unat_of_nat_small) simp
  ultimately show ?thesis
    by (simp add: d' wf_duration_def nanos_def nanos_mul_div(2))
qed

section \<open>The retry loop always ends\<close>

text \<open>
  The k-th sleep lasts \<open>50ms * 2 ^ k\<close>; the largest that fits is the 68th, so the loop
  makes at most 69 calls.
\<close>

lemma from_millis_50 [simp]: "wf_duration (from_millis 50)" "nanos (from_millis 50) = 50000000"
  by (simp_all add: from_millis_def wf_duration_def nanos_def)

text \<open>What the loop amounts to: the first of the calls 0 to 68 that succeeds.\<close>

definition first_success :: "(nat \<Rightarrow> err + 'a) \<Rightarrow> nat \<Rightarrow> 'a res" where
  "first_success f n = (case find (\<lambda>i. isl (f i) = False) [n..<69] of
     None \<Rightarrow> Panic Overflow
   | Some i \<Rightarrow> of_sum (f i))"

lemma first_success_step:
  "n < 69 \<Longrightarrow> first_success f n =
     (case f n of Inr v \<Rightarrow> Ok v | Inl e \<Rightarrow> first_success f (Suc n))"
  by (simp add: first_success_def upt_conv_Cons split: sum.split)

lemma doubling_overflows: "(2 ^ 64 * 1000000000 \<le> 50000000 * 2 ^ n * unat (2::u32)) = (68 \<le> n)"
proof
  assume "68 \<le> n"
  then have "(2::nat) ^ 68 \<le> 2 ^ n" by (intro power_increasing) simp_all
  then show "2 ^ 64 * 1000000000 \<le> 50000000 * 2 ^ n * unat (2::u32)" by simp
next
  assume h: "2 ^ 64 * 1000000000 \<le> 50000000 * 2 ^ n * unat (2::u32)"
  show "68 \<le> n"
  proof (rule ccontr)
    assume "\<not> 68 \<le> n"
    then have "(2::nat) ^ n \<le> 2 ^ 67" by (intro power_increasing) simp_all
    with h show False by simp
  qed
qed

lemma autoretry_loop_eq:
  "n \<le> 68 \<Longrightarrow> nanos s = 50000000 * 2 ^ n \<Longrightarrow>
     autoretry_loop f n s = Some (first_success f n)"
proof (induction "69 - n" arbitrary: n s)
  case 0
  then show ?case by simp
next
  case (Suc k)
  show ?case
  proof (cases "f n")
    case (Inr v)
    then show ?thesis using Suc.prems by (simp add: autoretry_loop.simps first_success_step)
  next
    case fail: (Inl e)
    show ?thesis
    proof (cases "duration_mul s 2")
      case None
      then have "n = 68"
        using Suc.prems doubling_overflows [of n] by (simp add: duration_mul_None)
      then show ?thesis
        using fail None by (simp add: autoretry_loop.simps first_success_step first_success_def)
    next
      case (Some s')
      then have ns: "nanos s' = 50000000 * 2 ^ Suc n"
        using duration_mul_Some [OF Some] Suc.prems(2) by simp
      have "\<not> 68 \<le> n"
        using Some doubling_overflows [of n] duration_mul_None [of s 2] Suc.prems(2) by simp
      then have "autoretry_loop f (Suc n) s' = Some (first_success f (Suc n))"
        using Suc.hyps(2) ns by (intro Suc.hyps(1)) simp_all
      then show ?thesis
        using fail Some Suc.prems by (simp add: autoretry_loop.simps first_success_step)
    qed
  qed
qed

lemma autoretry_eq: "autoretry f = first_success f 0"
  by (simp add: autoretry_def autoretry_loop_eq)

lemma autoretry_not_Hang [simp]: "autoretry f \<noteq> Hang"
  by (simp add: autoretry_eq first_success_def of_sum_def split: option.split sum.split)

lemma autoretry_not_Err [simp]: "autoretry f \<noteq> Err e"
  by (auto simp: autoretry_eq first_success_def find_Some_iff of_sum_def split: option.split sum.split)

lemma autoretry_const:
  "autoretry (\<lambda>_. r) = (case r of Inr v \<Rightarrow> Ok v | Inl e \<Rightarrow> Panic Overflow)"
proof (cases r)
  case (Inl e)
  have "find (\<lambda>i. False) xs = None" for xs :: "nat list" by (induction xs) simp_all
  with Inl show ?thesis by (simp add: autoretry_eq first_success_def)
next
  case (Inr v)
  then show ?thesis by (simp add: autoretry_eq first_success_step)
qed

text \<open>
  Transient failures do not show: a call that fails fewer than 69 times in a row and
  otherwise gives \<open>v\<close> gives \<open>v\<close> under the retry loop.
\<close>

lemma autoretry_transient:
  assumes "\<not> fault n" and "n < 69"
  shows "autoretry (\<lambda>i. if fault i then Inl e else Inr v) = Ok v"
proof -
  have eq: "isl (if fault i then Inl e else Inr v) = fault i" for i by simp
  obtain i where i: "find (\<lambda>i. \<not> fault i) [0..<69] = Some i"
    using assms by (cases "find (\<lambda>i. \<not> fault i) [0..<69]") (auto simp: find_None_iff)
  then have "\<not> fault i" by (auto simp: find_Some_iff)
  with i show ?thesis by (simp add: autoretry_eq first_success_def eq)
qed

section \<open>What a caller gets\<close>

text \<open>
  C37: A retried call always ends: it gives the value of the first of its calls 0 to 68 that
  succeeds, and aborts if all 69 fail, because the doubled sleep no longer fits a Duration.
\<close>

theorem autoretry_outcome:
  "autoretry f = (case find (\<lambda>i. \<not> isl (f i)) [0..<69] of
     None \<Rightarrow> Panic Overflow
   | Some i \<Rightarrow> Ok (projr (f i)))"
proof (cases "find (\<lambda>i. \<not> isl (f i)) [0..<69]")
  case None
  then show ?thesis by (simp add: autoretry_eq first_success_def)
next
  case (Some i)
  then have "\<not> isl (f i)" by (auto simp: find_Some_iff)
  with Some show ?thesis
    by (cases "f i") (simp_all add: autoretry_eq first_success_def)
qed

end
