(* ===== verification/Chain_Types.thy ===== *)
theory Chain_Types
  imports Prelude
begin

text \<open>
  The data the node handles, with the fields its code reads (the types come from the
  crates melstructs, melstf and tmelcrypt), and \<open>env\<close>: the operations of the crates
  the node calls, as parameters of every definition that uses them. \<open>env_ok\<close> names
  the documented facts about them that some theorems assume.
\<close>

section \<open>Data\<close>

text \<open>32-byte hashes, addresses and keys; their byte order is the order of the numbers.\<close>

type_synonym hashval = "256 word"
type_synonym txhash = hashval
type_synonym address = hashval
type_synonym ed25519_pk = hashval

datatype netid = Mainnet | Testnet | Custom02 | Custom03 | Custom04 | Custom05
  | Custom06 | Custom07 | Custom08

datatype denom = Mel | OtherDenom bytes

datatype txkind = Stake | OtherKind u8

record coin_data =
  covhash :: address
  coin_value :: u128
  coin_denom :: denom
  additional_data :: bytes

text \<open>The transactions of a block are a set; the list is the order in which it is iterated.\<close>

record transaction =
  kind :: txkind
  data :: bytes
  outputs :: "coin_data list"
  tx_rest :: bytes

record proposer_action =
  fee_multiplier_delta :: int
  reward_dest :: address

text \<open>\<open>hdr_rest\<close> stands for the header fields the node never looks into.\<close>

record header =
  network :: netid
  height :: u64
  fee_multiplier :: u128
  stakes_hash :: hashval
  hdr_rest :: hashval

record block =
  blk_header :: header
  transactions :: "transaction list"
  blk_proposer_action :: "proposer_action option"

text \<open>\<open>ConsensusProof\<close>: a map from public keys to signatures.\<close>

type_synonym consensus_proof = "(ed25519_pk \<times> bytes) list"

record stake_doc =
  pubkey :: ed25519_pk
  e_start :: u64
  e_post_end :: u64
  syms_staked :: u128

record genesis_config =
  gen_network :: netid
  init_coindata :: coin_data
  gen_stakes :: "(txhash \<times> stake_doc) list"
  init_fee_pool :: u128
  init_fee_multiplier :: u128

section \<open>The crates the node calls\<close>

text \<open>
  \<open>'us\<close> and \<open>'ss\<close> are melstf's unsealed and sealed states, \<open>'sk\<close> the stake set of
  tip911-stakeset. \<open>apply_tx\<close> also gives the state it leaves behind when it fails.
  \<open>sql_u64\<close> says which integers SQLite takes as a parameter (its integers are signed
  64-bit), \<open>sql_io_error\<close> whether the transaction that saves a block is hit by an I/O error,
  \<open>evict_blocks\<close> which entries a full block cache drops at an insertion.
\<close>

record ('ss, 'us, 'sk) env =
  epoch :: "u64 \<Rightarrow> u64"
  header_hash :: "header \<Rightarrow> hashval"
  hash_nosigs :: "transaction \<Rightarrow> txhash"
  tx_weight :: "transaction \<Rightarrow> u128"
  realize :: "genesis_config \<Rightarrow> 'us"
  seal :: "'us \<Rightarrow> proposer_action option \<Rightarrow> 'ss"
  next_unsealed :: "'ss \<Rightarrow> 'us"
  apply_tx :: "'us \<Rightarrow> transaction \<Rightarrow> err option \<times> 'us"
  stf_apply_block :: "'ss \<Rightarrow> block \<Rightarrow> err + 'ss"
  from_block :: "block \<Rightarrow> 'sk \<Rightarrow> 'ss"
  to_block :: "'ss \<Rightarrow> block"
  header_of :: "'ss \<Rightarrow> header"
  raw_stakes :: "'ss \<Rightarrow> 'sk"
  stakeset_new :: 'sk
  add_stake :: "txhash \<Rightarrow> stake_doc \<Rightarrow> 'sk \<Rightarrow> 'sk"
  unlock_old :: "u64 \<Rightarrow> 'sk \<Rightarrow> 'sk"
  stakes_root_hash :: "'sk \<Rightarrow> hashval"
  stakes_iter :: "'sk \<Rightarrow> (hashval \<times> bytes) list"
  stakes_votes :: "'sk \<Rightarrow> u64 \<Rightarrow> ed25519_pk \<Rightarrow> u128"
  stakes_total_votes :: "'sk \<Rightarrow> u64 \<Rightarrow> u128"
  sig_verify :: "ed25519_pk \<Rightarrow> hashval \<Rightarrow> bytes \<Rightarrow> bool"
  hash_single :: "bytes \<Rightarrow> hashval"
  enc_header :: "header \<Rightarrow> bytes"
  enc_block :: "block \<Rightarrow> bytes"
  dec_block :: "bytes \<Rightarrow> block option"
  enc_proof :: "consensus_proof \<Rightarrow> bytes"
  dec_proof :: "bytes \<Rightarrow> consensus_proof option"
  enc_stake :: "stake_doc \<Rightarrow> bytes"
  dec_stake :: "bytes \<Rightarrow> stake_doc option"
  enc_genesis :: "genesis_config \<Rightarrow> bytes"
  hash_to_string :: "hashval \<Rightarrow> string"
  hash_of_string :: "string \<Rightarrow> hashval option"
  sql_u64 :: "u64 \<Rightarrow> bool"
  sql_io_error :: "block \<Rightarrow> bool"
  evict_blocks :: "(u64 \<rightharpoonup> block) \<Rightarrow> u64 \<Rightarrow> u64 set"

text \<open>
  What the node relies on: stdcode and the hex notation of hashes read back what they
  wrote; the sealed genesis has height 0; a state rebuilt from a block has its header;
  rusqlite passes a \<open>u64\<close> on as SQLite's signed 64-bit integer or refuses it.
\<close>

definition codec_ok :: "('ss, 'us, 'sk) env \<Rightarrow> bool" where
  "codec_ok E \<longleftrightarrow>
     (\<forall>b. dec_block E (enc_block E b) = Some b) \<and>
     (\<forall>p. dec_proof E (enc_proof E p) = Some p) \<and>
     (\<forall>d. dec_stake E (enc_stake E d) = Some d) \<and>
     (\<forall>h. hash_of_string E (hash_to_string E h) = Some h)"

definition env_ok :: "('ss, 'us, 'sk) env \<Rightarrow> bool" where
  "env_ok E \<longleftrightarrow> codec_ok E \<and>
     (\<forall>g. height (header_of E (seal E (realize E g) None)) = 0) \<and>
     (\<forall>b sk. header_of E (from_block E b sk) = blk_header b) \<and>
     (\<forall>h. sql_u64 E h \<longleftrightarrow> unat h < 2 ^ 63)"

lemma codec_okD:
  assumes "codec_ok E"
  shows "dec_block E (enc_block E b) = Some b"
    and "dec_proof E (enc_proof E p) = Some p"
    and "dec_stake E (enc_stake E d) = Some d"
    and "hash_of_string E (hash_to_string E h) = Some h"
  using assms by (auto simp: codec_ok_def)

lemma env_okD:
  assumes "env_ok E"
  shows "codec_ok E"
    and "height (header_of E (seal E (realize E g) None)) = 0"
    and "header_of E (from_block E b sk) = blk_header b"
    and "sql_u64 E h \<longleftrightarrow> unat h < 2 ^ 63"
  using assms by (auto simp: env_ok_def)

end
