(* ===== verification/Example_Env.thy ===== *)
theory Example_Env
  imports Chain_Types
begin

text \<open>
  A small executable instance of the crates, used by the witnesses of the theorems that
  assume facts about them: a unary self-delimiting codec with its round trips, association
  lists as stake sets, and a state transition function that checks the height only.
\<close>

section \<open>A codec\<close>

definition en_nat :: "nat \<Rightarrow> bytes" where
  "en_nat n = replicate n 1 @ [0]"

fun de_nat :: "bytes \<Rightarrow> (nat \<times> bytes) option" where
  "de_nat [] = None"
| "de_nat (b # bs) =
     (if b = 0 then Some (0, bs) else map_option (\<lambda>(n, r). (Suc n, r)) (de_nat bs))"

lemma de_en_nat [simp]: "de_nat (en_nat n @ r) = Some (n, r)"
  by (induction n) (simp_all add: en_nat_def)

definition en_word :: "'a::len word \<Rightarrow> bytes" where
  "en_word w = en_nat (unat w)"

definition de_word :: "bytes \<Rightarrow> ('a::len word \<times> bytes) option" where
  "de_word bs = map_option (\<lambda>(n, r). (of_nat n, r)) (de_nat bs)"

lemma de_en_word [simp]: "de_word (en_word w @ r) = Some (w, r)"
  by (simp add: de_word_def en_word_def)

definition en_list :: "('a \<Rightarrow> bytes) \<Rightarrow> 'a list \<Rightarrow> bytes" where
  "en_list f xs = en_nat (length xs) @ concat (map f xs)"

fun de_items :: "(bytes \<Rightarrow> ('a \<times> bytes) option) \<Rightarrow> nat \<Rightarrow> bytes \<Rightarrow> ('a list \<times> bytes) option" where
  "de_items g 0 bs = Some ([], bs)"
| "de_items g (Suc n) bs =
     (case g bs of None \<Rightarrow> None
      | Some (x, r) \<Rightarrow> map_option (\<lambda>(xs, r'). (x # xs, r')) (de_items g n r))"

definition de_list :: "(bytes \<Rightarrow> ('a \<times> bytes) option) \<Rightarrow> bytes \<Rightarrow> ('a list \<times> bytes) option" where
  "de_list g bs = (case de_nat bs of None \<Rightarrow> None | Some (n, r) \<Rightarrow> de_items g n r)"

lemma de_en_items:
  "(\<And>x r. g (f x @ r) = Some (x, r)) \<Longrightarrow>
     de_items g (length xs) (concat (map f xs) @ r) = Some (xs, r)"
  by (induction xs) simp_all

lemma de_en_list: "(\<And>x r. g (f x @ r) = Some (x, r)) \<Longrightarrow> de_list g (en_list f xs @ r) = Some (xs, r)"
  by (simp add: de_list_def en_list_def de_en_items)

abbreviation en_bytes :: "bytes \<Rightarrow> bytes" where
  "en_bytes \<equiv> en_list en_word"

abbreviation de_bytes :: "bytes \<Rightarrow> (bytes \<times> bytes) option" where
  "de_bytes \<equiv> de_list de_word"

lemma de_en_bytes [simp]: "de_bytes (en_bytes bs @ r) = Some (bs, r)"
  by (rule de_en_list) simp

definition en_option :: "('a \<Rightarrow> bytes) \<Rightarrow> 'a option \<Rightarrow> bytes" where
  "en_option f x = (case x of None \<Rightarrow> [0] | Some y \<Rightarrow> 1 # f y)"

definition de_option :: "(bytes \<Rightarrow> ('a \<times> bytes) option) \<Rightarrow> bytes \<Rightarrow> ('a option \<times> bytes) option" where
  "de_option g bs = (case bs of [] \<Rightarrow> None
     | b # r \<Rightarrow> if b = 0 then Some (None, r) else map_option (\<lambda>(x, r'). (Some x, r')) (g r))"

lemma de_en_option: "(\<And>x r. g (f x @ r) = Some (x, r)) \<Longrightarrow> de_option g (en_option f x @ r) = Some (x, r)"
  by (simp add: de_option_def en_option_def split: option.split)

text \<open>Sequencing decoders.\<close>

definition de_then ::
  "(bytes \<Rightarrow> ('a \<times> bytes) option) \<Rightarrow> ('a \<Rightarrow> bytes \<Rightarrow> ('b \<times> bytes) option) \<Rightarrow> bytes
   \<Rightarrow> ('b \<times> bytes) option" where
  "de_then g k bs = (case g bs of None \<Rightarrow> None | Some (x, r) \<Rightarrow> k x r)"

lemma de_then_Some: "g bs = Some (x, r) \<Longrightarrow> de_then g k bs = k x r"
  by (simp add: de_then_def)

section \<open>The data\<close>

fun en_netid :: "netid \<Rightarrow> bytes" where
  "en_netid Mainnet = [0]" | "en_netid Testnet = [1]" | "en_netid Custom02 = [2]"
| "en_netid Custom03 = [3]" | "en_netid Custom04 = [4]" | "en_netid Custom05 = [5]"
| "en_netid Custom06 = [6]" | "en_netid Custom07 = [7]" | "en_netid Custom08 = [8]"

definition de_netid :: "bytes \<Rightarrow> (netid \<times> bytes) option" where
  "de_netid bs = (case bs of [] \<Rightarrow> None | b # r \<Rightarrow>
     map_option (\<lambda>n. (n, r))
       (map_of [(0, Mainnet), (1, Testnet), (2, Custom02), (3, Custom03), (4, Custom04),
          (5, Custom05), (6, Custom06), (7, Custom07), (8, Custom08)] b))"

lemma de_en_netid [simp]: "de_netid (en_netid n @ r) = Some (n, r)"
  by (cases n) (simp_all add: de_netid_def)

definition en_header :: "header \<Rightarrow> bytes" where
  "en_header h = en_netid (network h) @ en_word (height h) @ en_word (fee_multiplier h)
     @ en_word (stakes_hash h) @ en_word (hdr_rest h)"

definition de_header :: "bytes \<Rightarrow> (header \<times> bytes) option" where
  "de_header = de_then de_netid (\<lambda>n. de_then de_word (\<lambda>h. de_then de_word (\<lambda>f.
     de_then de_word (\<lambda>s. de_then de_word (\<lambda>x r.
       Some (\<lparr>network = n, height = h, fee_multiplier = f, stakes_hash = s, hdr_rest = x\<rparr>, r))))))"

lemma de_en_header [simp]: "de_header (en_header h @ r) = Some (h, r)"
  by (simp add: de_header_def en_header_def de_then_def)

definition en_coin :: "coin_data \<Rightarrow> bytes" where
  "en_coin c = en_word (covhash c) @ en_word (coin_value c)
     @ en_option en_bytes (case coin_denom c of Mel \<Rightarrow> None | OtherDenom d \<Rightarrow> Some d)
     @ en_bytes (additional_data c)"

definition de_coin :: "bytes \<Rightarrow> (coin_data \<times> bytes) option" where
  "de_coin = de_then de_word (\<lambda>a. de_then de_word (\<lambda>v. de_then (de_option de_bytes) (\<lambda>d.
     de_then de_bytes (\<lambda>x r.
       Some (\<lparr>covhash = a, coin_value = v,
              coin_denom = (case d of None \<Rightarrow> Mel | Some y \<Rightarrow> OtherDenom y),
              additional_data = x\<rparr>, r)))))"

lemma de_en_coin [simp]: "de_coin (en_coin c @ r) = Some (c, r)"
  by (cases c; cases "coin_denom c")
    (simp_all add: de_coin_def en_coin_def de_then_def de_en_option)

definition en_tx :: "transaction \<Rightarrow> bytes" where
  "en_tx t = en_option en_word (case kind t of Stake \<Rightarrow> None | OtherKind k \<Rightarrow> Some k)
     @ en_bytes (data t) @ en_list en_coin (outputs t) @ en_bytes (tx_rest t)"

definition de_tx :: "bytes \<Rightarrow> (transaction \<times> bytes) option" where
  "de_tx = de_then (de_option de_word) (\<lambda>k. de_then de_bytes (\<lambda>d. de_then (de_list de_coin) (\<lambda>os.
     de_then de_bytes (\<lambda>x r.
       Some (\<lparr>kind = (case k of None \<Rightarrow> Stake | Some y \<Rightarrow> OtherKind y), data = d,
              outputs = os, tx_rest = x\<rparr>, r)))))"

lemma de_en_tx [simp]: "de_tx (en_tx t @ r) = Some (t, r)"
  by (cases t; cases "kind t") (simp_all add: de_tx_def en_tx_def de_then_def de_en_option de_en_list)

definition en_action :: "proposer_action \<Rightarrow> bytes" where
  "en_action a = en_nat (nat (fee_multiplier_delta a)) @ en_nat (nat (- fee_multiplier_delta a))
     @ en_word (reward_dest a)"

definition de_action :: "bytes \<Rightarrow> (proposer_action \<times> bytes) option" where
  "de_action = de_then de_nat (\<lambda>p. de_then de_nat (\<lambda>m. de_then de_word (\<lambda>d r.
     Some (\<lparr>fee_multiplier_delta = int p - int m, reward_dest = d\<rparr>, r))))"

lemma de_en_action [simp]: "de_action (en_action a @ r) = Some (a, r)"
  by (cases a) (simp add: de_action_def en_action_def de_then_def)

definition en_block :: "block \<Rightarrow> bytes" where
  "en_block b = en_header (blk_header b) @ en_list en_tx (transactions b)
     @ en_option en_action (blk_proposer_action b)"

definition de_block :: "bytes \<Rightarrow> (block \<times> bytes) option" where
  "de_block = de_then de_header (\<lambda>h. de_then (de_list de_tx) (\<lambda>ts. de_then (de_option de_action) (\<lambda>a r.
     Some (\<lparr>blk_header = h, transactions = ts, blk_proposer_action = a\<rparr>, r))))"

lemma de_en_block [simp]: "de_block (en_block b @ r) = Some (b, r)"
  by (simp add: de_block_def en_block_def de_then_def de_en_option de_en_list)

definition en_sig :: "ed25519_pk \<times> bytes \<Rightarrow> bytes" where
  "en_sig s = en_word (fst s) @ en_bytes (snd s)"

definition de_sig :: "bytes \<Rightarrow> ((ed25519_pk \<times> bytes) \<times> bytes) option" where
  "de_sig = de_then de_word (\<lambda>k. de_then de_bytes (\<lambda>s r. Some ((k, s), r)))"

lemma de_en_sig [simp]: "de_sig (en_sig s @ r) = Some (s, r)"
  by (simp add: de_sig_def en_sig_def de_then_def)

definition en_stake :: "stake_doc \<Rightarrow> bytes" where
  "en_stake d = en_word (pubkey d) @ en_word (e_start d) @ en_word (e_post_end d) @ en_word (syms_staked d)"

definition de_stake :: "bytes \<Rightarrow> (stake_doc \<times> bytes) option" where
  "de_stake = de_then de_word (\<lambda>k. de_then de_word (\<lambda>s. de_then de_word (\<lambda>e. de_then de_word (\<lambda>v r.
     Some (\<lparr>pubkey = k, e_start = s, e_post_end = e, syms_staked = v\<rparr>, r)))))"

lemma de_en_stake [simp]: "de_stake (en_stake d @ r) = Some (d, r)"
  by (simp add: de_stake_def en_stake_def de_then_def)

text \<open>A whole message: decoded to its end.\<close>

definition whole :: "(bytes \<Rightarrow> ('a \<times> bytes) option) \<Rightarrow> bytes \<Rightarrow> 'a option" where
  "whole g bs = (case g bs of Some (x, []) \<Rightarrow> Some x | _ \<Rightarrow> None)"

lemma whole_en: "(\<And>r. g (f x @ r) = Some (x, r)) \<Longrightarrow> whole g (f x) = Some x"
  using append_Nil2 by (metis (mono_tags, lifting) whole_def list.case(1) option.case(2) prod.case)

section \<open>The crates\<close>

type_synonym ex_stakes = "(txhash \<times> stake_doc) list"
type_synonym ex_state = "header \<times> ex_stakes \<times> transaction list"

definition ex_root :: "ex_stakes \<Rightarrow> hashval" where
  "ex_root sk = of_nat (length sk)"

definition ex_env :: "(ex_state, ex_state, ex_stakes) env" where
  "ex_env = \<lparr>
     epoch = (\<lambda>h. h div 200000),
     header_hash = (\<lambda>h. ucast (height h)),
     hash_nosigs = (\<lambda>t. of_nat (length (data t))),
     tx_weight = (\<lambda>t. of_nat (length (tx_rest t))),
     realize = (\<lambda>g. (\<lparr>network = gen_network g, height = 0, fee_multiplier = init_fee_multiplier g,
        stakes_hash = ex_root (gen_stakes g), hdr_rest = 0\<rparr>, gen_stakes g, [])),
     seal = (\<lambda>us a. us),
     next_unsealed = (\<lambda>(h, sk, ts). (h\<lparr>height := height h + 1\<rparr>, sk, [])),
     apply_tx = (\<lambda>(h, sk, ts) t. if data t = [] then (Some (Lib ''malformed''), (h, sk, ts))
        else (None, (h, sk, ts @ [t]))),
     stf_apply_block = (\<lambda>(h, sk, ts) b. if height (blk_header b) = height h + 1
        then Inr (blk_header b, sk, transactions b) else Inl (Lib ''wrong height'')),
     from_block = (\<lambda>b sk. (blk_header b, sk, transactions b)),
     to_block = (\<lambda>(h, sk, ts). \<lparr>blk_header = h, transactions = ts, blk_proposer_action = None\<rparr>),
     header_of = (\<lambda>(h, sk, ts). h),
     raw_stakes = (\<lambda>(h, sk, ts). sk),
     stakeset_new = [],
     add_stake = (\<lambda>t d sk. AList.update t d sk),
     unlock_old = (\<lambda>e sk. filter (\<lambda>(t, d). e < e_post_end d) sk),
     stakes_root_hash = ex_root,
     stakes_iter = (\<lambda>sk. map (\<lambda>(t, d). (t, en_stake d)) sk),
     stakes_votes = (\<lambda>sk e pk. sum_list (map (\<lambda>(t, d).
        if pubkey d = pk \<and> e_start d \<le> e \<and> e < e_post_end d then syms_staked d else 0) sk)),
     stakes_total_votes = (\<lambda>sk e. sum_list (map (\<lambda>(t, d).
        if e_start d \<le> e \<and> e < e_post_end d then syms_staked d else 0) sk)),
     sig_verify = (\<lambda>pk m s. s = [ucast pk, ucast m]),
     hash_single = (\<lambda>bs. of_nat (length bs)),
     enc_header = en_header,
     enc_block = en_block, dec_block = whole de_block,
     enc_proof = en_list en_sig, dec_proof = whole (de_list de_sig),
     enc_stake = en_stake, dec_stake = whole de_stake,
     enc_genesis = (\<lambda>g. en_list (\<lambda>(t, d). en_word t @ en_stake d) (gen_stakes g)),
     hash_to_string = (\<lambda>h. replicate (unat h) CHR ''a''),
     hash_of_string = (\<lambda>s. Some (of_nat (length s))),
     sql_u64 = (\<lambda>h. unat h < 2 ^ 63),
     sql_io_error = (\<lambda>b. False),
     evict_blocks = (\<lambda>m h. {})\<rparr>"

lemma ex_codec [simp]:
  "whole de_block (en_block b) = Some b"
  "whole (de_list de_sig) (en_list en_sig p) = Some p"
  "whole de_stake (en_stake d) = Some d"
  by (simp_all add: whole_en de_en_list)

lemma ex_env_ok: "env_ok ex_env"
  by (simp add: env_ok_def codec_ok_def ex_env_def split_beta)

end
