(* ===== verification/Mempool.thy ===== *)
theory Mempool
  imports Example_Env
begin

text \<open>
  \<open>src/storage/mempool.rs\<close>: the provisional next block. A transaction enters at most
  once between two rebases, the weight of what entered is bounded, a rebase replaces
  everything.
\<close>

section \<open>State and operations\<close>

definition WEIGHT_LIMIT :: u128 where
  "WEIGHT_LIMIT = 10000000"

record 'us mempool =
  provisional_state :: 'us
  last_rebase :: 'us
  txx_in_state :: "txhash set"
  next_weight :: u128

definition mempool_new :: "'us \<Rightarrow> 'us mempool" where
  "mempool_new state =
     \<lparr>provisional_state = state, last_rebase = state, txx_in_state = {}, next_weight = 0\<rparr>"

definition to_state :: "'us mempool \<Rightarrow> 'us" where
  "to_state m = provisional_state m"

text \<open>
  The hash is recorded before the transaction is applied, and stays recorded when
  applying fails.
\<close>

definition apply_transaction ::
  "('ss, 'us, 'sk) env \<Rightarrow> transaction \<Rightarrow> 'us mempool \<Rightarrow> unit res \<times> 'us mempool" where
  [op_defs]: "apply_transaction E tx m =
     (if next_weight m < WEIGHT_LIMIT then
        (let h = hash_nosigs E tx in
         if h \<in> txx_in_state m then (Err DuplicateTx, m)
         else
           (let m1 = m\<lparr>txx_in_state := insert h (txx_in_state m)\<rparr>;
                r = apply_tx E (provisional_state m1) tx;
                m2 = m1\<lparr>provisional_state := snd r\<rparr>
            in case fst r of
                 Some e \<Rightarrow> (Err e, m2)
               | None \<Rightarrow> (case checked_add (next_weight m2) (tx_weight E tx) of
                     None \<Rightarrow> (Panic Overflow, m2)
                   | Some w \<Rightarrow> (Ok (), m2\<lparr>next_weight := w\<rparr>))))
      else (Err MempoolFull, m))"

definition rebase :: "('ss, 'us, 'sk) env \<Rightarrow> 'ss \<Rightarrow> 'us mempool \<Rightarrow> 'us mempool" where
  [op_defs]: "rebase E state m =
     (let next_state = next_unsealed E state
      in m\<lparr>provisional_state := next_state, last_rebase := next_state,
           txx_in_state := {}, next_weight := 0\<rparr>)"

definition lookup_recent_tx :: "'us mempool \<Rightarrow> txhash \<Rightarrow> transaction option" where
  "lookup_recent_tx m h = None"

text \<open>Applying a batch, one transaction after the other, whatever each call returns.\<close>

fun apply_many ::
  "('ss, 'us, 'sk) env \<Rightarrow> transaction list \<Rightarrow> 'us mempool \<Rightarrow> 'us mempool" where
  "apply_many E [] m = m"
| "apply_many E (tx # txs) m = apply_many E txs (snd (apply_transaction E tx m))"

section \<open>One call\<close>

lemma apply_transaction_full:
  "\<not> next_weight m < WEIGHT_LIMIT \<Longrightarrow> apply_transaction E tx m = (Err MempoolFull, m)"
  by (simp add: apply_transaction_def)

lemma apply_transaction_seen:
  "next_weight m < WEIGHT_LIMIT \<Longrightarrow> hash_nosigs E tx \<in> txx_in_state m \<Longrightarrow>
     apply_transaction E tx m = (Err DuplicateTx, m)"
  by (simp add: apply_transaction_def)

lemma apply_transaction_Ok:
  assumes "apply_transaction E tx m = (Ok (), m')"
  shows "next_weight m < WEIGHT_LIMIT" "hash_nosigs E tx \<notin> txx_in_state m"
    "apply_tx E (provisional_state m) tx = (None, provisional_state m')"
    "txx_in_state m' = insert (hash_nosigs E tx) (txx_in_state m)"
    "unat (next_weight m') = unat (next_weight m) + unat (tx_weight E tx)"
    "last_rebase m' = last_rebase m"
  using assms
  by (auto simp: apply_transaction_def Let_def prod_eq_iff checked_add_Some_unat
      split: if_splits option.splits)

lemma apply_transaction_frame [simp]:
  "last_rebase (snd (apply_transaction E tx m)) = last_rebase m"
  by (simp add: apply_transaction_def Let_def split: option.split)


lemma apply_transaction_weight:
  "next_weight (snd (apply_transaction E tx m)) =
     (if fst (apply_transaction E tx m) = Ok () then next_weight m + tx_weight E tx
      else next_weight m)"
  by (auto simp: apply_transaction_def Let_def checked_add_Some_iff split: option.split)

section \<open>The weight bound\<close>

text \<open>No call starts above the limit, so the pool overshoots by one transaction at most.\<close>

definition weight_bounded :: "nat \<Rightarrow> 'us mempool \<Rightarrow> bool" where
  "weight_bounded w m \<longleftrightarrow> unat (next_weight m) < unat WEIGHT_LIMIT + w"

lemma apply_transaction_bounded:
  assumes "unat (tx_weight E tx) \<le> w" and "weight_bounded w m"
  shows "weight_bounded w (snd (apply_transaction E tx m))"
proof (cases "apply_transaction E tx m")
  case (Pair r m')
  show ?thesis
  proof (cases "r = Ok ()")
    case True
    then show ?thesis
      using apply_transaction_Ok(1,5) [of E tx m m'] assms Pair
      by (simp add: weight_bounded_def word_less_nat_alt)
  next
    case False
    then show ?thesis
      using assms Pair apply_transaction_weight [of E tx m] by (simp add: weight_bounded_def)
  qed
qed

lemma apply_many_bounded:
  "\<forall>tx \<in> set txs. unat (tx_weight E tx) \<le> w \<Longrightarrow> weight_bounded w m \<Longrightarrow>
     weight_bounded w (apply_many E txs m)"
  by (induction txs arbitrary: m) (simp_all add: apply_transaction_bounded)

section \<open>The provisional state is a replay\<close>






lemma rebase_clear [simp]:
  "provisional_state (rebase E s m) = next_unsealed E s"
  "txx_in_state (rebase E s m) = {}" "next_weight (rebase E s m) = 0"
  by (simp_all add: rebase_def Let_def)

section \<open>What the mempool promises\<close>


text \<open>
  C35: The weight of the pool stays below the limit plus one transaction: with transactions
  of weight at most w, the pool never holds 10,000,000 + w or more.
\<close>

theorem mempool_weight_bound:
  assumes "\<forall>tx \<in> set txs. unat (tx_weight E tx) \<le> w"
  shows "unat (next_weight (apply_many E txs (rebase E s m))) < 10000000 + w"
  using apply_many_bounded [OF assms, of "rebase E s m"]
  by (simp add: weight_bounded_def WEIGHT_LIMIT_def)

text \<open>
  A transaction that fails to apply stays listed: sending it again gives
  \<open>DuplicateTx\<close>, although it never entered the provisional state, until a rebase clears the
  list.
\<close>

theorem failed_transaction_blacklisted:
  assumes "next_weight m < WEIGHT_LIMIT" and "hash_nosigs E tx \<notin> txx_in_state m"
    and "apply_tx E (provisional_state m) tx = (Some e, provisional_state m)"
  shows "fst (apply_transaction E tx m) = Err e \<and>
    provisional_state (snd (apply_transaction E tx m)) = provisional_state m \<and>
    fst (apply_transaction E tx (snd (apply_transaction E tx m))) = Err DuplicateTx \<and>
    hash_nosigs E tx \<notin> txx_in_state (rebase E s (snd (apply_transaction E tx m)))"
  using assms by (simp add: apply_transaction_def Let_def WEIGHT_LIMIT_def)

definition ex_pool_tx :: "bytes \<Rightarrow> transaction" where
  "ex_pool_tx d = \<lparr>kind = OtherKind 0, data = d, outputs = [], tx_rest = [0, 0, 0]\<rparr>"

definition ex_pool_state :: ex_state where
  "ex_pool_state = (\<lparr>network = Custom02, height = 0, fee_multiplier = 1, stakes_hash = 0,
     hdr_rest = 0\<rparr>, [], [])"

theorem mempool_weight_bound_witness:
  "unat (next_weight (apply_many ex_env [ex_pool_tx [1], ex_pool_tx [2]]
     (rebase ex_env ex_pool_state (mempool_new ex_pool_state)))) < 10000003"
proof -
  have "\<forall>tx \<in> set [ex_pool_tx [1], ex_pool_tx [2]]. unat (tx_weight ex_env tx) \<le> 3"
    by (simp add: ex_pool_tx_def ex_env_def)
  from mempool_weight_bound [OF this, of ex_pool_state "mempool_new ex_pool_state"]
  show ?thesis by simp
qed

theorem failed_transaction_blacklisted_witness:
  "fst (apply_transaction ex_env (ex_pool_tx [])
     (snd (apply_transaction ex_env (ex_pool_tx []) (mempool_new ex_pool_state)))) = Err DuplicateTx"
  using failed_transaction_blacklisted [of "mempool_new ex_pool_state" ex_env "ex_pool_tx []" "Lib ''malformed''"]
  by (simp add: mempool_new_def WEIGHT_LIMIT_def ex_env_def ex_pool_tx_def ex_pool_state_def)

end
