(* ===== verification/Storage.thy ===== *)
theory Storage
  imports Autoretry Mempool
begin

text \<open>
  \<open>src/storage/storage.rs\<close>: the SQLite tables of the node, the block cache over them,
  the reconstruction of states, and \<open>apply_block\<close>, the one operation that extends the
  chain. The operations are those of one task running alone; Storage_Steps has
  the interleavings.
\<close>

section \<open>State\<close>

text \<open>
  The tables: height to header and block, height to consensus proof, transaction hash to
  height and stake document.
\<close>

record db_tables =
  history :: "(u64, bytes \<times> bytes) table"
  consensus_proofs :: "(u64, bytes) table"
  stakes :: "(string, u64 \<times> bytes) table"

text \<open>
  The \<open>Storage\<close> struct. The pool of connections is in Conn_Pool: each call takes one and
  gives it back. \<open>new_block_notify\<close> counts the notifications sent.
\<close>

record 'us storage =
  db :: db_tables
  old_cache :: "u64 \<rightharpoonup> block"
  genesis :: genesis_config
  mempool :: "'us mempool"
  new_block_notify :: nat
  sqlite_path :: string

section \<open>Opening\<close>

text \<open>\<open>PathBuf::push\<close>: an absolute path replaces, a relative one is appended.\<close>

definition path_push :: "string \<Rightarrow> string \<Rightarrow> string" where
  "path_push p q =
     (if take 1 q = ''/'' then q
      else if p = [] \<or> last p = CHR ''/'' then p @ q
      else p @ ''/'' @ q)"

definition open_path :: "('ss, 'us, 'sk) env \<Rightarrow> string \<Rightarrow> genesis_config \<Rightarrow> string" where
  "open_path E db_folder g =
     path_push
       (path_push db_folder (hash_to_string E (hash_single E (enc_genesis E g)) @ ''/''))
       ''storage.db''"

definition init_stakes ::
  "('ss, 'us, 'sk) env \<Rightarrow> genesis_config \<Rightarrow> (string, u64 \<times> bytes) table
   \<Rightarrow> (string, u64 \<times> bytes) table" where
  "init_stakes E g t =
     fold (\<lambda>(txhash, stake). insert_row_or_ignore (hash_to_string E txhash) (0, enc_stake E stake))
       (gen_stakes g) t"

text \<open>\<open>tabs\<close> are the tables found on disk, empty ones on the first start.\<close>

definition storage_open ::
  "('ss, 'us, 'sk) env \<Rightarrow> string \<Rightarrow> genesis_config \<Rightarrow> db_tables \<Rightarrow> 'us storage" where
  "storage_open E db_folder g tabs =
     \<lparr>db = tabs\<lparr>stakes := init_stakes E g (stakes tabs)\<rparr>,
      old_cache = Map.empty,
      genesis = g,
      mempool = mempool_new (realize E g),
      new_block_notify = 0,
      sqlite_path = open_path E db_folder g\<rparr>"

definition get_indexer_path :: "'us storage \<Rightarrow> string" where
  "get_indexer_path st = sqlite_path st @ ''.coinindex.db''"

section \<open>Reading\<close>

definition highest_height :: "'us storage \<Rightarrow> u64 res" where
  "highest_height st =
     bind_res (autoretry (\<lambda>_. Inr (select_max (history (db st)))))
       (\<lambda>val. Ok (case val of None \<Rightarrow> 0 | Some h \<Rightarrow> h))"

text \<open>The body of the closure \<open>get_block\<close> retries, and the call itself.\<close>

definition get_block_once ::
  "('ss, 'us, 'sk) env \<Rightarrow> 'us storage \<Rightarrow> u64 \<Rightarrow> err + block option" where
  "get_block_once E st h =
     (case old_cache st h of
        Some val \<Rightarrow> Inr (Some val)
      | None \<Rightarrow>
          if \<not> sql_u64 E h then Inl SqlParam
          else (case select_row (history (db st)) h of
              None \<Rightarrow> Inr None
            | Some (_, block_blob) \<Rightarrow> (case dec_block E block_blob of
                  None \<Rightarrow> Inl Deser
                | Some b \<Rightarrow> Inr (Some b))))"

definition get_block ::
  "('ss, 'us, 'sk) env \<Rightarrow> 'us storage \<Rightarrow> u64 \<Rightarrow> block option res \<times> 'us storage" where
  [op_defs]: "get_block E st h =
     (let r = autoretry (\<lambda>_. get_block_once E st h)
      in (r, case (old_cache st h, r) of
               (None, Ok (Some b)) \<Rightarrow>
                 st\<lparr>old_cache := cache_put (evict_blocks E (old_cache st) h) h b (old_cache st)\<rparr>
             | _ \<Rightarrow> st))"

definition get_consensus ::
  "('ss, 'us, 'sk) env \<Rightarrow> 'us storage \<Rightarrow> u64 \<Rightarrow> consensus_proof option res" where
  [op_defs]: "get_consensus E st h =
     autoretry (\<lambda>_.
       if \<not> sql_u64 E h then Inl SqlParam
       else (case select_row (consensus_proofs (db st)) h of
           None \<Rightarrow> Inr None
         | Some vec \<Rightarrow> (case dec_proof E vec of None \<Rightarrow> Inl Deser | Some p \<Rightarrow> Inr (Some p))))"

text \<open>Adding the rows of the stakes table one by one; a bad row ends the attempt.\<close>

fun add_stake_rows ::
  "('ss, 'us, 'sk) env \<Rightarrow> (string \<times> u64 \<times> bytes) list \<Rightarrow> 'sk \<Rightarrow> err + 'sk" where
  "add_stake_rows E [] sk = Inr sk"
| "add_stake_rows E ((t, h, doc) # rows) sk =
     (case hash_of_string E t of
        None \<Rightarrow> Inl Deser
      | Some th \<Rightarrow> (case dec_stake E doc of
            None \<Rightarrow> Inl Deser
          | Some sd \<Rightarrow> add_stake_rows E rows (add_stake E th sd sk)))"

definition stakeset_once ::
  "('ss, 'us, 'sk) env \<Rightarrow> genesis_config \<Rightarrow> (string, u64 \<times> bytes) table \<Rightarrow> u64 \<Rightarrow> err + 'sk" where
  "stakeset_once E g rows h =
     (if \<not> sql_u64 E h then Inl SqlParam
      else (case add_stake_rows E (filter (\<lambda>(_, hh, _). hh \<le> h) rows)
                   (fold (\<lambda>(t, sd). add_stake E t sd) (gen_stakes g) (stakeset_new E)) of
          Inl e \<Rightarrow> Inl e
        | Inr sk \<Rightarrow> Inr (unlock_old E (epoch E h) sk)))"

definition get_stakeset :: "('ss, 'us, 'sk) env \<Rightarrow> 'us storage \<Rightarrow> u64 \<Rightarrow> 'sk res" where
  "get_stakeset E st h = autoretry (\<lambda>_. stakeset_once E (genesis st) (stakes (db st)) h)"

definition get_state ::
  "('ss, 'us, 'sk) env \<Rightarrow> 'us storage \<Rightarrow> u64 \<Rightarrow> 'ss option res \<times> 'us storage" where
  [op_defs]: "get_state E st h =
     bind_st (get_block E st h) (\<lambda>ob st'. case ob of
         None \<Rightarrow> (Ok None, st')
       | Some blk \<Rightarrow> bind_st (get_stakeset E st' h, st') (\<lambda>stakeset st'.
           if stakes_root_hash E stakeset = stakes_hash (blk_header blk)
           then (Ok (Some (from_block E blk stakeset)), st')
           else (Panic Assertion, st')))"

definition highest_state ::
  "('ss, 'us, 'sk) env \<Rightarrow> 'us storage \<Rightarrow> 'ss res \<times> 'us storage" where
  [op_defs]: "highest_state E st =
     bind_st (highest_height st, st) (\<lambda>h st.
       if 0 < h then
         bind_st (get_state E st h) (\<lambda>os st'. case os of
             Some s \<Rightarrow> (Ok s, st')
           | None \<Rightarrow> (Panic (Expect ''highest not available''), st'))
       else (Ok (seal E (realize E (genesis st)) None), st))"

section \<open>Extending the chain\<close>

text \<open>
  The votes for a block: \<open>total_votes\<close> over the stakes active in its epoch, and
  \<open>present_votes\<close>, to which each valid signature adds the total reached so far.
\<close>

definition active_stake :: "('ss, 'us, 'sk) env \<Rightarrow> header \<Rightarrow> stake_doc \<Rightarrow> bool" where
  "active_stake E hdr d \<longleftrightarrow>
     e_start d \<le> epoch E (height hdr) \<and> epoch E (height hdr) < e_post_end d"

definition signed_by ::
  "('ss, 'us, 'sk) env \<Rightarrow> header \<Rightarrow> consensus_proof \<Rightarrow> stake_doc \<Rightarrow> bool" where
  "signed_by E hdr cproof d \<longleftrightarrow>
     (case map_of cproof (pubkey d) of
        None \<Rightarrow> False
      | Some v \<Rightarrow> sig_verify E (pubkey d) (header_hash E hdr) v)"

fun count_votes ::
  "('ss, 'us, 'sk) env \<Rightarrow> header \<Rightarrow> consensus_proof \<Rightarrow> (hashval \<times> bytes) list
   \<Rightarrow> u128 \<Rightarrow> u128 \<Rightarrow> (u128 \<times> u128) res" where
  "count_votes E hdr cproof [] total_votes present_votes = Ok (total_votes, present_votes)"
| "count_votes E hdr cproof ((_, bs) # rest) total_votes present_votes =
     (case dec_stake E bs of
        None \<Rightarrow> Err Deser
      | Some d \<Rightarrow>
          if active_stake E hdr d then
            bind_res (of_checked (checked_add total_votes (syms_staked d))) (\<lambda>total.
              if signed_by E hdr cproof d then
                bind_res (of_checked (checked_add present_votes total))
                  (\<lambda>present. count_votes E hdr cproof rest total present)
              else count_votes E hdr cproof rest total present_votes)
          else count_votes E hdr cproof rest total_votes present_votes)"

definition check_consensus ::
  "('ss, 'us, 'sk) env \<Rightarrow> header \<Rightarrow> consensus_proof \<Rightarrow> (hashval \<times> bytes) list \<Rightarrow> unit res" where
  [op_defs]: "check_consensus E hdr cproof docs =
     bind_res (count_votes E hdr cproof docs 0 0) (\<lambda>(total_votes, present_votes).
       bind_res (of_checked (checked_mul 2 total_votes)) (\<lambda>twice.
         if present_votes \<le> twice div 3
         then Err (InsufficientVotes (height hdr) present_votes total_votes)
         else Ok ()))"

text \<open>
  The SQLite transaction that saves a block; an error rolls it back, which here is that
  the tables of the caller stay.
\<close>

fun save_stakes ::
  "('ss, 'us, 'sk) env \<Rightarrow> header \<Rightarrow> transaction list \<Rightarrow> (string, u64 \<times> bytes) table
   \<Rightarrow> err + (string, u64 \<times> bytes) table" where
  "save_stakes E hdr [] t = Inr t"
| "save_stakes E hdr (txn # txns) t =
     (if kind txn = Stake then
        (case dec_stake E (data txn) of
           None \<Rightarrow> save_stakes E hdr txns t
         | Some doc \<Rightarrow>
             if 500000 \<le> height hdr \<or> network hdr \<noteq> Mainnet then
               (case insert_row (hash_to_string E (hash_nosigs E txn)) (height hdr, enc_stake E doc) t of
                  None \<Rightarrow> Inl SqlConflict
                | Some t' \<Rightarrow> save_stakes E hdr txns t')
             else save_stakes E hdr txns t)
      else save_stakes E hdr txns t)"

definition save_block ::
  "('ss, 'us, 'sk) env \<Rightarrow> block \<Rightarrow> consensus_proof \<Rightarrow> db_tables \<Rightarrow> err + db_tables" where
  [op_defs]: "save_block E blk cproof tabs =
     (let h = height (blk_header blk) in
      if sql_io_error E blk then Inl (Lib ''sqlite I/O error'')
      else if \<not> sql_u64 E h then Inl SqlParam
      else (case insert_row h (enc_header E (blk_header blk), enc_block E blk) (history tabs) of
          None \<Rightarrow> Inl SqlConflict
        | Some hist \<Rightarrow> (case insert_row h (enc_proof E cproof) (consensus_proofs tabs) of
              None \<Rightarrow> Inl SqlConflict
            | Some cons \<Rightarrow> (case save_stakes E (blk_header blk) (transactions blk) (stakes tabs) of
                  Inl e \<Rightarrow> Inl e
                | Inr stk \<Rightarrow> Inr \<lparr>history = hist, consensus_proofs = cons, stakes = stk\<rparr>))))"

definition apply_block ::
  "('ss, 'us, 'sk) env \<Rightarrow> 'us storage \<Rightarrow> block \<Rightarrow> consensus_proof \<Rightarrow> unit res \<times> 'us storage" where
  [op_defs]: "apply_block E st blk cproof =
     bind_st (highest_state E st) (\<lambda>tip st.
       let hdr = blk_header blk; tip_height = height (header_of E tip) in
       bind_st (of_checked (checked_add tip_height 1), st) (\<lambda>expected st.
         if height hdr \<noteq> expected then (Err (CannotApply (height hdr) tip_height), st)
         else bind_st (check_consensus E hdr cproof (stakes_iter E (raw_stakes E tip)), st) (\<lambda>_ st.
           bind_st (of_sum (stf_apply_block E tip blk), st) (\<lambda>new_state st.
             bind_st (of_sum (save_block E blk cproof (db st)), st) (\<lambda>tabs st.
               bind_st (highest_state E (st\<lparr>db := tabs\<rparr>)) (\<lambda>next st.
                 (Ok (), st\<lparr>mempool := rebase E next (mempool st),
                            new_block_notify := Suc (new_block_notify st)\<rparr>)))))))"

end
