(* ===== verification/Block_Store.thy ===== *)
theory Block_Store
  imports Chain_Types
begin

text \<open>
  The interface between the storage and those who push blocks into it (block
  synchronisation, the staker, the migration tool): a store whose blocks are numbered from
  1, whose \<open>apply_b\<close> appends the block or leaves the blocks alone. The clients' loops
  over \<open>apply_b\<close> and their lemmas are proved against this interface.
\<close>

section \<open>The contract\<close>

locale block_store =
  fixes invar :: "'s \<Rightarrow> bool"
    and blocks :: "'s \<Rightarrow> block list"
    and top_height :: "'s \<Rightarrow> u64 res"
    and apply_b :: "'s \<Rightarrow> block \<Rightarrow> consensus_proof \<Rightarrow> unit res \<times> 's"
  assumes apply_Ok: "invar s \<Longrightarrow> apply_b s b p = (Ok (), s') \<Longrightarrow> invar s' \<and> blocks s' = blocks s @ [b]"
    and apply_Err: "invar s \<Longrightarrow> apply_b s b p = (Err e, s') \<Longrightarrow> invar s' \<and> blocks s' = blocks s"
    and numbered: "invar s \<Longrightarrow> i < length (blocks s) \<Longrightarrow>
      unat (height (blk_header (blocks s ! i))) = Suc i"
    and top_length: "invar s \<Longrightarrow> top_height s = Ok (of_nat (length (blocks s))) \<and> length (blocks s) < 2 ^ 63"
begin

lemma applied_height:
  assumes "invar s" "apply_b s b p = (Ok (), s')"
  shows "unat (height (blk_header b)) = Suc (length (blocks s))"
  using numbered [of s' "length (blocks s)"] apply_Ok [OF assms] by simp

lemma not_applied:
  "invar s \<Longrightarrow> unat (height (blk_header b)) \<noteq> Suc (length (blocks s)) \<Longrightarrow>
     fst (apply_b s b p) \<noteq> Ok ()"
  using applied_height by (metis prod.collapse)

text \<open>A block is never applied twice.\<close>

lemma no_reapply:
  assumes "invar s" "apply_b s b p = (Ok (), s')"
  shows "fst (apply_b s' b q) \<noteq> Ok ()"
  using not_applied [of s' b q] applied_height [OF assms] apply_Ok [OF assms] by simp

end

section \<open>A store that others write to as well\<close>

text \<open>
  All that is left of the contract when other tasks apply blocks between two calls:
  \<open>gain s k s'\<close> says that \<open>s'\<close> came out of \<open>s\<close> with at least \<open>k\<close> blocks of the caller's own.
\<close>

locale gaining_store =
  fixes invar :: "'s \<Rightarrow> bool"
    and gain :: "'s \<Rightarrow> nat \<Rightarrow> 's \<Rightarrow> bool"
    and apply_b :: "'s \<Rightarrow> block \<Rightarrow> consensus_proof \<Rightarrow> unit res \<times> 's"
  assumes gain_refl: "invar s \<Longrightarrow> gain s 0 s"
    and gain_trans: "gain s k t \<Longrightarrow> gain t l u \<Longrightarrow> gain s (k + l) u"
    and apply_gain: "invar s \<Longrightarrow> apply_b s b p = (Ok (), s') \<Longrightarrow> invar s' \<and> gain s 1 s'"
    and apply_no_gain: "invar s \<Longrightarrow> apply_b s b p = (Err e, s') \<Longrightarrow> invar s' \<and> gain s 0 s'"

text \<open>Alone, the caller gains exactly what it applies.\<close>

sublocale block_store \<subseteq> gaining: gaining_store invar "\<lambda>s k s'. \<exists>bs. blocks s' = blocks s @ bs \<and> length bs = k" apply_b
proof (unfold_locales, goal_cases)
  case (3 s b p s')
  then show ?case using apply_Ok by fastforce
next
  case (4 s b p e s')
  then show ?case using apply_Err by fastforce
qed auto

section \<open>Applying a sequence\<close>

text \<open>The blocks in order until one fails; the number applied comes with the result.\<close>

fun apply_all ::
  "('s \<Rightarrow> block \<Rightarrow> consensus_proof \<Rightarrow> unit res \<times> 's) \<Rightarrow> (block \<times> consensus_proof) list \<Rightarrow> 's
   \<Rightarrow> unit res \<times> 's" where
  "apply_all apply_b [] s = (Ok (), s)"
| "apply_all apply_b ((b, p) # bps) s = bind_st (apply_b s b p) (\<lambda>_ s'. apply_all apply_b bps s')"

lemma apply_all_append:
  "apply_all apply_b (xs @ ys) s = bind_st (apply_all apply_b xs s) (\<lambda>_ s'. apply_all apply_b ys s')"
proof (induction xs arbitrary: s)
  case Nil
  then show ?case by simp
next
  case (Cons x xs)
  obtain r s' where "apply_b s (fst x) (snd x) = (r, s')" by (cases "apply_b s (fst x) (snd x)")
  then show ?case using Cons.IH by (cases x; cases r) simp_all
qed

context block_store
begin

lemma apply_all_Ok:
  "invar s \<Longrightarrow> apply_all apply_b bps s = (Ok (), s') \<Longrightarrow>
     invar s' \<and> blocks s' = blocks s @ map fst bps"
proof (induction bps arbitrary: s)
  case Nil
  then show ?case by simp
next
  case (Cons x bps)
  obtain b p where x: "x = (b, p)" by (cases x)
  from Cons.prems(2) obtain s1 where "apply_b s b p = (Ok (), s1)"
    and "apply_all apply_b bps s1 = (Ok (), s')"
    by (auto simp: x bind_st_Ok)
  with Cons.prems(1) Cons.IH [of s1] show ?case by (auto simp: x dest: apply_Ok)
qed

end

end
