(* ===== verification/Storage_Inv.thy ===== *)
theory Storage_Inv
  imports Storage Block_Store
begin

text \<open>
  The invariant of the storage, what it says of every reading operation, and that
  \<open>apply_block\<close> keeps it. The abstract view is \<open>chain\<close>: the list of the stored
  blocks, the block of height h at position h - 1.
\<close>

section \<open>The invariant\<close>

definition block_at :: "('ss, 'us, 'sk) env \<Rightarrow> db_tables \<Rightarrow> u64 \<Rightarrow> block option" where
  "block_at E tabs h =
     (case select_row (history tabs) h of None \<Rightarrow> None | Some (_, blob) \<Rightarrow> dec_block E blob)"

definition consensus_at :: "('ss, 'us, 'sk) env \<Rightarrow> db_tables \<Rightarrow> u64 \<Rightarrow> consensus_proof option" where
  "consensus_at E tabs h =
     (case select_row (consensus_proofs tabs) h of None \<Rightarrow> None | Some blob \<Rightarrow> dec_proof E blob)"

definition chain :: "('ss, 'us, 'sk) env \<Rightarrow> db_tables \<Rightarrow> block list" where
  "chain E tabs = map (\<lambda>(_, _, blob). the (dec_block E blob)) (history tabs)"

text \<open>The heights of a table are 1, 2, .. in insertion order.\<close>

definition consecutive :: "(u64, 'v) table \<Rightarrow> bool" where
  "consecutive t \<longleftrightarrow> map (unat \<circ> fst) t = [1..<Suc (length t)]"

definition history_row_ok :: "('ss, 'us, 'sk) env \<Rightarrow> u64 \<times> bytes \<times> bytes \<Rightarrow> bool" where
  "history_row_ok E r \<longleftrightarrow>
     (\<exists>b. r = (height (blk_header b), enc_header E (blk_header b), enc_block E b)) \<and>
     sql_u64 E (fst r)"

definition wf_db :: "('ss, 'us, 'sk) env \<Rightarrow> db_tables \<Rightarrow> bool" where
  "wf_db E tabs \<longleftrightarrow>
     consecutive (history tabs) \<and>
     map fst (consensus_proofs tabs) = map fst (history tabs) \<and>
     (\<forall>r \<in> set (history tabs). history_row_ok E r) \<and>
     (\<forall>r \<in> set (consensus_proofs tabs). \<exists>p. snd r = enc_proof E p)"

text \<open>The stakes table gives back, at every stored height, the stakes the block's header names.\<close>

definition stakes_agree ::
  "('ss, 'us, 'sk) env \<Rightarrow> genesis_config \<Rightarrow> db_tables \<Rightarrow> block \<Rightarrow> bool" where
  "stakes_agree E g tabs b \<longleftrightarrow>
     (\<exists>sk. stakeset_once E g (stakes tabs) (height (blk_header b)) = Inr sk \<and>
        stakes_root_hash E sk = stakes_hash (blk_header b))"

definition wf_core :: "('ss, 'us, 'sk) env \<Rightarrow> 'us storage \<Rightarrow> bool" where
  "wf_core E st \<longleftrightarrow>
     env_ok E \<and> wf_db E (db st) \<and>
     coherent (\<lambda>h b. block_at E (db st) h = Some b) (old_cache st)"

definition wf_storage :: "('ss, 'us, 'sk) env \<Rightarrow> 'us storage \<Rightarrow> bool" where
  "wf_storage E st \<longleftrightarrow>
     wf_core E st \<and> (\<forall>b \<in> set (chain E (db st)). stakes_agree E (genesis st) (db st) b)"

section \<open>Tables and chain\<close>

lemma consecutive_Nil [simp]: "consecutive []"
  by (simp add: consecutive_def)

lemma consecutive_snoc:
  "consecutive (t @ [(k, v)]) \<longleftrightarrow> consecutive t \<and> unat k = Suc (length t)"
  by (auto simp: consecutive_def)

lemma consecutive_nth: "consecutive t \<Longrightarrow> i < length t \<Longrightarrow> unat (fst (t ! i)) = Suc i"
proof -
  assume "consecutive t" "i < length t"
  then have "map (unat \<circ> fst) t ! i = [1..<Suc (length t)] ! i" by (simp only: consecutive_def)
  with \<open>i < length t\<close> show ?thesis by (simp del: upt_Suc)
qed

lemma consecutive_mem: "consecutive t \<Longrightarrow> k \<in> fst ` set t \<longleftrightarrow> 0 < unat k \<and> unat k \<le> length t"
proof -
  assume c: "consecutive t"
  have "unat k \<in> set (map (unat \<circ> fst) t) \<longleftrightarrow> 0 < unat k \<and> unat k \<le> length t"
    using c unfolding consecutive_def by (auto simp del: upt_Suc)
  moreover have "unat k \<in> set (map (unat \<circ> fst) t) \<longleftrightarrow> k \<in> fst ` set t"
    by (force simp: image_iff word_unat_eq_iff [symmetric])
  ultimately show ?thesis by simp
qed

lemma consecutive_distinct: "consecutive t \<Longrightarrow> distinct (map fst t)"
proof -
  assume "consecutive t"
  then have "distinct (map unat (map fst t))" by (simp add: consecutive_def del: upt_Suc)
  then show ?thesis by (simp only: distinct_map)
qed

lemma consecutive_bound: "consecutive t \<Longrightarrow> length t < 2 ^ 64"
  using consecutive_nth [of t "length t - 1"] unat_bound_64 [of "fst (t ! (length t - 1))"]
  by (cases t) simp_all

lemma consecutive_max:
  "consecutive t \<Longrightarrow> (case select_max t of None \<Rightarrow> 0 | Some h \<Rightarrow> h) = of_nat (length t)"
proof (induction t rule: rev_induct)
  case Nil
  then show ?case by (simp add: select_max_def)
next
  case (snoc r t)
  obtain k v where r: "r = (k, v)" by (cases r)
  from snoc.prems have c: "consecutive t" and k: "unat k = Suc (length t)"
    by (simp_all add: r consecutive_snoc)
  have n: "unat (of_nat (length t) :: u64) = length t"
    using consecutive_bound [OF c] by (simp add: unat_of_nat_small)
  have "k = of_nat (Suc (length t))" by (metis k of_nat_unat ucast_id)
  moreover have "of_nat (length t) \<le> k" using n k by (simp add: word_le_nat_alt)
  ultimately show ?case
    using snoc.IH [OF c] by (auto simp: r select_max_append max_def split: option.splits)
qed

lemma chain_length [simp]: "length (chain E tabs) = length (history tabs)"
  by (simp add: chain_def)

lemma wf_db_row:
  assumes "wf_db E tabs" "codec_ok E" "r \<in> set (history tabs)"
  obtains b where "r = (height (blk_header b), enc_header E (blk_header b), enc_block E b)"
    "dec_block E (snd (snd r)) = Some b" "sql_u64 E (fst r)"
proof -
  from assms obtain b where b: "r = (height (blk_header b), enc_header E (blk_header b), enc_block E b)"
    and s: "sql_u64 E (fst r)"
    by (auto simp: wf_db_def history_row_ok_def)
  show thesis by (rule that [OF b _ s]) (simp add: b codec_okD(1) [OF assms(2)])
qed

lemma chain_nth:
  assumes "wf_db E tabs" "codec_ok E" "i < length (history tabs)"
  shows "block_at E tabs (of_nat (Suc i)) = Some (chain E tabs ! i)"
    and "unat (height (blk_header (chain E tabs ! i))) = Suc i"
    and "sql_u64 E (of_nat (Suc i))"
proof -
  from assms(1) have c: "consecutive (history tabs)" by (simp add: wf_db_def)
  let ?r = "history tabs ! i"
  have r: "?r \<in> set (history tabs)" using assms(3) by simp
  obtain b where b: "?r = (height (blk_header b), enc_header E (blk_header b), enc_block E b)"
    and d: "dec_block E (snd (snd ?r)) = Some b" and s: "sql_u64 E (fst ?r)"
    using wf_db_row [OF assms(1,2) r] by blast
  have k: "fst ?r = of_nat (Suc i)"
    by (metis consecutive_nth [OF c assms(3)] of_nat_unat ucast_id)
  have sel: "select_row (history tabs) (of_nat (Suc i)) = Some (snd ?r)"
    unfolding select_row_def k [symmetric]
    using consecutive_distinct [OF c] r by (simp add: map_of_eq_Some_iff)
  have ch: "chain E tabs ! i = b"
    using d assms(3) by (simp add: chain_def split_beta)
  show "block_at E tabs (of_nat (Suc i)) = Some (chain E tabs ! i)"
    using d by (simp add: block_at_def sel ch split_beta del: of_nat_Suc)
  show "unat (height (blk_header (chain E tabs ! i))) = Suc i"
    using consecutive_nth [OF c assms(3)] by (simp add: ch b)
  show "sql_u64 E (of_nat (Suc i))" using s k by simp
qed

lemma block_at_iff:
  assumes "wf_db E tabs" "codec_ok E"
  shows "block_at E tabs h = Some b \<longleftrightarrow>
     0 < unat h \<and> unat h \<le> length (chain E tabs) \<and> b = chain E tabs ! (unat h - 1)"
proof (cases "0 < unat h \<and> unat h \<le> length (history tabs)")
  case True
  then have "unat h - 1 < length (history tabs)" and "of_nat (Suc (unat h - 1)) = h"
    by (linarith, simp)
  then show ?thesis
    using chain_nth(1) [OF assms, of "unat h - 1"] True by auto
next
  case False
  then have "h \<notin> fst ` set (history tabs)"
    using assms(1) by (simp add: wf_db_def consecutive_mem)
  then have "select_row (history tabs) h = None"
    by (simp add: select_row_def map_of_eq_None_iff)
  then show ?thesis using False by (auto simp: block_at_def)
qed

section \<open>Reading\<close>

lemma highest_height_eq:
  "consecutive (history (db st)) \<Longrightarrow> highest_height st = Ok (of_nat (length (history (db st))))"
  using consecutive_max [of "history (db st)"] by (simp add: highest_height_def autoretry_const)

lemma wf_coreD:
  assumes "wf_core E st"
  shows "env_ok E" "codec_ok E" "wf_db E (db st)" "consecutive (history (db st))"
    "coherent (\<lambda>h b. block_at E (db st) h = Some b) (old_cache st)"
  using assms by (auto simp: wf_core_def wf_db_def env_ok_def)

lemma wf_storageD:
  assumes "wf_storage E st"
  shows "wf_core E st"
    "b \<in> set (chain E (db st)) \<Longrightarrow> stakes_agree E (genesis st) (db st) b"
  using assms by (auto simp: wf_storage_def)

text \<open>SQLite's integers end the chain before the height can overflow.\<close>

lemma chain_bound:
  assumes "wf_core E st"
  shows "length (chain E (db st)) < 2 ^ 63"
proof (cases "history (db st) = []")
  case True
  then show ?thesis by (simp add: chain_def)
next
  case False
  let ?n = "length (history (db st))"
  have "sql_u64 E (of_nat (Suc (?n - 1)))"
    using chain_nth(3) [OF wf_coreD(3,2) [OF assms], of "?n - 1"] False by simp
  then have "unat (of_nat ?n :: u64) < 2 ^ 63"
    using env_okD(4) [OF wf_coreD(1) [OF assms]] False by simp
  then show ?thesis
    using consecutive_bound [OF wf_coreD(4) [OF assms]] by (simp add: unat_of_nat_small)
qed

text \<open>Every operation that only reads leaves all but the cache alone.\<close>

definition same_but_cache :: "'us storage \<Rightarrow> 'us storage \<Rightarrow> bool" where
  "same_but_cache st st' \<longleftrightarrow> (\<exists>c. st' = st\<lparr>old_cache := c\<rparr>)"

lemma same_but_cache_refl [simp]: "same_but_cache st st"
  unfolding same_but_cache_def by (rule exI [of _ "old_cache st"]) simp

lemma same_but_cache_put [simp]: "same_but_cache st (st\<lparr>old_cache := c\<rparr>)"
  by (auto simp: same_but_cache_def)

lemma same_but_cache_fields:
  assumes "same_but_cache st st'"
  shows "db st' = db st" "genesis st' = genesis st" "mempool st' = mempool st"
    "new_block_notify st' = new_block_notify st" "sqlite_path st' = sqlite_path st"
  using assms by (auto simp: same_but_cache_def)

lemma same_but_cache_trans:
  "same_but_cache a b \<Longrightarrow> same_but_cache b c \<Longrightarrow> same_but_cache a c"
  by (auto simp: same_but_cache_def)

lemma get_block_spec:
  assumes "wf_core E st"
  shows "fst (get_block E st h) =
      (if sql_u64 E h then Ok (block_at E (db st) h) else Panic Overflow)"
    and "same_but_cache st (snd (get_block E st h))"
    and "wf_core E (snd (get_block E st h))"
proof -
  note wf = wf_coreD [OF assms]
  have hit: "block_at E (db st) h = Some b \<and> sql_u64 E h" if "old_cache st h = Some b" for b
  proof -
    have b: "block_at E (db st) h = Some b" by (rule cache.hit_true [OF wf(5) that])
    then have "unat h - 1 < length (history (db st))" "of_nat (Suc (unat h - 1)) = h"
      using block_at_iff [OF wf(3,2)] by (auto simp: gr0_conv_Suc)
    with chain_nth(3) [OF wf(3,2)] b show ?thesis by metis
  qed
  have blob: "\<exists>b. dec_block E blob = Some b" if sel: "select_row (history (db st)) h = Some (x, blob)" for x blob
  proof -
    have "(h, x, blob) \<in> set (history (db st))"
      using sel unfolding select_row_def by (rule map_of_SomeD)
    from wf_db_row [OF wf(3,2) this] show ?thesis by auto
  qed
  have once: "get_block_once E st h =
      (if sql_u64 E h then Inr (block_at E (db st) h) else Inl SqlParam)"
    using hit blob by (auto simp: get_block_once_def block_at_def split: option.splits)
  then show eq: "fst (get_block E st h) =
      (if sql_u64 E h then Ok (block_at E (db st) h) else Panic Overflow)"
    by (simp add: get_block_def autoretry_const Let_def)
  show same: "same_but_cache st (snd (get_block E st h))"
    by (simp add: get_block_def Let_def split: option.split res.split)
  have "coherent (\<lambda>h b. block_at E (db st) h = Some b) (old_cache (snd (get_block E st h)))"
    using wf(5) once
    by (auto simp: get_block_def Let_def autoretry_const intro!: cache.put_coherent
        split: option.splits res.splits)
  then show "wf_core E (snd (get_block E st h))"
    using assms same_but_cache_fields [OF same] by (simp add: wf_core_def)
qed

lemma wf_storage_same:
  "same_but_cache st st' \<Longrightarrow> wf_core E st' \<Longrightarrow> wf_storage E st \<Longrightarrow> wf_storage E st'"
  using same_but_cache_fields [of st st'] by (simp add: wf_storage_def)

lemma get_state_spec:
  assumes "wf_core E st"
  shows "fst (get_state E st h) =
      (if \<not> sql_u64 E h then Panic Overflow
       else (case block_at E (db st) h of
           None \<Rightarrow> Ok None
         | Some b \<Rightarrow> (case stakeset_once E (genesis st) (stakes (db st)) h of
               Inl e \<Rightarrow> Panic Overflow
             | Inr sk \<Rightarrow> if stakes_root_hash E sk = stakes_hash (blk_header b)
                        then Ok (Some (from_block E b sk)) else Panic Assertion)))"
    and "same_but_cache st (snd (get_state E st h))"
    and "wf_core E (snd (get_state E st h))"
proof -
  note gb = get_block_spec [OF assms, of h]
  obtain r st' where g: "get_block E st h = (r, st')" by (cases "get_block E st h")
  then have st': "same_but_cache st st'" "wf_core E st'"
    and r: "r = (if sql_u64 E h then Ok (block_at E (db st) h) else Panic Overflow)"
    using gb by simp_all
  note f = same_but_cache_fields [OF st'(1)]
  show "fst (get_state E st h) =
      (if \<not> sql_u64 E h then Panic Overflow
       else (case block_at E (db st) h of
           None \<Rightarrow> Ok None
         | Some b \<Rightarrow> (case stakeset_once E (genesis st) (stakes (db st)) h of
               Inl e \<Rightarrow> Panic Overflow
             | Inr sk \<Rightarrow> if stakes_root_hash E sk = stakes_hash (blk_header b)
                        then Ok (Some (from_block E b sk)) else Panic Assertion)))"
    by (simp add: get_state_def g r f get_stakeset_def autoretry_const split: option.split sum.split)
  have "snd (get_state E st h) = st'"
    by (simp add: get_state_def g r f get_stakeset_def autoretry_const split: option.split sum.split)
  with st' show "same_but_cache st (snd (get_state E st h))" "wf_core E (snd (get_state E st h))"
    by simp_all
qed

text \<open>The state at the top of the chain, \<open>None\<close> where the stakes of the top block do not agree.\<close>

definition top_state :: "('ss, 'us, 'sk) env \<Rightarrow> genesis_config \<Rightarrow> db_tables \<Rightarrow> 'ss option" where
  "top_state E g tabs =
     (if chain E tabs = [] then Some (seal E (realize E g) None)
      else (let b = last (chain E tabs) in
        case stakeset_once E g (stakes tabs) (height (blk_header b)) of
          Inl e \<Rightarrow> None
        | Inr sk \<Rightarrow> if stakes_root_hash E sk = stakes_hash (blk_header b)
                   then Some (from_block E b sk) else None))"

lemma wf_core_top:
  assumes "wf_core E st" "chain E (db st) \<noteq> []"
  shows "block_at E (db st) (of_nat (length (chain E (db st)))) = Some (last (chain E (db st)))"
    and "height (blk_header (last (chain E (db st)))) = of_nat (length (chain E (db st)))"
    and "sql_u64 E (of_nat (length (chain E (db st))))"
    and "(0::u64) < of_nat (length (chain E (db st)))"
proof -
  note wf = wf_coreD [OF assms(1)]
  define i where "i = length (chain E (db st)) - 1"
  have "0 < length (chain E (db st))"
    using assms(2) by (simp only: length_greater_0_conv) simp
  then have i: "i < length (history (db st))" "Suc i = length (chain E (db st))"
    by (simp_all add: i_def)
  have l: "last (chain E (db st)) = chain E (db st) ! i"
    unfolding i_def by (rule last_conv_nth [OF assms(2)])
  note n = chain_nth [OF wf(3,2) i(1)]
  show "block_at E (db st) (of_nat (length (chain E (db st)))) = Some (last (chain E (db st)))"
    using n(1) unfolding i(2) l .
  show "height (blk_header (last (chain E (db st)))) = of_nat (length (chain E (db st)))"
    using n(2) unfolding i(2) l by (metis of_nat_unat ucast_id)
  show "sql_u64 E (of_nat (length (chain E (db st))))" using n(3) unfolding i(2) .
  have "unat (of_nat (length (chain E (db st))) :: u64) = length (chain E (db st))"
    using consecutive_bound [OF wf(4)] by (simp add: unat_of_nat_small)
  then show "(0::u64) < of_nat (length (chain E (db st)))"
    using i by (auto simp: word_less_nat_alt)
qed

lemma highest_state_spec:
  assumes "wf_core E st"
  shows "fst (highest_state E st) = Ok s \<longleftrightarrow> top_state E (genesis st) (db st) = Some s"
    and "\<exists>r. fst (highest_state E st) = r \<and> (r = Panic Overflow \<or> r = Panic Assertion \<or> (\<exists>s. r = Ok s))"
    and "same_but_cache st (snd (highest_state E st))"
    and "wf_core E (snd (highest_state E st))"
proof -
  note wf = wf_coreD [OF assms]
  let ?n = "of_nat (length (chain E (db st))) :: u64"
  obtain r st' where g: "get_state E st ?n = (r, st')" by (cases "get_state E st ?n")
  note gs = get_state_spec [OF assms, of ?n, unfolded g, simplified]
  have hs: "highest_state E st =
      (if chain E (db st) = [] then (Ok (seal E (realize E (genesis st)) None), st)
       else bind_st (r, st') (\<lambda>os st'. case os of
             Some s \<Rightarrow> (Ok s, st')
           | None \<Rightarrow> (Panic (Expect ''highest not available''), st')))"
    using wf_core_top(4) [OF assms] g highest_height_eq [OF wf(4)]
    by (cases "chain E (db st) = []") (simp_all add: highest_state_def chain_def)
  note top = wf_core_top [OF assms]
  show "fst (highest_state E st) = Ok s \<longleftrightarrow> top_state E (genesis st) (db st) = Some s"
    using top gs by (auto simp: hs top_state_def Let_def split: sum.split)
  show "\<exists>r. fst (highest_state E st) = r \<and> (r = Panic Overflow \<or> r = Panic Assertion \<or> (\<exists>s. r = Ok s))"
    using top gs by (auto simp: hs split: sum.split)
  show "same_but_cache st (snd (highest_state E st))"
    using top gs by (auto simp: hs split: sum.split)
  show "wf_core E (snd (highest_state E st))"
    using top gs assms by (auto simp: hs split: sum.split)
qed

section \<open>Saving a block\<close>

lemma save_stakes_rows:
  "save_stakes E hdr txns t = Inr t' \<Longrightarrow> \<exists>rows. t' = t @ rows \<and> (\<forall>r \<in> set rows. fst (snd r) = height hdr)"
proof (induction txns arbitrary: t)
  case Nil
  then show ?case by simp
next
  case (Cons txn txns)
  consider "save_stakes E hdr txns t = Inr t'"
    | doc t1 where "insert_row (hash_to_string E (hash_nosigs E txn)) (height hdr, enc_stake E doc) t = Some t1"
        "save_stakes E hdr txns t1 = Inr t'"
    using Cons.prems by (auto split: if_splits option.splits)
  then show ?case
  proof cases
    case 1
    then show ?thesis by (rule Cons.IH)
  next
    case 2
    from Cons.IH [OF 2(2)] 2(1) show ?thesis by (auto simp: insert_row_def split: if_splits)
  qed
qed

lemma stakeset_once_later:
  assumes "\<forall>r \<in> set rows. h < fst (snd r)"
  shows "stakeset_once E g (t @ rows) h = stakeset_once E g t h"
proof -
  have "filter (\<lambda>(_, hh, _). hh \<le> h) rows = []"
    using assms by (fastforce simp: filter_empty_conv)
  then show ?thesis by (simp add: stakeset_once_def)
qed

lemma save_block_Inr:
  assumes "save_block E blk cproof tabs = Inr tabs'"
  shows "history tabs' = history tabs @
      [(height (blk_header blk), enc_header E (blk_header blk), enc_block E blk)]"
    and "consensus_proofs tabs' = consensus_proofs tabs @
      [(height (blk_header blk), enc_proof E cproof)]"
    and "save_stakes E (blk_header blk) (transactions blk) (stakes tabs) = Inr (stakes tabs')"
    and "sql_u64 E (height (blk_header blk))"
  using assms
  by (auto simp: save_block_def insert_row_def Let_def split: if_splits option.splits sum.splits)

lemma chain_save:
  "codec_ok E \<Longrightarrow> save_block E blk cproof tabs = Inr tabs' \<Longrightarrow> chain E tabs' = chain E tabs @ [blk]"
  by (simp add: chain_def save_block_Inr(1) codec_okD(1))

lemma block_at_save:
  assumes "save_block E blk cproof tabs = Inr tabs'" "codec_ok E"
  shows "block_at E tabs' h = (if h = height (blk_header blk) then Some blk else block_at E tabs h)"
proof -
  have "insert_row (height (blk_header blk)) (enc_header E (blk_header blk), enc_block E blk)
      (history tabs) = Some (history tabs')"
    using assms(1) by (auto simp: save_block_def Let_def split: if_splits option.splits sum.splits)
  then show ?thesis
    by (simp add: block_at_def sql.ins_sel codec_okD(1) [OF assms(2)])
qed

lemma wf_db_save:
  assumes "wf_db E tabs" "save_block E blk cproof tabs = Inr tabs'"
    "unat (height (blk_header blk)) = Suc (length (chain E tabs))"
  shows "wf_db E tabs'"
  using assms(1,3) save_block_Inr [OF assms(2)]
  by (auto simp: wf_db_def consecutive_snoc history_row_ok_def)

lemma wf_core_save:
  assumes "wf_core E st" "save_block E blk cproof (db st) = Inr tabs"
    "unat (height (blk_header blk)) = Suc (length (chain E (db st)))"
  shows "wf_core E (st\<lparr>db := tabs\<rparr>)"
proof -
  note wf = wf_coreD [OF assms(1)]
  have "coherent (\<lambda>h b. block_at E tabs h = Some b) (old_cache st)"
    using wf(5)
  proof (rule coherent_mono)
    fix h b
    assume "block_at E (db st) h = Some b"
    with assms(3) have "h \<noteq> height (blk_header blk)"
      using block_at_iff [OF wf(3,2), of h b] by auto
    with \<open>block_at E (db st) h = Some b\<close> show "block_at E tabs h = Some b"
      by (simp add: block_at_save [OF assms(2) wf(2)])
  qed
  then show ?thesis
    using assms(1) wf_db_save [OF wf(3) assms(2,3)] by (simp add: wf_core_def)
qed

lemma stakes_agree_save:
  assumes "save_block E blk cproof tabs = Inr tabs'" "height (blk_header b) < height (blk_header blk)"
  shows "stakes_agree E g tabs' b \<longleftrightarrow> stakes_agree E g tabs b"
proof -
  obtain rows where rows: "stakes tabs' = stakes tabs @ rows"
    "\<forall>r \<in> set rows. fst (snd r) = height (blk_header blk)"
    using save_stakes_rows [OF save_block_Inr(3) [OF assms(1)]] by blast
  then show ?thesis
    using stakeset_once_later [of rows "height (blk_header b)" E g "stakes tabs"] assms(2)
    by (simp add: stakes_agree_def)
qed

lemma top_state_height:
  assumes "wf_core E st" "top_state E (genesis st) (db st) = Some s"
  shows "unat (height (header_of E s)) = length (chain E (db st))"
proof (cases "chain E (db st) = []")
  case True
  then have "s = seal E (realize E (genesis st)) None"
    using assms(2) by (simp add: top_state_def)
  with True show ?thesis
    using env_okD(2) [OF wf_coreD(1) [OF assms(1)]] by simp
next
  case False
  then obtain sk where "s = from_block E (last (chain E (db st))) sk"
    using assms(2) by (auto simp: top_state_def Let_def split: sum.splits if_splits)
  then have "height (header_of E s) = of_nat (length (chain E (db st)))"
    using wf_core_top(2) [OF assms(1) False] env_okD(3) [OF wf_coreD(1) [OF assms(1)]] by simp
  then show ?thesis
    using consecutive_bound [OF wf_coreD(4) [OF assms(1)]] by (simp add: unat_of_nat_small)
qed

lemma top_state_agrees:
  assumes "chain E tabs \<noteq> []" "top_state E g tabs = Some s"
  shows "stakes_agree E g tabs (last (chain E tabs))"
  using assms by (auto simp: top_state_def stakes_agree_def Let_def split: sum.splits if_splits)

section \<open>Applying a block\<close>

text \<open>The checks a block must pass, and what a success leaves behind.\<close>

definition admissible ::
  "('ss, 'us, 'sk) env \<Rightarrow> 'us storage \<Rightarrow> block \<Rightarrow> consensus_proof \<Rightarrow> 'ss \<Rightarrow> bool" where
  "admissible E st blk cproof tip \<longleftrightarrow>
     top_state E (genesis st) (db st) = Some tip \<and>
     unat (height (blk_header blk)) = Suc (length (chain E (db st))) \<and>
     check_consensus E (blk_header blk) cproof (stakes_iter E (raw_stakes E tip)) = Ok () \<and>
     (\<exists>s. stf_apply_block E tip blk = Inr s)"

lemma next_height:
  assumes "unat h = n"
  shows "checked_add h (1::u64) = Some e \<Longrightarrow> (k = e) = (unat k = Suc n)"
  using checked_add_Some_unat [of h 1 e] assms by (auto simp: word_unat_eq_iff)

lemma apply_block_Ok:
  assumes "wf_core E st" and ok: "apply_block E st blk cproof = (Ok (), st')"
  obtains tip tabs nxt st1 where
    "admissible E st blk cproof tip"
    "save_block E blk cproof (db st) = Inr tabs"
    "top_state E (genesis st) tabs = Some nxt"
    "same_but_cache (st\<lparr>db := tabs\<rparr>) st1" "wf_core E st1"
    "st' = st1\<lparr>mempool := rebase E nxt (mempool st), new_block_notify := Suc (new_block_notify st)\<rparr>"
proof -
  from ok obtain tip s0 where hs: "highest_state E st = (Ok tip, s0)"
    by (auto simp: apply_block_def bind_st_Ok)
  note spec = highest_state_spec [OF assms(1), unfolded hs, simplified]
  have tip: "top_state E (genesis st) (db st) = Some tip"
    by (rule highest_state_spec(1) [OF assms(1), THEN iffD1]) (simp add: hs)
  have s0: "same_but_cache st s0" "wf_core E s0" using spec by blast+
  note f0 = same_but_cache_fields [OF s0(1)]
  from ok obtain e ns tabs where
      e: "checked_add (height (header_of E tip)) 1 = Some e" "height (blk_header blk) = e"
    and cc: "check_consensus E (blk_header blk) cproof (stakes_iter E (raw_stakes E tip)) = Ok ()"
    and ns: "stf_apply_block E tip blk = Inr ns"
    and sv: "save_block E blk cproof (db st) = Inr tabs"
    and fin: "bind_st (highest_state E (s0\<lparr>db := tabs\<rparr>)) (\<lambda>next st.
        (Ok (), st\<lparr>mempool := rebase E next (mempool st),
                   new_block_notify := Suc (new_block_notify st)\<rparr>)) = (Ok (), st')"
    by (auto simp: apply_block_def hs bind_st_Ok f0 Let_def split: if_splits)
  have h: "unat (height (blk_header blk)) = Suc (length (chain E (db st)))"
    using next_height [OF top_state_height [OF assms(1) tip] e(1)] e(2) by blast
  from fin obtain nxt st1 where n: "highest_state E (s0\<lparr>db := tabs\<rparr>) = (Ok nxt, st1)"
    and st': "st' = st1\<lparr>mempool := rebase E nxt (mempool st1),
                   new_block_notify := Suc (new_block_notify st1)\<rparr>"
    by (auto simp: bind_st_Ok)
  have core: "wf_core E (s0\<lparr>db := tabs\<rparr>)"
    using wf_core_save [OF s0(2)] sv h f0 by simp
  note spec1 = highest_state_spec [OF core, unfolded n, simplified]
  have "top_state E (genesis (s0\<lparr>db := tabs\<rparr>)) (db (s0\<lparr>db := tabs\<rparr>)) = Some nxt"
    by (rule highest_state_spec(1) [OF core, THEN iffD1]) (simp add: n)
  then have nxt: "top_state E (genesis st) tabs = Some nxt"
    using f0 by simp
  have st1: "same_but_cache (s0\<lparr>db := tabs\<rparr>) st1" "wf_core E st1"
    using spec1 by blast+
  then have s1: "same_but_cache (st\<lparr>db := tabs\<rparr>) st1"
    using s0(1) by (auto simp: same_but_cache_def)
  note f1 = same_but_cache_fields [OF s1]
  show thesis
    using that [OF _ sv nxt s1 st1(2)] tip h cc ns st' f1 by (simp add: admissible_def)
qed

text \<open>An error leaves everything but the cache as it was.\<close>

lemma apply_block_Err:
  assumes "wf_core E st" and err: "apply_block E st blk cproof = (Err e, st')"
  shows "same_but_cache st st' \<and> wf_core E st'"
proof -
  obtain r s0 where hs: "highest_state E st = (r, s0)" by (cases "highest_state E st")
  note spec = highest_state_spec [OF assms(1), unfolded hs, simplified]
  have "st' = s0"
  proof (rule ccontr)
    assume ne: "st' \<noteq> s0"
    obtain tip where r: "r = Ok tip"
      using spec(2) err by (auto simp: apply_block_def hs)
    have tip: "top_state E (genesis st) (db st) = Some tip"
      by (rule highest_state_spec(1) [OF assms(1), THEN iffD1]) (simp add: hs r)
    note f0 = same_but_cache_fields [of st s0]
    from err ne obtain e1 tabs where
        e: "checked_add (height (header_of E tip)) 1 = Some e1" "height (blk_header blk) = e1"
      and sv: "save_block E blk cproof (db s0) = Inr tabs"
      and fin: "highest_state E (s0\<lparr>db := tabs\<rparr>) = (Err e, st')"
      by (auto simp: apply_block_def hs r bind_st_Err Let_def split: if_splits)
    have h: "unat (height (blk_header blk)) = Suc (length (chain E (db st)))"
      using next_height [OF top_state_height [OF assms(1) tip] e(1)] e(2) by blast
    have "wf_core E (s0\<lparr>db := tabs\<rparr>)"
      using wf_core_save [of E s0] sv h spec(3,4) f0 by simp
    from highest_state_spec(2) [OF this] fin show False by auto
  qed
  then show ?thesis using spec by blast
qed

text \<open>
  Whatever a call returns, a panic included, the tables are those of before or those of a
  complete save of the next block.
\<close>

lemma apply_block_tables:
  assumes "wf_core E st"
  shows "same_but_cache st (snd (apply_block E st blk cproof)) \<or>
    (\<exists>tabs. save_block E blk cproof (db st) = Inr tabs \<and>
       unat (height (blk_header blk)) = Suc (length (chain E (db st))) \<and>
       db (snd (apply_block E st blk cproof)) = tabs \<and>
       genesis (snd (apply_block E st blk cproof)) = genesis st)"
proof -
  obtain r s0 where hs: "highest_state E st = (r, s0)" by (cases "highest_state E st")
  note spec = highest_state_spec [OF assms, unfolded hs, simplified]
  note f0 = same_but_cache_fields [OF spec(3)]
  let ?st' = "snd (apply_block E st blk cproof)"
  show ?thesis
  proof (cases "?st' = s0")
    case True
    with spec(3) show ?thesis by simp
  next
    case False
    then obtain tip where r: "r = Ok tip" using spec(2) by (auto simp: apply_block_def hs)
    have tip: "top_state E (genesis st) (db st) = Some tip"
      by (rule highest_state_spec(1) [OF assms, THEN iffD1]) (simp add: hs r)
    from False obtain e tabs where
        e: "checked_add (height (header_of E tip)) 1 = Some e" "height (blk_header blk) = e"
      and sv: "save_block E blk cproof (db s0) = Inr tabs"
      and fin: "?st' = snd (bind_st (highest_state E (s0\<lparr>db := tabs\<rparr>)) (\<lambda>next st.
          (Ok (), st\<lparr>mempool := rebase E next (mempool st),
                     new_block_notify := Suc (new_block_notify st)\<rparr>)))"
      by (cases "checked_add (height (header_of E tip)) 1";
          cases "check_consensus E (blk_header blk) cproof (stakes_iter E (raw_stakes E tip))";
          cases "stf_apply_block E tip blk"; cases "save_block E blk cproof (db s0)")
        (auto simp: apply_block_def hs r Let_def split: if_splits)
    have h: "unat (height (blk_header blk)) = Suc (length (chain E (db st)))"
      using next_height [OF top_state_height [OF assms tip] e(1)] e(2) by blast
    have core: "wf_core E (s0\<lparr>db := tabs\<rparr>)"
      using wf_core_save [of E s0] sv h spec(3,4) f0 by simp
    obtain r1 s1 where n: "highest_state E (s0\<lparr>db := tabs\<rparr>) = (r1, s1)"
      by (cases "highest_state E (s0\<lparr>db := tabs\<rparr>)")
    note f1 = same_but_cache_fields [OF highest_state_spec(3) [OF core, unfolded n, simplified]]
    have "db ?st' = tabs \<and> genesis ?st' = genesis st"
      using f0 f1 by (cases r1) (simp_all add: fin n)
    with sv h f0 show ?thesis by auto
  qed
qed

lemma apply_block_wf_db:
  assumes "wf_core E st"
  shows "wf_db E (db (snd (apply_block E st blk cproof)))"
  using apply_block_tables [OF assms, of blk cproof]
proof
  assume "same_but_cache st (snd (apply_block E st blk cproof))"
  then show ?thesis
    using wf_coreD(3) [OF assms] by (simp add: same_but_cache_fields(1))
next
  assume "\<exists>tabs. save_block E blk cproof (db st) = Inr tabs \<and>
       unat (height (blk_header blk)) = Suc (length (chain E (db st))) \<and>
       db (snd (apply_block E st blk cproof)) = tabs \<and>
       genesis (snd (apply_block E st blk cproof)) = genesis st"
  then show ?thesis
    using wf_db_save [OF wf_coreD(3) [OF assms]] by auto
qed

lemma apply_block_extends:
  assumes "wf_storage E st" and "apply_block E st blk cproof = (Ok (), st')"
  shows "wf_storage E st' \<and> chain E (db st') = chain E (db st) @ [blk] \<and> genesis st' = genesis st"
proof -
  note wf = wf_storageD [OF assms(1)]
  obtain tip tabs nxt st1 where
    a: "admissible E st blk cproof tip" "save_block E blk cproof (db st) = Inr tabs"
       "top_state E (genesis st) tabs = Some nxt"
    and s1: "same_but_cache (st\<lparr>db := tabs\<rparr>) st1" "wf_core E st1"
    and st': "st' = st1\<lparr>mempool := rebase E nxt (mempool st),
        new_block_notify := Suc (new_block_notify st)\<rparr>"
    by (rule apply_block_Ok [OF wf(1) assms(2)])
  note f1 = same_but_cache_fields [OF s1(1)]
  have ch: "chain E tabs = chain E (db st) @ [blk]"
    using chain_save [OF wf_coreD(2) [OF wf(1)] a(2)] .
  have h: "unat (height (blk_header blk)) = Suc (length (chain E (db st)))"
    using a(1) by (simp add: admissible_def)
  have old: "stakes_agree E (genesis st) tabs b" if b: "b \<in> set (chain E (db st))" for b
  proof -
    from b obtain i where "i < length (history (db st))" "b = chain E (db st) ! i"
      by (auto simp: in_set_conv_nth)
    then have "height (blk_header b) < height (blk_header blk)"
      using chain_nth(2) [OF wf_coreD(3,2) [OF wf(1)], of i] h by (simp add: word_less_nat_alt)
    then show ?thesis using stakes_agree_save [OF a(2)] wf(2) [OF b] by blast
  qed
  have new: "stakes_agree E (genesis st) tabs blk"
    using top_state_agrees [of E tabs "genesis st" nxt] a(3) ch by simp
  show ?thesis
    using s1(2) f1 old new ch by (auto simp: st' wf_storage_def wf_core_def)
qed

lemma apply_block_keeps:
  assumes "wf_storage E st" and "apply_block E st blk cproof = (Err e, st')"
  shows "wf_storage E st' \<and> chain E (db st') = chain E (db st)"
  using apply_block_Err [OF wf_storageD(1) [OF assms(1)] assms(2)] wf_storage_same assms(1)
  by (auto simp: same_but_cache_fields(1))

text \<open>The storage is a block store.\<close>

interpretation store: block_store "wf_storage E" "\<lambda>st. chain E (db st)" highest_height "apply_block E"
  for E :: "('ss, 'us, 'sk) env"
proof unfold_locales
  fix s s' :: "'us storage" and b p e i
  show "wf_storage E s \<Longrightarrow> apply_block E s b p = (Ok (), s') \<Longrightarrow>
      wf_storage E s' \<and> chain E (db s') = chain E (db s) @ [b]"
    using apply_block_extends by blast
  show "wf_storage E s \<Longrightarrow> apply_block E s b p = (Err e, s') \<Longrightarrow>
      wf_storage E s' \<and> chain E (db s') = chain E (db s)"
    by (rule apply_block_keeps)
  show "wf_storage E s \<Longrightarrow> i < length (chain E (db s)) \<Longrightarrow>
      unat (height (blk_header (chain E (db s) ! i))) = Suc i"
    using chain_nth(2) [of E "db s" i] wf_coreD(2,3) [OF wf_storageD(1)] by auto
  show "wf_storage E s \<Longrightarrow> highest_height s = Ok (of_nat (length (chain E (db s)))) \<and>
      length (chain E (db s)) < 2 ^ 63"
    using highest_height_eq chain_bound wf_coreD(4) wf_storageD(1) by (metis chain_length)
qed

end
