(* ===== verification/Votes.thy ===== *)
theory Votes
  imports Storage Example_Env
begin

text \<open>
  What the vote count of \<open>Storage::apply_block\<close> computes, in numbers without bounds: the
  total is the stake active in the block's epoch, but \<open>present_votes\<close> is not the stake
  of the signers. Each valid signature adds the running total (storage.rs:288), so the
  count is the stake of the signer and of everyone counted before.
\<close>

section \<open>The intended and the actual tally\<close>

definition stake_docs :: "('ss, 'us, 'sk) env \<Rightarrow> (hashval \<times> bytes) list \<Rightarrow> stake_doc list option" where
  "stake_docs E docs = those (map (dec_stake E \<circ> snd) docs)"

definition total_stake :: "('ss, 'us, 'sk) env \<Rightarrow> header \<Rightarrow> stake_doc list \<Rightarrow> nat" where
  "total_stake E hdr ds = (\<Sum>d\<leftarrow>filter (active_stake E hdr) ds. unat (syms_staked d))"

text \<open>The stake whose owners signed: what a two-thirds rule is about.\<close>

definition signed_stake ::
  "('ss, 'us, 'sk) env \<Rightarrow> header \<Rightarrow> consensus_proof \<Rightarrow> stake_doc list \<Rightarrow> nat" where
  "signed_stake E hdr cproof ds =
     (\<Sum>d\<leftarrow>filter (\<lambda>d. active_stake E hdr d \<and> signed_by E hdr cproof d) ds. unat (syms_staked d))"

text \<open>What the loop adds up, \<open>acc\<close> being the total so far.\<close>

fun running_tally ::
  "('ss, 'us, 'sk) env \<Rightarrow> header \<Rightarrow> consensus_proof \<Rightarrow> stake_doc list \<Rightarrow> nat \<Rightarrow> nat" where
  "running_tally E hdr cproof [] acc = 0"
| "running_tally E hdr cproof (d # ds) acc =
     (if active_stake E hdr d then
        (if signed_by E hdr cproof d then acc + unat (syms_staked d) else 0)
        + running_tally E hdr cproof ds (acc + unat (syms_staked d))
      else running_tally E hdr cproof ds acc)"

lemma stake_docs_simps:
  "stake_docs E [] = Some []"
  "stake_docs E ((k, bs) # rest) =
     (case dec_stake E bs of None \<Rightarrow> None | Some d \<Rightarrow> map_option (Cons d) (stake_docs E rest))"
  by (simp_all add: stake_docs_def split: option.split)

lemma total_stake_simps [simp]:
  "total_stake E hdr [] = 0"
  "total_stake E hdr (d # ds) =
     (if active_stake E hdr d then unat (syms_staked d) else 0) + total_stake E hdr ds"
  by (simp_all add: total_stake_def)

lemma signed_stake_simps [simp]:
  "signed_stake E hdr cproof [] = 0"
  "signed_stake E hdr cproof (d # ds) =
     (if active_stake E hdr d \<and> signed_by E hdr cproof d then unat (syms_staked d) else 0)
     + signed_stake E hdr cproof ds"
  by (simp_all add: signed_stake_def)

lemma total_stake_append [simp]:
  "total_stake E hdr (ds @ es) = total_stake E hdr ds + total_stake E hdr es"
  by (induction ds) simp_all

lemma running_tally_append:
  "running_tally E hdr cproof (ds @ es) acc =
     running_tally E hdr cproof ds acc + running_tally E hdr cproof es (acc + total_stake E hdr ds)"
  by (induction ds arbitrary: acc) (simp_all add: add.assoc)

text \<open>The tally never misses a vote; without a signer it is 0.\<close>

lemma signed_le_tally: "signed_stake E hdr cproof ds \<le> running_tally E hdr cproof ds acc"
proof (induction ds arbitrary: acc)
  case Nil
  then show ?case by simp
next
  case (Cons d ds)
  show ?case
    using Cons.IH [of acc] Cons.IH [of "acc + unat (syms_staked d)"] by simp
qed

lemma tally_no_signer:
  "\<forall>d \<in> set ds. active_stake E hdr d \<longrightarrow> \<not> signed_by E hdr cproof d \<Longrightarrow>
     running_tally E hdr cproof ds acc = 0"
  by (induction ds arbitrary: acc) simp_all

section \<open>The loop computes them\<close>

text \<open>In bounds, the loop ends with both numbers; out of bounds it aborts.\<close>

lemma count_votes_eq:
  assumes "stake_docs E docs = Some ds"
    and "unat t + total_stake E hdr ds < 2 ^ 128"
    and "unat p + running_tally E hdr cproof ds (unat t) < 2 ^ 128"
  shows "\<exists>t' p'. count_votes E hdr cproof docs t p = Ok (t', p') \<and>
     unat t' = unat t + total_stake E hdr ds \<and>
     unat p' = unat p + running_tally E hdr cproof ds (unat t)"
  using assms
proof (induction docs arbitrary: ds t p)
  case Nil
  then show ?case by (simp add: stake_docs_simps)
next
  case (Cons x docs)
  obtain k bs where x: "x = (k, bs)" by (cases x)
  from Cons.prems(1) obtain d ds' where d: "dec_stake E bs = Some d"
    and ds': "stake_docs E docs = Some ds'" "ds = d # ds'"
    by (auto simp: x stake_docs_simps split: option.splits)
  show ?case
  proof (cases "active_stake E hdr d")
    case False
    with Cons.IH [OF ds'(1), of t p] Cons.prems show ?thesis
      by (simp add: x d ds'(2))
  next
    case active: True
    let ?t = "t + syms_staked d"
    have t: "checked_add t (syms_staked d) = Some ?t" "unat ?t = unat t + unat (syms_staked d)"
      using Cons.prems(2) active checked_add_Some_unat [of t "syms_staked d" ?t]
      by (simp_all add: ds'(2) checked_add_is_Some)
    show ?thesis
    proof (cases "signed_by E hdr cproof d")
      case False
      with Cons.IH [OF ds'(1), of ?t p] Cons.prems active t show ?thesis
        by (simp add: x d ds'(2) add.assoc)
    next
      case True
      have p: "checked_add p ?t = Some (p + ?t)" "unat (p + ?t) = unat p + unat ?t"
        using Cons.prems(3) active True t checked_add_Some_unat [of p ?t "p + ?t"]
        by (simp_all add: ds'(2) checked_add_is_Some)
      with Cons.IH [OF ds'(1), of ?t "p + ?t"] Cons.prems active True t show ?thesis
        by (simp add: x d ds'(2) add.assoc)
    qed
  qed
qed

lemma check_consensus_eq:
  assumes "stake_docs E docs = Some ds"
    and "2 * total_stake E hdr ds < 2 ^ 128" and "running_tally E hdr cproof ds 0 < 2 ^ 128"
  shows "check_consensus E hdr cproof docs = Ok () \<longleftrightarrow>
     2 * total_stake E hdr ds div 3 < running_tally E hdr cproof ds 0"
    and "check_consensus E hdr cproof docs = Ok () \<or>
      (\<exists>p t. check_consensus E hdr cproof docs = Err (InsufficientVotes (height hdr) p t) \<and>
         unat t = total_stake E hdr ds \<and> unat p = running_tally E hdr cproof ds 0)"
proof -
  obtain t p where tp: "count_votes E hdr cproof docs 0 0 = Ok (t, p)"
      "unat t = total_stake E hdr ds" "unat p = running_tally E hdr cproof ds 0"
    using count_votes_eq [OF assms(1), of 0 hdr 0 cproof] assms(2,3) by auto
  have m: "checked_mul 2 t = Some (2 * t)" "unat (2 * t) = 2 * unat t"
    using assms(2) tp(2) checked_mul_Some_unat [of 2 t "2 * t"] by (simp_all add: checked_mul_def)
  have c: "check_consensus E hdr cproof docs =
      (if p \<le> 2 * t div 3 then Err (InsufficientVotes (height hdr) p t) else Ok ())"
    by (simp add: check_consensus_def tp(1) m(1))
  then show "check_consensus E hdr cproof docs = Ok () \<longleftrightarrow>
     2 * total_stake E hdr ds div 3 < running_tally E hdr cproof ds 0"
    by (simp add: word_le_nat_alt unat_div m(2) tp not_le)
  from c tp show "check_consensus E hdr cproof docs = Ok () \<or>
      (\<exists>p t. check_consensus E hdr cproof docs = Err (InsufficientVotes (height hdr) p t) \<and>
         unat t = total_stake E hdr ds \<and> unat p = running_tally E hdr cproof ds 0)"
    by simp
qed

text \<open>Without bounds: whenever the loop ends well, it has computed both numbers.\<close>

lemma count_votes_Ok:
  "count_votes E hdr cproof docs t p = Ok (t', p') \<Longrightarrow>
     \<exists>ds. stake_docs E docs = Some ds \<and> unat t' = unat t + total_stake E hdr ds \<and>
       unat p' = unat p + running_tally E hdr cproof ds (unat t)"
proof (induction docs arbitrary: t p)
  case Nil
  then show ?case by (simp add: stake_docs_simps)
next
  case (Cons x docs)
  obtain k bs where x: "x = (k, bs)" by (cases x)
  from Cons.prems obtain d where d: "dec_stake E bs = Some d"
    by (auto simp: x split: option.splits)
  show ?case
  proof (cases "active_stake E hdr d")
    case False
    with Cons.prems have "count_votes E hdr cproof docs t p = Ok (t', p')" by (simp add: x d)
    from Cons.IH [OF this] False show ?thesis by (auto simp: x d stake_docs_simps)
  next
    case active: True
    with Cons.prems obtain u where u: "checked_add t (syms_staked d) = Some u"
      by (auto simp: x d bind_res_Ok)
    note nu = checked_add_Some_unat [OF u]
    show ?thesis
    proof (cases "signed_by E hdr cproof d")
      case False
      with Cons.prems active u have "count_votes E hdr cproof docs u p = Ok (t', p')"
        by (simp add: x d)
      from Cons.IH [OF this] False active nu show ?thesis
        by (auto simp: x d stake_docs_simps)
    next
      case True
      with Cons.prems active u obtain q where q: "checked_add p u = Some q"
        "count_votes E hdr cproof docs u q = Ok (t', p')"
        by (auto simp: x d bind_res_Ok)
      from Cons.IH [OF q(2)] True active nu checked_add_Some_unat [OF q(1)] show ?thesis
        by (auto simp: x d stake_docs_simps)
    qed
  qed
qed

lemma check_consensus_Ok:
  assumes "check_consensus E hdr cproof docs = Ok ()"
  obtains ds where "stake_docs E docs = Some ds"
    "2 * total_stake E hdr ds div 3 < running_tally E hdr cproof ds 0"
proof -
  from assms obtain t p m where c: "count_votes E hdr cproof docs 0 0 = Ok (t, p)"
    and m: "checked_mul 2 t = Some m" and le: "\<not> p \<le> m div 3"
    by (auto simp: check_consensus_def bind_res_Ok split: if_splits)
  from count_votes_Ok [OF c] obtain ds where "stake_docs E docs = Some ds"
    "unat t = total_stake E hdr ds" "unat p = running_tally E hdr cproof ds 0"
    by auto
  then show thesis
    using that [of ds] le checked_mul_Some_unat [OF m] by (simp add: word_le_nat_alt unat_div not_le)
qed

section \<open>What the check promises\<close>

text \<open>
  A block whose signers hold more than two thirds of the active stake passes the
  consensus check, as long as the tallies fit 128 bits.
\<close>

theorem supermajority_accepted:
  assumes "stake_docs E docs = Some ds"
    and "2 * total_stake E hdr ds < 2 ^ 128" and "running_tally E hdr cproof ds 0 < 2 ^ 128"
    and "2 * total_stake E hdr ds div 3 < signed_stake E hdr cproof ds"
  shows "check_consensus E hdr cproof docs = Ok ()"
  using check_consensus_eq(1) [OF assms(1-3)] signed_le_tally [of E hdr cproof ds 0] assms(4)
  by simp

text \<open>
  A block passes the consensus check only if some staker active in its epoch signed its
  header.
\<close>

theorem accepted_has_signer:
  assumes "check_consensus E hdr cproof docs = Ok ()"
  shows "\<exists>ds d. stake_docs E docs = Some ds \<and> d \<in> set ds \<and> active_stake E hdr d \<and>
     signed_by E hdr cproof d"
proof (rule check_consensus_Ok [OF assms])
  fix ds
  assume ds: "stake_docs E docs = Some ds"
    and "2 * total_stake E hdr ds div 3 < running_tally E hdr cproof ds 0"
  then have "running_tally E hdr cproof ds 0 \<noteq> 0" by simp
  then obtain d where "d \<in> set ds" "active_stake E hdr d" "signed_by E hdr cproof d"
    using tally_no_signer [of ds E hdr cproof 0] by auto
  with ds show ?thesis by auto
qed

text \<open>
  C10: The consensus check does not enforce a quorum: the staker that the stake map lists
  last passes it alone, however small its stake, because its signature counts the whole
  running total.
\<close>

theorem last_signer_suffices:
  assumes "stake_docs E docs = Some (ds @ [d])"
    and "active_stake E hdr d" and "signed_by E hdr cproof d"
    and "0 < total_stake E hdr (ds @ [d])"
    and "2 * total_stake E hdr (ds @ [d]) < 2 ^ 128"
    and "running_tally E hdr cproof (ds @ [d]) 0 < 2 ^ 128"
  shows "check_consensus E hdr cproof docs = Ok ()"
proof -
  have "total_stake E hdr (ds @ [d]) \<le> running_tally E hdr cproof (ds @ [d]) 0"
    using assms(2,3) by (simp add: running_tally_append)
  moreover have "2 * total_stake E hdr (ds @ [d]) div 3 < total_stake E hdr (ds @ [d])"
    using assms(4) by linarith
  ultimately show ?thesis
    using check_consensus_eq(1) [OF assms(1,5,6)] by simp
qed

section \<open>Instances\<close>

definition ex_stake :: "ed25519_pk \<Rightarrow> u128 \<Rightarrow> stake_doc" where
  "ex_stake pk v = \<lparr>pubkey = pk, e_start = 0, e_post_end = 100, syms_staked = v\<rparr>"

definition ex_header :: "u64 \<Rightarrow> hashval \<Rightarrow> header" where
  "ex_header h root = \<lparr>network = Custom02, height = h, fee_multiplier = 1, stakes_hash = root, hdr_rest = 0\<rparr>"

definition ex_proof :: "ed25519_pk list \<Rightarrow> u64 \<Rightarrow> consensus_proof" where
  "ex_proof pks h = map (\<lambda>pk. (pk, [ucast pk, ucast h])) pks"

definition ex_docs :: "stake_doc list \<Rightarrow> (hashval \<times> bytes) list" where
  "ex_docs ds = map (\<lambda>d. (pubkey d, en_stake d)) ds"

lemma ex_stake_docs [simp]: "stake_docs ex_env (ex_docs ds) = Some ds"
  by (induction ds) (simp_all add: ex_docs_def stake_docs_simps, simp_all add: ex_env_def)

lemmas ex_vote_defs = ex_stake_def ex_header_def ex_proof_def active_stake_def signed_by_def
  total_stake_def signed_stake_def

lemma supermajority_accepted_witness:
  "check_consensus ex_env (ex_header 1 2) (ex_proof [7] 1) (ex_docs [ex_stake 7 900, ex_stake 8 100])
   = Ok ()"
  by (rule supermajority_accepted [OF ex_stake_docs]) (simp_all add: ex_vote_defs ex_env_def)

lemma accepted_has_signer_witness:
  "\<exists>ds d. stake_docs ex_env (ex_docs [ex_stake 7 900, ex_stake 8 100]) = Some ds \<and> d \<in> set ds \<and>
     active_stake ex_env (ex_header 1 2) d \<and> signed_by ex_env (ex_header 1 2) (ex_proof [7] 1) d"
proof (rule accepted_has_signer)
  show "check_consensus ex_env (ex_header 1 2) (ex_proof [7] 1)
      (ex_docs [ex_stake 7 900, ex_stake 8 100]) = Ok ()"
    by (simp add: check_consensus_def ex_docs_def, simp add: ex_vote_defs ex_env_def checked_add_def checked_mul_def)
qed

text \<open>A thousandth of the stake is enough.\<close>

lemma last_signer_suffices_witness:
  "check_consensus ex_env (ex_header 1 2) (ex_proof [8] 1) (ex_docs ([ex_stake 7 999] @ [ex_stake 8 1]))
   = Ok ()"
  by (rule last_signer_suffices [OF ex_stake_docs]) (simp_all add: ex_vote_defs ex_env_def)

end
