(* ===== verification/Storage_Life.thy ===== *)
theory Storage_Life
  imports Storage_Inv Votes
begin

text \<open>
  The life of a storage: opened on an empty or an existing database, fed with blocks,
  read, restarted, killed in the middle of \<open>apply_block\<close>. \<open>storage_reach\<close> has one
  rule per event; the theorems say what holds in every state of every such life.
\<close>

section \<open>Opening\<close>

definition no_tables :: db_tables where
  "no_tables = \<lparr>history = [], consensus_proofs = [], stakes = []\<rparr>"

lemma wf_db_no_tables: "wf_db E no_tables"
  by (simp add: wf_db_def no_tables_def)

lemma wf_db_stakes: "wf_db E (tabs\<lparr>stakes := t\<rparr>) = wf_db E tabs"
  by (simp add: wf_db_def)

lemma storage_open_core: "env_ok E \<Longrightarrow> wf_db E tabs \<Longrightarrow> wf_core E (storage_open E p g tabs)"
  by (simp add: wf_core_def storage_open_def wf_db_stakes)

lemma storage_open_fresh: "env_ok E \<Longrightarrow> wf_storage E (storage_open E p g no_tables)"
  using storage_open_core [OF _ wf_db_no_tables, of E p g]
  by (simp add: wf_storage_def storage_open_def chain_def no_tables_def)

lemma storage_open_sel [simp]:
  "db (storage_open E p g tabs) = tabs\<lparr>stakes := init_stakes E g (stakes tabs)\<rparr>"
  "genesis (storage_open E p g tabs) = g"
  by (simp_all add: storage_open_def)

text \<open>The genesis stakes are in the table from the first start on; later starts add nothing.\<close>

definition has_genesis_stakes ::
  "('ss, 'us, 'sk) env \<Rightarrow> genesis_config \<Rightarrow> (string, u64 \<times> bytes) table \<Rightarrow> bool" where
  "has_genesis_stakes E g t \<longleftrightarrow> hash_to_string E ` fst ` set (gen_stakes g) \<subseteq> fst ` set t"

lemma insert_row_or_ignore_keys:
  "fst ` set (insert_row_or_ignore k v t) = insert k (fst ` set t)"
  by (auto simp: insert_row_or_ignore_def)

lemma init_stakes_keys:
  "fst ` set (init_stakes E g t) = hash_to_string E ` fst ` set (gen_stakes g) \<union> fst ` set t"
proof -
  have "fst ` set (fold (\<lambda>(h, d). insert_row_or_ignore (hash_to_string E h) (0, enc_stake E d)) xs t) =
      hash_to_string E ` fst ` set xs \<union> fst ` set t" for xs
    by (induction xs arbitrary: t) (simp_all add: split_beta insert_row_or_ignore_keys)
  then show ?thesis by (simp add: init_stakes_def)
qed

lemma has_genesis_stakes_init: "has_genesis_stakes E g (init_stakes E g t)"
  by (simp add: has_genesis_stakes_def init_stakes_keys)

lemma init_stakes_id: "has_genesis_stakes E g t \<Longrightarrow> init_stakes E g t = t"
proof -
  have "hash_to_string E ` fst ` set xs \<subseteq> fst ` set t \<Longrightarrow>
      fold (\<lambda>(h, d). insert_row_or_ignore (hash_to_string E h) (0, enc_stake E d)) xs t = t" for xs
    by (induction xs) (simp_all add: split_beta insert_row_or_ignore_def)
  then show "has_genesis_stakes E g t \<Longrightarrow> init_stakes E g t = t"
    by (simp add: has_genesis_stakes_def init_stakes_def)
qed

lemma has_genesis_stakes_more:
  "has_genesis_stakes E g t \<Longrightarrow> fst ` set t \<subseteq> fst ` set t' \<Longrightarrow> has_genesis_stakes E g t'"
  unfolding has_genesis_stakes_def by (rule subset_trans)

lemma save_block_genesis_stakes:
  "save_block E blk cproof tabs = Inr tabs' \<Longrightarrow> has_genesis_stakes E g (stakes tabs) \<Longrightarrow>
     has_genesis_stakes E g (stakes tabs')"
  by (drule save_block_Inr(3), drule save_stakes_rows, erule has_genesis_stakes_more) auto

section \<open>Every life of a storage\<close>

text \<open>
  \<open>storage_reach E g c st\<close>: \<open>st\<close> is a state of a storage with genesis \<open>g\<close>; \<open>c\<close> is
  true as long as no call of \<open>apply_block\<close> has aborted the process.
\<close>

inductive storage_reach ::
  "('ss, 'us, 'sk) env \<Rightarrow> genesis_config \<Rightarrow> bool \<Rightarrow> 'us storage \<Rightarrow> bool" for E g where
  fresh: "storage_reach E g True (storage_open E p g no_tables)"
| applied: "storage_reach E g c st \<Longrightarrow> apply_block E st blk cproof = (r, st') \<Longrightarrow>
    r = Ok () \<or> (\<exists>e. r = Err e) \<Longrightarrow> storage_reach E g c st'"
| aborted: "storage_reach E g c st \<Longrightarrow> apply_block E st blk cproof = (Panic x, st') \<Longrightarrow>
    storage_reach E g False (storage_open E p g (db st'))"
| restarted: "storage_reach E g c st \<Longrightarrow> storage_reach E g c (storage_open E p g (db st))"
| read_block: "storage_reach E g c st \<Longrightarrow> storage_reach E g c (snd (get_block E st h))"
| evicted: "storage_reach E g c st \<Longrightarrow> m \<subseteq>\<^sub>m old_cache st \<Longrightarrow>
    storage_reach E g c (st\<lparr>old_cache := m\<rparr>)"
| pool: "storage_reach E g c st \<Longrightarrow> storage_reach E g c (st\<lparr>mempool := mp\<rparr>)"

lemma wf_core_evict:
  "wf_core E st \<Longrightarrow> m \<subseteq>\<^sub>m old_cache st \<Longrightarrow> wf_core E (st\<lparr>old_cache := m\<rparr>)"
  using cache.evict_coherent [of _ "old_cache st" m] by (simp add: wf_core_def)

lemma apply_block_genesis:
  assumes "wf_core E st" "apply_block E st blk cproof = (r, st')" "genesis st = g"
    "has_genesis_stakes E g (stakes (db st))"
  shows "genesis st' = g" "has_genesis_stakes E g (stakes (db st'))"
  using apply_block_tables [OF assms(1), of blk cproof] assms(2-4) save_block_genesis_stakes
  by (auto simp: same_but_cache_fields)

lemma apply_block_core:
  assumes "wf_core E st" "apply_block E st blk cproof = (r, st')" "r = Ok () \<or> (\<exists>e. r = Err e)"
  shows "wf_core E st'"
proof -
  consider "apply_block E st blk cproof = (Ok (), st')" | e where "apply_block E st blk cproof = (Err e, st')"
    using assms(2,3) by auto
  then show ?thesis
  proof cases
    case 1
    then show ?thesis by (rule apply_block_Ok [OF assms(1)]) (simp add: wf_core_def)
  next
    case 2
    then show ?thesis using apply_block_Err [OF assms(1)] by blast
  qed
qed

lemma reach_core:
  assumes "env_ok E" and "storage_reach E g c st"
  shows "wf_core E st \<and> genesis st = g \<and> has_genesis_stakes E g (stakes (db st))"
  using assms(2)
proof (induction rule: storage_reach.induct)
  case (fresh p)
  show ?case
    by (simp add: storage_open_core [OF assms(1) wf_db_no_tables] has_genesis_stakes_init)
next
  case (applied c st blk cproof r st')
  then show ?case using apply_block_core apply_block_genesis by blast
next
  case (aborted c st blk cproof x st' p)
  then have "wf_db E (db st')"
    using apply_block_wf_db [of E st blk cproof] by simp
  then show ?case
    by (simp add: storage_open_core [OF assms(1)] has_genesis_stakes_init)
next
  case (restarted c st p)
  then have "wf_db E (db st)" by (blast dest: wf_coreD(3))
  then show ?case
    by (simp add: storage_open_core [OF assms(1)] has_genesis_stakes_init)
next
  case (read_block c st h)
  then show ?case
    using get_block_spec(2,3) [of E st h] by (simp add: same_but_cache_fields)
next
  case (evicted c st m)
  then show ?case by (simp add: wf_core_evict)
next
  case (pool c st mp)
  then show ?case by (simp add: wf_core_def)
qed

lemma reach_storage:
  assumes "env_ok E" and "storage_reach E g c st"
  shows "c \<longrightarrow> wf_storage E st"
  using assms(2)
proof (induction rule: storage_reach.induct)
  case (fresh p)
  show ?case by (simp add: storage_open_fresh [OF assms(1)])
next
  case (applied c st blk cproof r st')
  then show ?case using apply_block_extends apply_block_keeps by blast
next
  case (aborted c st blk cproof x st' p)
  then show ?case by simp
next
  case (restarted c st p)
  note core = reach_core [OF assms(1) restarted.hyps]
  then have "db (storage_open E p g (db st)) = db st"
    by (simp add: init_stakes_id)
  moreover have "wf_core E (storage_open E p g (db st))"
    using core storage_open_core [OF assms(1)] wf_coreD(3) by blast
  ultimately show ?case
    using restarted.IH core unfolding wf_storage_def by simp
next
  case (read_block c st h)
  then show ?case
    using get_block_spec(2,3) [of E st h] wf_storage_same wf_storageD(1) by blast
next
  case (evicted c st m)
  then show ?case by (simp add: wf_storage_def wf_core_evict)
next
  case (pool c st mp)
  then show ?case by (simp add: wf_storage_def wf_core_def)
qed

section \<open>Running a call forwards\<close>

lemma apply_block_eval:
  assumes "wf_core E st" "admissible E st blk cproof tip" "save_block E blk cproof (db st) = Inr tabs"
  obtains s0 where "same_but_cache st s0" "wf_core E (s0\<lparr>db := tabs\<rparr>)"
    "apply_block E st blk cproof = bind_st (highest_state E (s0\<lparr>db := tabs\<rparr>)) (\<lambda>next st.
        (Ok (), st\<lparr>mempool := rebase E next (mempool st),
                   new_block_notify := Suc (new_block_notify st)\<rparr>))"
proof -
  obtain r s0 where hs: "highest_state E st = (r, s0)" by (cases "highest_state E st")
  note spec = highest_state_spec [OF assms(1), unfolded hs, simplified]
  note f0 = same_but_cache_fields [OF spec(3)]
  have a: "top_state E (genesis st) (db st) = Some tip"
      "unat (height (blk_header blk)) = Suc (length (chain E (db st)))"
      "check_consensus E (blk_header blk) cproof (stakes_iter E (raw_stakes E tip)) = Ok ()"
    and "\<exists>s. stf_apply_block E tip blk = Inr s"
    using assms(2) by (auto simp: admissible_def)
  then obtain s where s: "stf_apply_block E tip blk = Inr s" by blast
  have r: "r = Ok tip"
    using highest_state_spec(1) [OF assms(1), THEN iffD2, OF a(1)] by (simp add: hs)
  have tip: "unat (height (header_of E tip)) = length (chain E (db st))"
    by (rule top_state_height [OF assms(1) a(1)])
  then obtain e where e: "checked_add (height (header_of E tip)) 1 = Some e"
    using a(2) unat_bound_64 [of "height (blk_header blk)"] by (simp add: checked_add_def)
  then have "height (blk_header blk) = e"
    using next_height [OF tip e] a(2) by blast
  then have "apply_block E st blk cproof = bind_st (highest_state E (s0\<lparr>db := tabs\<rparr>)) (\<lambda>next st.
        (Ok (), st\<lparr>mempool := rebase E next (mempool st),
                   new_block_notify := Suc (new_block_notify st)\<rparr>))"
    using a(3) s assms(3) f0 by (simp add: apply_block_def hs r e Let_def)
  moreover have "wf_core E (s0\<lparr>db := tabs\<rparr>)"
    using wf_core_save [of E s0] assms(3) a(2) spec(3,4) f0 by simp
  ultimately show thesis using that spec(3) by blast
qed

lemma top_state_iff:
  assumes "chain E tabs = bs @ [b]"
  shows "(\<exists>s. top_state E g tabs = Some s) \<longleftrightarrow> stakes_agree E g tabs b"
  using assms by (auto simp: top_state_def stakes_agree_def Let_def split: sum.splits)

lemma top_state_header:
  assumes "env_ok E" "chain E tabs = bs @ [b]" "top_state E g tabs = Some s"
  shows "header_of E s = blk_header b"
  using assms env_okD(3) [OF assms(1)]
  by (auto simp: top_state_def Let_def split: sum.splits if_splits)

lemma apply_block_commits:
  assumes "wf_storage E st" "admissible E st blk cproof tip"
    "save_block E blk cproof (db st) = Inr tabs" "stakes_agree E (genesis st) tabs blk"
  shows "\<exists>st'. apply_block E st blk cproof = (Ok (), st') \<and> db st' = tabs"
proof -
  note core = wf_storageD(1) [OF assms(1)]
  obtain s0 where s0: "same_but_cache st s0" "wf_core E (s0\<lparr>db := tabs\<rparr>)"
    and eq: "apply_block E st blk cproof = bind_st (highest_state E (s0\<lparr>db := tabs\<rparr>)) (\<lambda>next st.
        (Ok (), st\<lparr>mempool := rebase E next (mempool st),
                   new_block_notify := Suc (new_block_notify st)\<rparr>))"
    by (rule apply_block_eval [OF core assms(2,3)])
  obtain s where "top_state E (genesis st) tabs = Some s"
    using top_state_iff [OF chain_save [OF wf_coreD(2) [OF core] assms(3)]] assms(4) by blast
  then have "fst (highest_state E (s0\<lparr>db := tabs\<rparr>)) = Ok s"
    by (intro highest_state_spec(1) [OF s0(2), THEN iffD2]) (simp add: same_but_cache_fields [OF s0(1)])
  then show ?thesis
    using same_but_cache_fields(1) [OF highest_state_spec(3) [OF s0(2)]]
    by (cases "highest_state E (s0\<lparr>db := tabs\<rparr>)") (simp add: eq)
qed

end
