(* ===== verification/Chain_Growth.thy ===== *)
theory Chain_Growth
  imports Storage_Life
begin

text \<open>
  The consensus proofs beside the chain, and \<open>later\<close>: a storage that grew out of another
  one by appending. What the node remembers about old heights stays true in every later
  storage.
\<close>

section \<open>The stored proofs\<close>

definition proofs :: "('ss, 'us, 'sk) env \<Rightarrow> db_tables \<Rightarrow> consensus_proof list" where
  "proofs E tabs = map (\<lambda>(_, blob). the (dec_proof E blob)) (consensus_proofs tabs)"

lemma proofs_length: "wf_db E tabs \<Longrightarrow> length (proofs E tabs) = length (chain E tabs)"
  using map_eq_imp_length_eq unfolding wf_db_def proofs_def by fastforce

lemma proofs_save:
  "codec_ok E \<Longrightarrow> save_block E blk cproof tabs = Inr tabs' \<Longrightarrow> proofs E tabs' = proofs E tabs @ [cproof]"
  by (simp add: proofs_def save_block_Inr(2) codec_okD(2))

lemma consensus_at_iff:
  assumes "wf_db E tabs" "codec_ok E"
  shows "consensus_at E tabs h = Some p \<longleftrightarrow>
     0 < unat h \<and> unat h \<le> length (chain E tabs) \<and> p = proofs E tabs ! (unat h - 1)"
proof -
  have c: "consecutive (history tabs)" and keys: "map fst (consensus_proofs tabs) = map fst (history tabs)"
    using assms(1) by (simp_all add: wf_db_def)
  have c': "consecutive (consensus_proofs tabs)"
    using c keys unfolding consecutive_def by (metis length_map map_map)
  have len: "length (consensus_proofs tabs) = length (history tabs)"
    using keys map_eq_imp_length_eq by fastforce
  show ?thesis
  proof (cases "0 < unat h \<and> unat h \<le> length (history tabs)")
    case True
    let ?r = "consensus_proofs tabs ! (unat h - 1)"
    have i: "unat h - 1 < length (consensus_proofs tabs)" using True len by linarith
    have r: "?r \<in> set (consensus_proofs tabs)" using i by simp
    have k: "fst ?r = h"
      using consecutive_nth [OF c' i] True by (intro word_unat_eq_iff [THEN iffD2]) simp
    then have "select_row (consensus_proofs tabs) h = Some (snd ?r)"
      unfolding select_row_def using r k
      by (intro map_of_is_SomeI [OF consecutive_distinct [OF c']]) (metis prod.collapse)
    moreover obtain q where "snd ?r = enc_proof E q" using assms(1) r by (auto simp: wf_db_def)
    moreover have "proofs E tabs ! (unat h - 1) = the (dec_proof E (snd ?r))"
      using i by (simp add: proofs_def split_beta)
    ultimately show ?thesis
      using True by (auto simp: consensus_at_def codec_okD(2) [OF assms(2)])
  next
    case False
    then have "h \<notin> fst ` set (consensus_proofs tabs)"
      using consecutive_mem [OF c', of h] len by auto
    then have "select_row (consensus_proofs tabs) h = None"
      by (simp add: select_row_def map_of_eq_None_iff)
    then show ?thesis using False by (auto simp: consensus_at_def)
  qed
qed

lemma get_consensus_spec:
  assumes "wf_core E st"
  shows "get_consensus E st h =
     (if sql_u64 E h then Ok (consensus_at E (db st) h) else Panic Overflow)"
proof -
  note wf = wf_coreD [OF assms]
  have "\<exists>p. dec_proof E blob = Some p" if sel: "select_row (consensus_proofs (db st)) h = Some blob" for blob
  proof -
    have "(h, blob) \<in> set (consensus_proofs (db st))"
      using sel unfolding select_row_def by (rule map_of_SomeD)
    then obtain q where "blob = enc_proof E q" using wf(3) by (auto simp: wf_db_def)
    then show ?thesis by (simp add: codec_okD(2) [OF wf(2)])
  qed
  then show ?thesis
    by (auto simp: get_consensus_def consensus_at_def autoretry_const split: option.split)
qed

section \<open>States of the past\<close>

lemma top_state_total:
  assumes "wf_storage E st"
  shows "\<exists>tip. top_state E (genesis st) (db st) = Some tip"
proof (cases "chain E (db st) = []")
  case True
  then show ?thesis by (simp add: top_state_def)
next
  case False
  then have "chain E (db st) = butlast (chain E (db st)) @ [last (chain E (db st))]" by simp
  from top_state_iff [OF this] wf_storageD(2) [OF assms] False show ?thesis by simp
qed

lemma get_state_total:
  assumes "wf_storage E st" "sql_u64 E h"
  shows "fst (get_state E st h) = Ok None \<and> block_at E (db st) h = None \<or>
    (\<exists>b s. fst (get_state E st h) = Ok (Some s) \<and> block_at E (db st) h = Some b \<and> header_of E s = blk_header b)"
proof (cases "block_at E (db st) h")
  case None
  then show ?thesis using get_state_spec(1) [OF wf_storageD(1) [OF assms(1)], of h] assms(2) by simp
next
  case (Some b)
  note core = wf_storageD(1) [OF assms(1)]
  have i: "0 < unat h" "unat h \<le> length (chain E (db st))" "b = chain E (db st) ! (unat h - 1)"
    using Some block_at_iff [OF wf_coreD(3,2) [OF core]] by blast+
  then have "unat h - 1 < length (chain E (db st))" by linarith
  then have mem: "b \<in> set (chain E (db st))" and "unat (height (blk_header b)) = Suc (unat h - 1)"
    using i(3) store.numbered [OF assms(1)] nth_mem by blast+
  then have "height (blk_header b) = h" using i(1) by (intro word_unat_eq_iff [THEN iffD2]) simp
  with wf_storageD(2) [OF assms(1) mem] obtain sk where
    "stakeset_once E (genesis st) (stakes (db st)) h = Inr sk" "stakes_root_hash E sk = stakes_hash (blk_header b)"
    by (auto simp: stakes_agree_def)
  then show ?thesis
    using get_state_spec(1) [OF core, of h] assms(2) Some env_okD(3) [OF wf_coreD(1) [OF core]] by auto
qed

lemma get_state_stable:
  assumes "wf_storage E st" and "apply_block E st blk cproof = (Ok (), st')"
    and "unat h \<le> length (chain E (db st))"
  shows "fst (get_state E st' h) = fst (get_state E st h)"
proof -
  note core = wf_storageD(1) [OF assms(1)]
  note ext = apply_block_extends [OF assms(1,2)]
  obtain tip tabs nxt st1 where
    a: "admissible E st blk cproof tip" "save_block E blk cproof (db st) = Inr tabs"
    and s1: "same_but_cache (st\<lparr>db := tabs\<rparr>) st1"
    and st': "st' = st1\<lparr>mempool := rebase E nxt (mempool st),
        new_block_notify := Suc (new_block_notify st)\<rparr>"
    by (rule apply_block_Ok [OF core assms(2)])
  have db: "db st' = tabs" using same_but_cache_fields(1) [OF s1] by (simp add: st')
  have lt: "h < height (blk_header blk)"
    using a(1) assms(3) by (simp add: admissible_def word_less_nat_alt)
  obtain rows where "stakes tabs = stakes (db st) @ rows"
    "\<forall>r \<in> set rows. fst (snd r) = height (blk_header blk)"
    using save_stakes_rows [OF save_block_Inr(3) [OF a(2)]] by blast
  then have sk: "stakeset_once E (genesis st) (stakes tabs) h =
      stakeset_once E (genesis st) (stakes (db st)) h"
    using lt stakeset_once_later [of rows h E "genesis st" "stakes (db st)"] by simp
  have bk: "block_at E tabs h = block_at E (db st) h"
    using lt block_at_save [OF a(2) wf_coreD(2) [OF core]] by auto
  have g: "genesis st' = genesis st" and core': "wf_core E st'"
    using ext wf_storageD(1) by blast+
  show ?thesis
    by (simp only: get_state_spec(1) [OF core'] get_state_spec(1) [OF core] db sk g bk)
qed

section \<open>Growing\<close>

definition later :: "('ss, 'us, 'sk) env \<Rightarrow> 'us storage \<Rightarrow> 'us storage \<Rightarrow> bool" where
  "later E st st' \<longleftrightarrow>
     wf_storage E st' \<and> genesis st' = genesis st \<and>
     (\<exists>bs ps. chain E (db st') = chain E (db st) @ bs \<and> proofs E (db st') = proofs E (db st) @ ps) \<and>
     (\<forall>h. unat h \<le> length (chain E (db st)) \<longrightarrow> fst (get_state E st' h) = fst (get_state E st h))"

lemma later_refl: "wf_storage E st \<Longrightarrow> later E st st"
  by (simp add: later_def)

lemma laterD:
  assumes "later E a b"
  shows "wf_storage E b" "genesis b = genesis a"
    "\<exists>bs. chain E (db b) = chain E (db a) @ bs" "\<exists>ps. proofs E (db b) = proofs E (db a) @ ps"
    "unat h \<le> length (chain E (db a)) \<Longrightarrow> fst (get_state E b h) = fst (get_state E a h)"
  using assms unfolding later_def by blast+

lemma laterI:
  assumes "wf_storage E b" "genesis b = genesis a"
    "\<exists>bs. chain E (db b) = chain E (db a) @ bs" "\<exists>ps. proofs E (db b) = proofs E (db a) @ ps"
    "\<And>h. unat h \<le> length (chain E (db a)) \<Longrightarrow> fst (get_state E b h) = fst (get_state E a h)"
  shows "later E a b"
  using assms unfolding later_def by blast

lemma later_trans:
  assumes ab: "later E a b" and bc: "later E b c"
  shows "later E a c"
proof (rule laterI)
  show "\<exists>bs. chain E (db c) = chain E (db a) @ bs"
    using laterD(3) [OF ab] laterD(3) [OF bc] by (metis append.assoc)
  show "\<exists>ps. proofs E (db c) = proofs E (db a) @ ps"
    using laterD(4) [OF ab] laterD(4) [OF bc] by (metis append.assoc)
  fix h :: u64
  assume h: "unat h \<le> length (chain E (db a))"
  moreover have "length (chain E (db a)) \<le> length (chain E (db b))"
    using laterD(3) [OF ab] by (metis le_add1 length_append)
  ultimately have "unat h \<le> length (chain E (db b))" by (rule le_trans)
  then show "fst (get_state E c h) = fst (get_state E a h)"
    using laterD(5) [OF ab h] laterD(5) [OF bc] by simp
qed (use laterD(1,2) [OF ab] laterD(1,2) [OF bc] in simp_all)

lemma later_same:
  assumes "wf_storage E st" "same_but_cache st st'" "wf_core E st'"
  shows "later E st st'"
proof -
  note f = same_but_cache_fields [OF assms(2)]
  have "fst (get_state E st' h) = fst (get_state E st h)" for h
    by (simp only: get_state_spec(1) [OF assms(3)] get_state_spec(1) [OF wf_storageD(1) [OF assms(1)]] f)
  then show ?thesis
    by (intro laterI) (simp_all only: wf_storage_same [OF assms(2,3,1)] f, simp_all)
qed

lemma apply_block_Ok_tables:
  assumes "wf_core E st" "apply_block E st blk cproof = (Ok (), st')"
  shows "save_block E blk cproof (db st) = Inr (db st')"
  by (rule apply_block_Ok [OF assms]) (simp add: same_but_cache_fields(1))

lemma apply_block_later:
  assumes "wf_storage E st" "apply_block E st blk cproof = (Ok (), st')"
  shows "later E st st'" "proofs E (db st') = proofs E (db st) @ [cproof]"
proof -
  note core = wf_storageD(1) [OF assms(1)]
  note ext = apply_block_extends [OF assms]
  show p: "proofs E (db st') = proofs E (db st) @ [cproof]"
    by (rule proofs_save [OF wf_coreD(2) [OF core] apply_block_Ok_tables [OF core assms(2)]])
  show "later E st st'"
    by (rule laterI) (use ext p get_state_stable [OF assms] in blast)+
qed

lemma apply_all_proofs:
  "wf_storage E st \<Longrightarrow> apply_all (apply_block E) bps st = (Ok (), st') \<Longrightarrow>
     proofs E (db st') = proofs E (db st) @ map snd bps"
proof (induction bps arbitrary: st)
  case Nil
  then show ?case by simp
next
  case (Cons x bps)
  obtain b p where x: "x = (b, p)" by (cases x)
  obtain s1 where s1: "apply_block E st b p = (Ok (), s1)" "apply_all (apply_block E) bps s1 = (Ok (), st')"
    using Cons.prems(2) by (auto simp: x bind_st_Ok)
  show ?case
    using Cons.IH [OF _ s1(2)] apply_block_extends [OF Cons.prems(1) s1(1)]
      apply_block_later(2) [OF Cons.prems(1) s1(1)] by (simp add: x)
qed

end
