(* ===== verification/Example_Run.thy ===== *)
theory Example_Run
  imports Chain_Growth
begin

text \<open>
  A concrete chain on the example instance, for the witnesses: two stakers, a storage
  opened on an empty database, two blocks signed by the larger staker. The second block
  carries a stake transaction.
\<close>

definition ex_genesis :: genesis_config where
  "ex_genesis = \<lparr>gen_network = Custom02,
     init_coindata = \<lparr>covhash = 0, coin_value = 0, coin_denom = Mel, additional_data = []\<rparr>,
     gen_stakes = [(1, ex_stake 7 900), (2, ex_stake 8 100)],
     init_fee_pool = 0, init_fee_multiplier = 1\<rparr>"

definition ex_tx :: transaction where
  "ex_tx = \<lparr>kind = OtherKind 0, data = [1, 2, 3], outputs = [], tx_rest = [9, 9]\<rparr>"

definition ex_block :: "u64 \<Rightarrow> hashval \<Rightarrow> transaction list \<Rightarrow> block" where
  "ex_block h root txs = \<lparr>blk_header = ex_header h root, transactions = txs, blk_proposer_action = None\<rparr>"

definition ex_b1 :: block where "ex_b1 = ex_block 1 2 [ex_tx]"
definition ex_b2 :: block where "ex_b2 = ex_block 2 2 []"

definition ex_st0 :: "ex_state storage" where
  "ex_st0 = storage_open ex_env ''/db'' ex_genesis no_tables"

definition ex_st1 :: "ex_state storage" where
  "ex_st1 = snd (apply_block ex_env ex_st0 ex_b1 (ex_proof [7] 1))"

lemma ex_env_sel [simp]:
  "epoch ex_env = (\<lambda>h. h div 200000)"
  "header_hash ex_env = (\<lambda>h. ucast (height h))"
  "hash_nosigs ex_env = (\<lambda>t. of_nat (length (data t)))"
  "dec_block ex_env = whole de_block" "enc_block ex_env = en_block"
  "dec_stake ex_env = whole de_stake" "enc_stake ex_env = en_stake"
  "dec_proof ex_env = whole (de_list de_sig)" "enc_proof ex_env = en_list en_sig"
  "enc_header ex_env = en_header"
  "sql_u64 ex_env h = (unat h < 9223372036854775808)" "sql_io_error ex_env b = False"
  "evict_blocks ex_env m h = {}"
  "hash_to_string ex_env x = replicate (unat x) CHR ''a''"
  "hash_of_string ex_env s = Some (of_nat (length s))"
  "stakeset_new ex_env = []" "add_stake ex_env t d sk = AList.update t d sk"
  "unlock_old ex_env e sk = filter (\<lambda>(t, d). e < e_post_end d) sk"
  "stakes_root_hash ex_env = ex_root"
  "stakes_iter ex_env sk = map (\<lambda>(t, d). (t, en_stake d)) sk"
  "raw_stakes ex_env (hdr, sk, txs) = sk" "header_of ex_env (hdr, sk, txs) = hdr"
  "seal ex_env us a = us"
  "realize ex_env g = (\<lparr>network = gen_network g, height = 0, fee_multiplier = init_fee_multiplier g,
        stakes_hash = ex_root (gen_stakes g), hdr_rest = 0\<rparr>, gen_stakes g, [])"
  "from_block ex_env b sk = (blk_header b, sk, transactions b)"
  "stf_apply_block ex_env (hdr, sk, txs) b = (if height (blk_header b) = height hdr + 1
        then Inr (blk_header b, sk, transactions b) else Inl (Lib ''wrong height''))"
  "sig_verify ex_env pk msg sig = (sig = [ucast pk, ucast msg])"
  by (simp_all add: ex_env_def)

lemma replicate_2 [simp]: "replicate 2 x = [x, x]"
  by (simp add: numeral_2_eq_2)

lemma ex_st0_wf: "wf_storage ex_env ex_st0"
  unfolding ex_st0_def by (rule storage_open_fresh [OF ex_env_ok])

lemma ex_st0_db:
  "db ex_st0 = \<lparr>history = [], consensus_proofs = [],
     stakes = [(''a'', 0, en_stake (ex_stake 7 900)), (''aa'', 0, en_stake (ex_stake 8 100))]\<rparr>"
  by (simp add: ex_st0_def no_tables_def init_stakes_def ex_genesis_def
      insert_row_or_ignore_def)

lemma ex_tip0:
  "top_state ex_env ex_genesis (db ex_st0) =
     Some (\<lparr>network = Custom02, height = 0, fee_multiplier = 1, stakes_hash = 2, hdr_rest = 0\<rparr>,
       gen_stakes ex_genesis, [])"
  by (simp add: ex_st0_db top_state_def chain_def ex_genesis_def ex_root_def)

lemma ex_admissible:
  "admissible ex_env ex_st0 ex_b1 (ex_proof [7] 1)
     (\<lparr>network = Custom02, height = 0, fee_multiplier = 1, stakes_hash = 2, hdr_rest = 0\<rparr>,
       gen_stakes ex_genesis, [])"
proof -
  have "genesis ex_st0 = ex_genesis" by (simp add: ex_st0_def)
  moreover have "check_consensus ex_env (ex_header 1 2) (ex_proof [7] 1)
      [(1, en_stake (ex_stake 7 900)), (2, en_stake (ex_stake 8 100))] = Ok ()"
    by (simp add: check_consensus_def, simp add: ex_vote_defs checked_add_def checked_mul_def)
  ultimately show ?thesis
    using ex_tip0 by (simp add: admissible_def ex_b1_def ex_block_def ex_genesis_def)
      (simp add: ex_st0_db chain_def ex_header_def)
qed

definition ex_tabs1 :: db_tables where
  "ex_tabs1 = \<lparr>history = [(1, en_header (ex_header 1 2), en_block ex_b1)],
     consensus_proofs = [(1, en_list en_sig (ex_proof [7] 1))],
     stakes = [(''a'', 0, en_stake (ex_stake 7 900)), (''aa'', 0, en_stake (ex_stake 8 100))]\<rparr>"

lemma ex_save: "save_block ex_env ex_b1 (ex_proof [7] 1) (db ex_st0) = Inr ex_tabs1"
  by (simp add: save_block_def ex_st0_db ex_b1_def ex_block_def ex_tx_def ex_tabs1_def insert_row_def)
    (simp add: ex_header_def insert_row_def)

lemma ex_agree: "stakes_agree ex_env ex_genesis ex_tabs1 ex_b1"
  by (simp add: stakes_agree_def ex_tabs1_def stakeset_once_def ex_b1_def ex_block_def ex_header_def
      ex_genesis_def)
    (simp add: ex_root_def ex_stake_def)

text \<open>The first commit, and the state after it.\<close>

lemma ex_genesis_st0 [simp]: "genesis ex_st0 = ex_genesis"
  by (simp add: ex_st0_def)

lemma ex_apply1: "apply_block ex_env ex_st0 ex_b1 (ex_proof [7] 1) = (Ok (), ex_st1)"
  and ex_st1_db: "db ex_st1 = ex_tabs1"
  using apply_block_commits [OF ex_st0_wf ex_admissible ex_save] ex_agree
  by (auto simp: ex_st1_def)

lemma ex_st1_wf: "wf_storage ex_env ex_st1" and ex_genesis_st1 [simp]: "genesis ex_st1 = ex_genesis"
  using apply_block_extends [OF ex_st0_wf ex_apply1] by simp_all

lemma ex_st1_chain: "chain ex_env (db ex_st1) = [ex_b1]"
  by (simp add: ex_st1_db ex_tabs1_def chain_def)

definition ex_tabs2 :: db_tables where
  "ex_tabs2 = \<lparr>history = history ex_tabs1 @ [(2, en_header (ex_header 2 2), en_block ex_b2)],
     consensus_proofs = consensus_proofs ex_tabs1 @ [(2, en_list en_sig (ex_proof [7] 2))],
     stakes = stakes ex_tabs1\<rparr>"

definition ex_tip1 :: ex_state where
  "ex_tip1 = (ex_header 1 2, [(1, ex_stake 7 900), (2, ex_stake 8 100)], [ex_tx])"

lemma ex_top1: "top_state ex_env ex_genesis ex_tabs1 = Some ex_tip1"
proof -
  have "chain ex_env ex_tabs1 = [ex_b1]" using ex_st1_chain by (simp add: ex_st1_db)
  then show ?thesis
    by (simp add: top_state_def)
      (simp add: ex_tabs1_def stakeset_once_def ex_b1_def ex_block_def ex_header_def ex_genesis_def
        ex_tip1_def, simp add: ex_root_def ex_stake_def)
qed

lemma ex_admissible2: "admissible ex_env ex_st1 ex_b2 (ex_proof [7] 2) ex_tip1"
proof -
  have "check_consensus ex_env (ex_header 2 2) (ex_proof [7] 2)
      [(1, en_stake (ex_stake 7 900)), (2, en_stake (ex_stake 8 100))] = Ok ()"
    by (simp add: check_consensus_def, simp add: ex_vote_defs checked_add_def checked_mul_def)
  then show ?thesis
    using ex_top1 ex_st1_chain by (simp add: admissible_def ex_st1_db ex_b2_def ex_block_def ex_tip1_def)
      (simp add: ex_header_def)
qed

lemma ex_save2: "save_block ex_env ex_b2 (ex_proof [7] 2) (db ex_st1) = Inr ex_tabs2"
  by (simp add: save_block_def ex_st1_db ex_b2_def ex_block_def ex_tabs2_def ex_tabs1_def insert_row_def)
    (simp add: ex_header_def insert_row_def)

lemma ex_agree2: "stakes_agree ex_env ex_genesis ex_tabs2 ex_b2"
  by (simp add: stakes_agree_def ex_tabs2_def ex_tabs1_def stakeset_once_def ex_b2_def ex_block_def
      ex_header_def ex_genesis_def)
    (simp add: ex_root_def ex_stake_def)

definition ex_st2 :: "ex_state storage" where
  "ex_st2 = snd (apply_block ex_env ex_st1 ex_b2 (ex_proof [7] 2))"

lemma ex_apply2: "apply_block ex_env ex_st1 ex_b2 (ex_proof [7] 2) = (Ok (), ex_st2)"
  and ex_st2_db: "db ex_st2 = ex_tabs2"
  using apply_block_commits [OF ex_st1_wf ex_admissible2 ex_save2] ex_agree2
  by (auto simp: ex_st2_def)

lemma ex_st2_wf: "wf_storage ex_env ex_st2" and ex_st2_chain: "chain ex_env (db ex_st2) = [ex_b1, ex_b2]"
  and ex_genesis_st2 [simp]: "genesis ex_st2 = ex_genesis"
  using apply_block_extends [OF ex_st1_wf ex_apply2] ex_st1_chain by simp_all

lemma ex_reach1: "storage_reach ex_env ex_genesis True ex_st1"
  using storage_reach.applied [OF storage_reach.fresh ex_apply1 [unfolded ex_st0_def]] by blast

text \<open>
  A first block whose stake transaction the state transition function ignores, but which
  \<open>save_stakes\<close> records: the stakes no longer have the hash the header names.
\<close>

definition ex_bad :: block where
  "ex_bad = ex_block 1 2 [\<lparr>kind = Stake, data = en_stake (ex_stake 9 5), outputs = [], tx_rest = []\<rparr>]"

definition ex_bad_tabs :: db_tables where
  "ex_bad_tabs = \<lparr>history = [(1, en_header (ex_header 1 2), en_block ex_bad)],
     consensus_proofs = [(1, en_list en_sig (ex_proof [7] 1))],
     stakes = [(''a'', 0, en_stake (ex_stake 7 900)), (''aa'', 0, en_stake (ex_stake 8 100)),
       (replicate (length (en_stake (ex_stake 9 5))) CHR ''a'', 1, en_stake (ex_stake 9 5))]\<rparr>"

lemma ex_bad_admissible:
  "admissible ex_env ex_st0 ex_bad (ex_proof [7] 1)
     (\<lparr>network = Custom02, height = 0, fee_multiplier = 1, stakes_hash = 2, hdr_rest = 0\<rparr>,
       gen_stakes ex_genesis, [])"
  using ex_admissible
  by (simp add: admissible_def ex_b1_def ex_bad_def ex_block_def) (simp add: ex_header_def)

lemma ex_stake_length: "length (en_stake (ex_stake 9 5)) = 118"
  by (simp add: en_stake_def ex_stake_def en_word_def en_nat_def)

lemma ex_bad_save: "save_block ex_env ex_bad (ex_proof [7] 1) (db ex_st0) = Inr ex_bad_tabs"
proof -
  have "replicate 118 CHR ''a'' \<notin> {''a'', ''aa''}"
    by (auto dest: arg_cong [of _ _ length])
  then show ?thesis
    by (simp add: save_block_def ex_st0_db ex_bad_def ex_block_def ex_bad_tabs_def insert_row_def
        ex_stake_length)
      (simp add: ex_header_def insert_row_def ex_stake_length)
qed

lemma ex_bad_disagree: "\<not> stakes_agree ex_env ex_genesis ex_bad_tabs ex_bad"
  by (simp add: stakes_agree_def ex_bad_tabs_def stakeset_once_def ex_bad_def ex_block_def ex_header_def
      ex_genesis_def ex_stake_length)
    (simp add: ex_root_def ex_stake_def)

end
