(* ===== verification/Storage_Props.thy ===== *)
theory Storage_Props
  imports Example_Run
begin

text \<open>
  What the storage guarantees: the exact condition under which a block is committed, what
  a commit and a failure leave behind, what holds in every life of a storage, and the
  cases in which a call aborts the process.
\<close>

section \<open>Commits\<close>

text \<open>
  C1: A block is committed exactly when it extends the chain by one, passes the consensus
  check and the state transition function, the SQLite transaction goes through, and the
  stakes read back from the database have the hash its header names.
\<close>

theorem apply_block_commits_iff:
  assumes "wf_storage E st"
  shows "fst (apply_block E st blk cproof) = Ok () \<longleftrightarrow>
     (\<exists>tip tabs. admissible E st blk cproof tip \<and> save_block E blk cproof (db st) = Inr tabs \<and>
        stakes_agree E (genesis st) tabs blk)"
proof
  note core = wf_storageD(1) [OF assms]
  assume "fst (apply_block E st blk cproof) = Ok ()"
  then obtain st' where ok: "apply_block E st blk cproof = (Ok (), st')" by (metis prod.collapse)
  obtain tip tabs nxt where a: "admissible E st blk cproof tip" "save_block E blk cproof (db st) = Inr tabs"
    and t: "top_state E (genesis st) tabs = Some nxt"
    by (rule apply_block_Ok [OF core ok])
  moreover have "stakes_agree E (genesis st) tabs blk"
    using top_state_iff [OF chain_save [OF wf_coreD(2) [OF core] a(2)]] t by blast
  ultimately show "\<exists>tip tabs. admissible E st blk cproof tip \<and> save_block E blk cproof (db st) = Inr tabs \<and>
        stakes_agree E (genesis st) tabs blk" by blast
next
  assume "\<exists>tip tabs. admissible E st blk cproof tip \<and> save_block E blk cproof (db st) = Inr tabs \<and>
        stakes_agree E (genesis st) tabs blk"
  then show "fst (apply_block E st blk cproof) = Ok ()"
    using apply_block_commits [OF assms] by fastforce
qed

lemma apply_block_commits_iff_witness:
  "fst (apply_block ex_env ex_st0 ex_b1 (ex_proof [7] 1)) = Ok ()"
  using apply_block_commits_iff [OF ex_st0_wf, of ex_b1 "ex_proof [7] 1"]
    ex_admissible ex_save ex_agree by auto

text \<open>
  C16: A committed block is appended to the chain, becomes the block of the highest height,
  is stored with its consensus proof, resets the mempool to the state after it, and sends
  one notification; the invariant of the storage stays.
\<close>

theorem apply_block_appends:
  assumes "wf_storage E st" and "apply_block E st blk cproof = (Ok (), st')"
  shows "wf_storage E st' \<and> chain E (db st') = chain E (db st) @ [blk] \<and>
     highest_height st' = Ok (height (blk_header blk)) \<and>
     block_at E (db st') (height (blk_header blk)) = Some blk \<and>
     consensus_at E (db st') (height (blk_header blk)) = Some cproof \<and>
     (\<exists>s. header_of E s = blk_header blk \<and> mempool st' = rebase E s (mempool st)) \<and>
     new_block_notify st' = Suc (new_block_notify st)"
proof -
  note core = wf_storageD(1) [OF assms(1)]
  note ext = apply_block_extends [OF assms]
  obtain tip tabs nxt st1 where
    a: "admissible E st blk cproof tip" "save_block E blk cproof (db st) = Inr tabs"
    and t: "top_state E (genesis st) tabs = Some nxt"
    and s1: "same_but_cache (st\<lparr>db := tabs\<rparr>) st1"
    and st': "st' = st1\<lparr>mempool := rebase E nxt (mempool st),
        new_block_notify := Suc (new_block_notify st)\<rparr>"
    by (rule apply_block_Ok [OF core assms(2)])
  have db: "db st' = tabs" using same_but_cache_fields(1) [OF s1] by (simp add: st')
  have h: "height (blk_header blk) = of_nat (Suc (length (chain E (db st))))"
    using a(1) unfolding admissible_def by (metis of_nat_unat ucast_id)
  have top: "highest_height st' = Ok (height (blk_header blk))"
    using store.top_length [of E st'] ext h by simp
  have cons: "consensus_at E tabs (height (blk_header blk)) = Some cproof"
  proof -
    have "insert_row (height (blk_header blk)) (enc_proof E cproof) (consensus_proofs (db st)) =
        Some (consensus_proofs tabs)"
      using a(2) by (auto simp: save_block_def Let_def split: if_splits option.splits sum.splits)
    from sql.ins_new [OF this] show ?thesis
      by (simp add: consensus_at_def codec_okD(2) [OF wf_coreD(2) [OF core]])
  qed
  have "header_of E nxt = blk_header blk"
    using top_state_header [OF wf_coreD(1) [OF core] chain_save [OF wf_coreD(2) [OF core] a(2)] t] .
  then show ?thesis
    using ext top cons block_at_save [OF a(2) wf_coreD(2) [OF core]] by (auto simp: db) (auto simp: st')
qed

lemma apply_block_appends_witness:
  "apply_block ex_env ex_st1 ex_b2 (ex_proof [7] 2) = (Ok (), ex_st2) \<and>
   chain ex_env (db ex_st2) = [ex_b1, ex_b2] \<and> highest_height ex_st2 = Ok 2"
  using apply_block_appends [OF ex_st1_wf ex_apply2] ex_st1_chain ex_apply2
  by (simp add: ex_b2_def ex_block_def) (simp add: ex_header_def)



text \<open>
  A block of any height but the next one is refused with \<open>CannotApply\<close>, and an error
  changes nothing but the block cache.
\<close>

theorem apply_block_wrong_height:
  assumes "wf_storage E st" and "unat (height (blk_header blk)) \<noteq> Suc (length (chain E (db st)))"
  shows "fst (apply_block E st blk cproof) =
      Err (CannotApply (height (blk_header blk)) (of_nat (length (chain E (db st))))) \<and>
    same_but_cache st (snd (apply_block E st blk cproof))"
proof -
  note core = wf_storageD(1) [OF assms(1)]
  obtain r s0 where hs: "highest_state E st = (r, s0)" by (cases "highest_state E st")
  note spec = highest_state_spec [OF core, unfolded hs, simplified]
  obtain tip where tip: "top_state E (genesis st) (db st) = Some tip"
  proof (cases "chain E (db st) = []")
    case True
    then show ?thesis by (intro that) (simp add: top_state_def)
  next
    case False
    then have ch: "chain E (db st) = butlast (chain E (db st)) @ [last (chain E (db st))]" by simp
    have "stakes_agree E (genesis st) (db st) (last (chain E (db st)))"
      using wf_storageD(2) [OF assms(1)] False by simp
    with top_state_iff [OF ch] that show ?thesis by blast
  qed
  have r: "r = Ok tip"
    using highest_state_spec(1) [OF core, THEN iffD2, OF tip] by (simp add: hs)
  have n: "unat (height (header_of E tip)) = length (chain E (db st))"
    by (rule top_state_height [OF core tip])
  then have e: "checked_add (height (header_of E tip)) 1 = Some (height (header_of E tip) + 1)"
    using chain_bound [OF core] by (simp add: checked_add_def)
  have "height (blk_header blk) \<noteq> height (header_of E tip) + 1"
    using next_height [OF n e] assms(2) by blast
  then have "apply_block E st blk cproof =
      (Err (CannotApply (height (blk_header blk)) (height (header_of E tip))), s0)"
    by (simp add: apply_block_def hs r e Let_def)
  moreover have "height (header_of E tip) = of_nat (length (chain E (db st)))"
    using n by (metis of_nat_unat ucast_id)
  ultimately show ?thesis using spec(3) by simp
qed

lemma apply_block_wrong_height_witness:
  "fst (apply_block ex_env ex_st1 ex_b1 (ex_proof [7] 1)) = Err (CannotApply 1 1)"
proof -
  have "unat (height (blk_header ex_b1)) \<noteq> Suc (length (chain ex_env (db ex_st1)))"
    unfolding ex_st1_chain by (simp add: ex_b1_def ex_block_def ex_header_def)
  from apply_block_wrong_height [OF ex_st1_wf this, of "ex_proof [7] 1"] show ?thesis
    unfolding ex_st1_chain by (simp add: ex_b1_def ex_block_def ex_header_def)
qed

section \<open>Aborts\<close>



text \<open>
  Asking for a block at a height SQLite cannot hold never gets an answer: every one of
  the retries fails, and the last one aborts the process.
\<close>

theorem get_block_unrepresentable:
  assumes "wf_core E st" and "2 ^ 63 \<le> unat h"
  shows "get_block E st h = (Panic Overflow, st)"
proof -
  have "fst (get_block E st h) = Panic Overflow"
    using get_block_spec(1) [OF assms(1), of h] assms(2) env_okD(4) [OF wf_coreD(1) [OF assms(1)]]
    by (simp add: not_less)
  then show ?thesis by (auto simp: get_block_def Let_def split: option.splits)
qed

lemma get_block_unrepresentable_witness:
  "get_block ex_env ex_st1 9223372036854775808 = (Panic Overflow, ex_st1)"
  by (rule get_block_unrepresentable [OF wf_storageD(1) [OF ex_st1_wf]]) simp

section \<open>Reading\<close>

text \<open>
  Reading a block gives what the history table holds, whatever the cache kept or
  dropped, and touches nothing but the cache.
\<close>

theorem get_block_reads_table:
  assumes "wf_core E st" and "unat h < 2 ^ 63"
  shows "fst (get_block E st h) = Ok (block_at E (db st) h) \<and>
    same_but_cache st (snd (get_block E st h)) \<and> wf_core E (snd (get_block E st h))"
  using get_block_spec [OF assms(1), of h] assms(2) env_okD(4) [OF wf_coreD(1) [OF assms(1)]] by simp

lemma get_block_reads_table_witness:
  "fst (get_block ex_env ex_st1 1) = Ok (Some ex_b1)"
  using get_block_reads_table [OF wf_storageD(1) [OF ex_st1_wf], of 1]
  by (simp add: block_at_def ex_st1_db ex_tabs1_def select_row_def)

text \<open>
  Committing a block never changes a state of the past: at every height stored before,
  \<open>get_state\<close> gives the same result after the commit, stakes included.
\<close>

theorem past_states_stable:
  assumes "wf_storage E st" and "apply_block E st blk cproof = (Ok (), st')"
    and "unat h \<le> length (chain E (db st))"
  shows "fst (get_state E st' h) = fst (get_state E st h)"
  by (rule get_state_stable [OF assms])

lemma past_states_stable_witness:
  "fst (get_state ex_env ex_st2 1) = fst (get_state ex_env ex_st1 1)"
  by (rule past_states_stable [OF ex_st1_wf ex_apply2]) (simp add: ex_st1_db ex_tabs1_def)

section \<open>Every life\<close>

text \<open>
  C2: In every life of a storage, crashes and restarts included, the history is the blocks
  1 to n without a gap, each found under its own height together with a consensus proof.
\<close>

theorem every_life_contiguous:
  assumes "env_ok E" and "storage_reach E g c st" and "i < length (chain E (db st))"
  shows "block_at E (db st) (of_nat (Suc i)) = Some (chain E (db st) ! i) \<and>
    unat (height (blk_header (chain E (db st) ! i))) = Suc i \<and>
    (\<exists>p. consensus_at E (db st) (of_nat (Suc i)) = Some p)"
proof -
  have core: "wf_core E st" using reach_core [OF assms(1,2)] by blast
  note wf = wf_coreD [OF core]
  have i: "i < length (history (db st))" using assms(3) by simp
  note n = chain_nth [OF wf(3,2) i]
  have keys: "map fst (consensus_proofs (db st)) = map fst (history (db st))"
    using wf(3) by (simp add: wf_db_def)
  define k :: u64 where "k = of_nat (Suc i)"
  have "fst (history (db st) ! i) = k"
    unfolding k_def by (metis consecutive_nth [OF wf(4) i] of_nat_unat ucast_id)
  moreover have "fst (history (db st) ! i) \<in> set (map fst (history (db st)))"
    using nth_mem [OF i] by simp
  ultimately have "k \<in> set (map fst (consensus_proofs (db st)))"
    unfolding keys by argo
  then obtain blob where b: "select_row (consensus_proofs (db st)) k = Some blob"
    using sql.sel_keys [of "consensus_proofs (db st)" k]
    by (cases "select_row (consensus_proofs (db st)) k") simp_all
  then have "(k, blob) \<in> set (consensus_proofs (db st))"
    unfolding select_row_def by (rule map_of_SomeD)
  then obtain p where "blob = enc_proof E p" using wf(3) by (auto simp: wf_db_def)
  with b have "consensus_at E (db st) k = Some p"
    by (simp add: consensus_at_def codec_okD(2) [OF wf(2)])
  with n show ?thesis unfolding k_def by blast
qed

lemma every_life_contiguous_witness:
  "block_at ex_env (db ex_st1) 1 = Some ex_b1 \<and> (\<exists>p. consensus_at ex_env (db ex_st1) 1 = Some p)"
proof -
  have "0 < length (chain ex_env (db ex_st1))" unfolding ex_st1_chain by simp
  from every_life_contiguous [OF ex_env_ok ex_reach1 this] show ?thesis
    unfolding ex_st1_chain by simp
qed



end
