(* ===== verification/Storage_Steps.thy ===== *)
theory Storage_Steps
  imports Chain_Growth
begin

text \<open>
  \<open>apply_block\<close> and \<open>get_state_or_wait\<close> as tasks that take turns at every await: any number
  of appliers behind the lock of the storage, any number of waiters behind its notifier,
  readers and transactions in between. The steps of an applier are those of the function:
  take the lock, check against the top state, save, read the top state back, rebase the
  mempool and notify, release.
\<close>

section \<open>Tasks\<close>

datatype 'ss phase = Idle | Holding | Checked | Saved | Reread 'ss

text \<open>
  \<open>get_state_or_wait\<close>: listen first, look then, park when there is nothing. The number is
  that of the notifications sent when the task began to listen.
\<close>

datatype waiter = Away | Listening nat | Parked nat

text \<open>\<open>history_log\<close> is a ghost: the blocks applied so far with their proofs.\<close>

record ('ss, 'us) sys =
  shared :: "'us storage"
  holder :: "nat option"
  phase_of :: "nat \<Rightarrow> 'ss phase"
  job_of :: "nat \<Rightarrow> block \<times> consensus_proof"
  waiter_of :: "nat \<Rightarrow> waiter"
  waits_for :: "nat \<Rightarrow> u64"
  history_log :: "(block \<times> consensus_proof) list"

definition release :: "nat \<Rightarrow> ('ss, 'us) sys \<Rightarrow> ('ss, 'us) sys" where
  "release i y = y\<lparr>holder := None, phase_of := (phase_of y)(i := Idle)\<rparr>"

text \<open>What \<open>apply_block\<close> checks before it saves, against the given top state.\<close>

definition checks ::
  "('ss, 'us, 'sk) env \<Rightarrow> 'ss \<Rightarrow> block \<Rightarrow> consensus_proof \<Rightarrow> unit res" where
  "checks E tip blk cproof =
     (let hdr = blk_header blk; tip_height = height (header_of E tip) in
      bind_res (of_checked (checked_add tip_height 1)) (\<lambda>expected.
        if height hdr \<noteq> expected then Err (CannotApply (height hdr) tip_height)
        else bind_res (check_consensus E hdr cproof (stakes_iter E (raw_stakes E tip))) (\<lambda>_.
          bind_res (of_sum (stf_apply_block E tip blk)) (\<lambda>_. Ok ()))))"

text \<open>\<open>apply_block\<close>: take the lock, check, save or give up, read the new top state, finish.\<close>

inductive apply_step ::
  "('ss, 'us, 'sk) env \<Rightarrow> ('ss, 'us) sys \<Rightarrow> ('ss, 'us) sys \<Rightarrow> bool" for E where
  acquire: "holder y = None \<Longrightarrow> phase_of y i = Idle \<Longrightarrow>
    apply_step E y (y\<lparr>holder := Some i, phase_of := (phase_of y)(i := Holding), job_of := (job_of y)(i := (blk, cproof))\<rparr>)"
| check_ok: "phase_of y i = Holding \<Longrightarrow> job_of y i = (blk, cproof) \<Longrightarrow> highest_state E (shared y) = (Ok tip, st) \<Longrightarrow>
    checks E tip blk cproof = Ok () \<Longrightarrow> apply_step E y (y\<lparr>shared := st, phase_of := (phase_of y)(i := Checked)\<rparr>)"
| check_fails: "phase_of y i = Holding \<Longrightarrow> job_of y i = (blk, cproof) \<Longrightarrow> highest_state E (shared y) = (Ok tip, st) \<Longrightarrow>
    checks E tip blk cproof = Err e \<Longrightarrow> apply_step E y (release i (y\<lparr>shared := st\<rparr>))"
| save_ok: "phase_of y i = Checked \<Longrightarrow> job_of y i = (blk, cproof) \<Longrightarrow> save_block E blk cproof (db (shared y)) = Inr tabs \<Longrightarrow>
    apply_step E y (y\<lparr>shared := (shared y)\<lparr>db := tabs\<rparr>, phase_of := (phase_of y)(i := Saved)\<rparr>)"
| save_fails: "phase_of y i = Checked \<Longrightarrow> job_of y i = (blk, cproof) \<Longrightarrow> save_block E blk cproof (db (shared y)) = Inl e \<Longrightarrow>
    apply_step E y (release i y)"
| read_back: "phase_of y i = Saved \<Longrightarrow> highest_state E (shared y) = (Ok nxt, st) \<Longrightarrow>
    apply_step E y (y\<lparr>shared := st, phase_of := (phase_of y)(i := Reread nxt)\<rparr>)"
| finish: "phase_of y i = Reread nxt \<Longrightarrow> apply_step E y (release i (y\<lparr>
      shared := (shared y)\<lparr>mempool := rebase E nxt (mempool (shared y)), new_block_notify := Suc (new_block_notify (shared y))\<rparr>,
      history_log := history_log y @ [job_of y i]\<rparr>))"

text \<open>\<open>get_state_or_wait\<close>: listen, look, return or await the notification and start over.\<close>

inductive wait_step ::
  "('ss, 'us, 'sk) env \<Rightarrow> ('ss, 'us) sys \<Rightarrow> ('ss, 'us) sys \<Rightarrow> bool" for E where
  listen: "waiter_of y j = Away \<Longrightarrow>
    wait_step E y (y\<lparr>waiter_of := (waiter_of y)(j := Listening (new_block_notify (shared y))), waits_for := (waits_for y)(j := h)\<rparr>)"
| found: "waiter_of y j = Listening n \<Longrightarrow> get_state E (shared y) (waits_for y j) = (Ok (Some s), st) \<Longrightarrow>
    wait_step E y (y\<lparr>shared := st, waiter_of := (waiter_of y)(j := Away)\<rparr>)"
| park: "waiter_of y j = Listening n \<Longrightarrow> get_state E (shared y) (waits_for y j) = (Ok None, st) \<Longrightarrow>
    wait_step E y (y\<lparr>shared := st, waiter_of := (waiter_of y)(j := Parked n)\<rparr>)"
| wake: "waiter_of y j = Parked n \<Longrightarrow> n < new_block_notify (shared y) \<Longrightarrow>
    wait_step E y (y\<lparr>waiter_of := (waiter_of y)(j := Listening (new_block_notify (shared y)))\<rparr>)"

text \<open>
  One step of the node: of an applier, of a waiter, of a reader, of the mempool; an applier
  or a waiter dropped by its caller, as the staker drops the loser of its race between
  \<open>skip_round\<close> and \<open>decide_round\<close>. (An applier that has saved is not dropped: the staker
  waits for the height that this applier, holding the lock, is about to announce.)
\<close>

inductive sys_step ::
  "('ss, 'us, 'sk) env \<Rightarrow> ('ss, 'us) sys \<Rightarrow> ('ss, 'us) sys \<Rightarrow> bool" for E where
  applying: "apply_step E y y' \<Longrightarrow> sys_step E y y'"
| waiting: "wait_step E y y' \<Longrightarrow> sys_step E y y'"
| reading: "get_state E (shared y) h = (r, st) \<Longrightarrow> sys_step E y (y\<lparr>shared := st\<rparr>)"
| dropping: "phase_of y i = Holding \<or> phase_of y i = Checked \<Longrightarrow> sys_step E y (release i y)"
| leaving: "sys_step E y (y\<lparr>waiter_of := (waiter_of y)(j := Away)\<rparr>)"
| pooling: "sys_step E y (y\<lparr>shared :=
    (shared y)\<lparr>mempool := snd (apply_transaction E tx (mempool (shared y)))\<rparr>\<rparr>)"

definition sys_start :: "'us storage \<Rightarrow> ('ss, 'us) sys" where
  "sys_start st = \<lparr>shared = st, holder = None, phase_of = (\<lambda>i. Idle), job_of = (\<lambda>i. undefined),
     waiter_of = (\<lambda>j. Away), waits_for = (\<lambda>j. 0), history_log = []\<rparr>"

abbreviation sys_run :: "('ss, 'us, 'sk) env \<Rightarrow> ('ss, 'us) sys \<Rightarrow> ('ss, 'us) sys \<Rightarrow> bool" where
  "sys_run E \<equiv> (sys_step E)\<^sup>*\<^sup>*"

section \<open>The invariant\<close>

text \<open>
  \<open>st\<close> is the storage that applying the log one call after the other gives. While a task
  is between its save and its release, the tables are one block ahead of it.
\<close>

definition ahead :: "('ss, 'us, 'sk) env \<Rightarrow> 'us storage \<Rightarrow> 'us storage \<Rightarrow> block \<times> consensus_proof \<Rightarrow> bool" where
  "ahead E st sh job \<longleftrightarrow>
     (\<exists>tip. admissible E st (fst job) (snd job) tip) \<and> save_block E (fst job) (snd job) (db st) = Inr (db sh)"

definition phase_ok :: "('ss, 'us, 'sk) env \<Rightarrow> 'us storage \<Rightarrow> 'us storage \<Rightarrow> block \<times> consensus_proof \<Rightarrow> 'ss phase \<Rightarrow> bool" where
  "phase_ok E st sh job p \<longleftrightarrow>
     (case p of
        Idle \<Rightarrow> False
      | Holding \<Rightarrow> db sh = db st
      | Checked \<Rightarrow> db sh = db st \<and> (\<exists>tip. admissible E st (fst job) (snd job) tip)
      | Saved \<Rightarrow> ahead E st sh job
      | Reread nxt \<Rightarrow> ahead E st sh job \<and> top_state E (genesis sh) (db sh) = Some nxt)"

definition sys_inv :: "('ss, 'us, 'sk) env \<Rightarrow> 'us storage \<Rightarrow> ('ss, 'us) sys \<Rightarrow> bool" where
  "sys_inv E st0 y \<longleftrightarrow>
     (\<exists>st. apply_all (apply_block E) (history_log y) st0 = (Ok (), st) \<and> wf_storage E st \<and>
        genesis (shared y) = genesis st \<and> wf_core E (shared y) \<and>
        (\<forall>i. phase_of y i \<noteq> Idle \<longrightarrow> holder y = Some i) \<and>
        (holder y = None \<longrightarrow> db (shared y) = db st) \<and>
        (\<forall>i. holder y = Some i \<longrightarrow> phase_ok E st (shared y) (job_of y i) (phase_of y i)))"

lemma admissible_cong:
  "db st = db st' \<Longrightarrow> genesis st = genesis st' \<Longrightarrow> admissible E st blk cproof tip = admissible E st' blk cproof tip"
  by (simp add: admissible_def)

lemma checks_admissible:
  assumes "wf_core E st" "top_state E (genesis st) (db st) = Some tip" "checks E tip blk cproof = Ok ()"
  shows "admissible E st blk cproof tip"
proof -
  have n: "unat (height (header_of E tip)) = length (chain E (db st))"
    by (rule top_state_height [OF assms(1,2)])
  obtain e where e: "checked_add (height (header_of E tip)) 1 = Some e" "height (blk_header blk) = e"
    and c: "check_consensus E (blk_header blk) cproof (stakes_iter E (raw_stakes E tip)) = Ok ()"
    and s: "of_sum (stf_apply_block E tip blk) \<noteq> Err x" for x
    using assms(3) by (auto simp: checks_def Let_def bind_res_Ok split: if_splits option.splits)
  have "unat (height (blk_header blk)) = Suc (length (chain E (db st)))"
    using next_height [OF n e(1)] e(2) by simp
  then show ?thesis
    using assms(2) c s by (cases "stf_apply_block E tip blk") (auto simp: admissible_def)
qed

text \<open>A change that keeps the tables and the genesis keeps the invariant.\<close>

lemma phase_ok_cong:
  "db sh = db sh' \<Longrightarrow> genesis sh = genesis sh' \<Longrightarrow> phase_ok E st sh job p = phase_ok E st sh' job p"
  by (simp add: phase_ok_def ahead_def split: phase.split)

lemma sys_inv_shared:
  assumes "sys_inv E st0 y" "db sh = db (shared y)" "genesis sh = genesis (shared y)" "wf_core E sh"
  shows "sys_inv E st0 (y\<lparr>shared := sh\<rparr>)"
proof -
  obtain st where st: "apply_all (apply_block E) (history_log y) st0 = (Ok (), st)" "wf_storage E st"
    "genesis (shared y) = genesis st" "\<forall>i. phase_of y i \<noteq> Idle \<longrightarrow> holder y = Some i"
    "holder y = None \<longrightarrow> db (shared y) = db st"
    "\<forall>i. holder y = Some i \<longrightarrow> phase_ok E st (shared y) (job_of y i) (phase_of y i)"
    using assms(1) unfolding sys_inv_def by (elim exE conjE)
  show ?thesis
    unfolding sys_inv_def
    by (rule exI [of _ st]) (use st assms(2-4) phase_ok_cong [OF assms(2,3), of E st] in simp)
qed

lemma sys_inv_core: "sys_inv E st0 y \<Longrightarrow> wf_core E (shared y)"
  by (auto simp: sys_inv_def)

lemma sys_inv_unlocked:
  assumes "sys_inv E st0 y" "holder y = None"
  shows "wf_storage E (shared y)"
proof -
  obtain st where "wf_storage E st" "genesis (shared y) = genesis st" "wf_core E (shared y)" "db (shared y) = db st"
    using assms unfolding sys_inv_def by (elim exE conjE) blast
  then show ?thesis by (simp add: wf_storage_def)
qed

lemma sys_inv_waiter: "sys_inv E st0 (y\<lparr>waiter_of := w\<rparr>) = sys_inv E st0 y"
  "sys_inv E st0 (y\<lparr>waits_for := f\<rparr>) = sys_inv E st0 y"
  by (simp_all add: sys_inv_def)

text \<open>
  What is known while task \<open>i\<close> is in the phase \<open>p\<close> other than \<open>Idle\<close>; \<open>s\<close> is the storage of
  the log.
\<close>

definition held ::
  "('ss, 'us, 'sk) env \<Rightarrow> 'us storage \<Rightarrow> ('ss, 'us) sys \<Rightarrow> nat \<Rightarrow> 'ss phase \<Rightarrow> 'us storage \<Rightarrow> bool" where
  "held E st0 y i p s \<longleftrightarrow>
     apply_all (apply_block E) (history_log y) st0 = (Ok (), s) \<and> wf_storage E s \<and>
     genesis (shared y) = genesis s \<and> wf_core E (shared y) \<and> holder y = Some i \<and>
     phase_of y i = p \<and> (\<forall>j. j \<noteq> i \<longrightarrow> phase_of y j = Idle) \<and> phase_ok E s (shared y) (job_of y i) p"

lemma sys_invE:
  assumes "sys_inv E st0 y" "phase_of y i = p" "p \<noteq> Idle"
  obtains s where "held E st0 y i p s"
  using assms unfolding sys_inv_def held_def by (metis option.inject)

lemma heldD:
  assumes "held E st0 y i p s"
  shows "wf_storage E s" "wf_core E (shared y)" "genesis (shared y) = genesis s"
    "phase_ok E s (shared y) (job_of y i) p"
  using assms by (simp_all add: held_def)

text \<open>To the next phase over a new shared storage, and back to nobody holding the lock.\<close>

lemma held_moves:
  assumes "held E st0 y i p s" "wf_core E sh" "genesis sh = genesis (shared y)" "phase_ok E s sh (job_of y i) q" "q \<noteq> Idle"
  shows "sys_inv E st0 (y\<lparr>shared := sh, phase_of := (phase_of y)(i := q)\<rparr>)"
  using assms by (auto simp: held_def sys_inv_def)

lemma held_released:
  assumes "held E st0 y i p s" "wf_core E sh" "genesis sh = genesis (shared y)"
    and "apply_all (apply_block E) log st0 = (Ok (), s')" "wf_storage E s'" "genesis s' = genesis s" "db sh = db s'"
  shows "sys_inv E st0 (release i (y\<lparr>shared := sh, history_log := log\<rparr>))"
  using assms by (auto simp: held_def sys_inv_def release_def)

lemma held_gives_up:
  assumes "held E st0 y i p s" "wf_core E sh" "genesis sh = genesis (shared y)" "db sh = db s"
  shows "sys_inv E st0 (release i (y\<lparr>shared := sh\<rparr>))"
  using assms by (auto simp: held_def sys_inv_def release_def)

lemma held_commits:
  assumes "held E st0 y i (Reread nxt) s"
  obtains s' where "apply_all (apply_block E) (history_log y @ [job_of y i]) st0 = (Ok (), s')"
    "wf_storage E s'" "genesis s' = genesis s" "db s' = db (shared y)"
proof -
  obtain blk cproof where job: "job_of y i = (blk, cproof)" by (cases "job_of y i")
  obtain tip where tip: "admissible E s blk cproof tip" "save_block E blk cproof (db s) = Inr (db (shared y))"
    "top_state E (genesis s) (db (shared y)) = Some nxt"
    using heldD(3,4) [OF assms] job by (auto simp: phase_ok_def ahead_def)
  note wf = heldD(1) [OF assms]
  have "stakes_agree E (genesis s) (db (shared y)) blk"
    using top_state_iff [OF chain_save [OF wf_coreD(2) [OF wf_storageD(1) [OF wf]] tip(2)]] tip(3) by blast
  then obtain s' where s': "apply_block E s blk cproof = (Ok (), s')" "db s' = db (shared y)"
    using apply_block_commits [OF wf tip(1,2)] by blast
  moreover have "apply_all (apply_block E) (history_log y @ [job_of y i]) st0 = (Ok (), s')"
    unfolding apply_all_append using assms s'(1) by (simp add: held_def job)
  ultimately show thesis using that apply_block_extends [OF wf s'(1)] by blast
qed

section \<open>Every step keeps it\<close>

lemma sys_inv_check_ok:
  assumes "sys_inv E st0 y" "phase_of y i = Holding" "job_of y i = (blk, cproof)"
    "highest_state E (shared y) = (Ok tip, st)" "checks E tip blk cproof = Ok ()"
  shows "sys_inv E st0 (y\<lparr>shared := st, phase_of := (phase_of y)(i := Checked)\<rparr>)"
proof -
  obtain s where h: "held E st0 y i Holding s" by (rule sys_invE [OF assms(1,2)]) simp
  note core = heldD(2) [OF h]
  note hs = highest_state_spec [OF core, unfolded assms(4) fst_conv snd_conv]
  have f: "db st = db (shared y)" "genesis st = genesis (shared y)" "db (shared y) = db s"
    using same_but_cache_fields [OF hs(3)] heldD(4) [OF h] by (simp_all add: phase_ok_def)
  have "top_state E (genesis (shared y)) (db (shared y)) = Some tip" using hs(1) by blast
  from checks_admissible [OF core this assms(5)]
  have "admissible E s blk cproof tip" by (rule admissible_cong [OF f(3) heldD(3) [OF h], THEN iffD1])
  then show ?thesis
    using f assms(3) by (intro held_moves [OF h hs(4)]) (auto simp: phase_ok_def)
qed

lemma sys_inv_save_ok:
  assumes "sys_inv E st0 y" "phase_of y i = Checked" "job_of y i = (blk, cproof)"
    "save_block E blk cproof (db (shared y)) = Inr tabs"
  shows "sys_inv E st0 (y\<lparr>shared := (shared y)\<lparr>db := tabs\<rparr>, phase_of := (phase_of y)(i := Saved)\<rparr>)"
proof -
  obtain s where h: "held E st0 y i Checked s" by (rule sys_invE [OF assms(1,2)]) simp
  obtain tip where tip: "admissible E s blk cproof tip" and d: "db (shared y) = db s"
    using heldD(4) [OF h] assms(3) by (auto simp: phase_ok_def)
  have "unat (height (blk_header blk)) = Suc (length (chain E (db (shared y))))"
    using tip by (simp add: admissible_def d)
  from wf_core_save [OF heldD(2) [OF h] assms(4) this] show ?thesis
    using tip d assms(3,4) by (intro held_moves [OF h]) (auto simp: phase_ok_def ahead_def)
qed

lemma sys_inv_finish:
  assumes "sys_inv E st0 y" "phase_of y i = Reread nxt"
  shows "sys_inv E st0 (release i (y\<lparr>
      shared := (shared y)\<lparr>mempool := rebase E nxt (mempool (shared y)), new_block_notify := Suc (new_block_notify (shared y))\<rparr>,
      history_log := history_log y @ [job_of y i]\<rparr>))"
proof -
  obtain s where h: "held E st0 y i (Reread nxt) s" by (rule sys_invE [OF assms]) simp
  obtain s' where s': "apply_all (apply_block E) (history_log y @ [job_of y i]) st0 = (Ok (), s')"
    "wf_storage E s'" "genesis s' = genesis s" "db s' = db (shared y)"
    by (rule held_commits [OF h])
  show ?thesis
    by (rule held_released [OF h _ _ s'(1-3)]) (use heldD(2) [OF h] s'(4) in \<open>simp_all add: wf_core_def\<close>)
qed

lemma sys_inv_apply_step:
  assumes "apply_step E y y'" "sys_inv E st0 y"
  shows "sys_inv E st0 y'"
  using assms(1)
proof (cases rule: apply_step.cases)
  case (acquire i blk cproof)
  then show ?thesis using assms(2) by (auto simp: sys_inv_def phase_ok_def)
next
  case (check_ok i blk cproof tip st)
  then show ?thesis using sys_inv_check_ok [OF assms(2)] by simp
next
  case (check_fails i blk cproof tip st e)
  obtain s where h: "held E st0 y i Holding s" by (rule sys_invE [OF assms(2) \<open>phase_of y i = Holding\<close>]) simp
  note hs = highest_state_spec(3,4) [OF heldD(2) [OF h], unfolded check_fails(4) snd_conv]
  show ?thesis
    unfolding check_fails(1)
    by (rule held_gives_up [OF h hs(2)]) (use same_but_cache_fields [OF hs(1)] heldD(4) [OF h] in \<open>simp_all add: phase_ok_def\<close>)
next
  case (save_ok i blk cproof tabs)
  then show ?thesis using sys_inv_save_ok [OF assms(2)] by simp
next
  case (save_fails i blk cproof e)
  obtain s where h: "held E st0 y i Checked s" by (rule sys_invE [OF assms(2) \<open>phase_of y i = Checked\<close>]) simp
  then show ?thesis
    using held_gives_up [OF h heldD(2) [OF h] refl] heldD(4) [OF h] by (simp add: save_fails(1) phase_ok_def)
next
  case (read_back i nxt st)
  obtain s where h: "held E st0 y i Saved s" by (rule sys_invE [OF assms(2) \<open>phase_of y i = Saved\<close>]) simp
  note hs = highest_state_spec [OF heldD(2) [OF h], unfolded read_back(3) fst_conv snd_conv]
  have "top_state E (genesis (shared y)) (db (shared y)) = Some nxt" using hs(1) by blast
  then show ?thesis
    unfolding read_back(1)
    by (intro held_moves [OF h hs(4)])
      (use same_but_cache_fields [OF hs(3)] heldD(4) [OF h] in \<open>simp_all add: phase_ok_def ahead_def\<close>)
next
  case (finish i nxt)
  then show ?thesis using sys_inv_finish [OF assms(2)] by simp
qed

lemma sys_inv_wait_step:
  assumes "wait_step E y y'" "sys_inv E st0 y"
  shows "sys_inv E st0 y'"
  using assms(1)
proof (cases rule: wait_step.cases)
  case (listen j h)
  then show ?thesis using assms(2) by (simp add: sys_inv_def)
next
  case (found j n s st)
  have core: "wf_core E (shared y)" using assms(2) by (auto simp: sys_inv_def)
  note gs = get_state_spec(2,3) [OF core, of "waits_for y j", unfolded found(3) snd_conv]
  have "sys_inv E st0 (y\<lparr>shared := st\<rparr>)"
    by (rule sys_inv_shared [OF assms(2)]) (use same_but_cache_fields [OF gs(1)] gs(2) in simp_all)
  then show ?thesis by (simp add: found(1) sys_inv_def)
next
  case (park j n st)
  have core: "wf_core E (shared y)" using assms(2) by (auto simp: sys_inv_def)
  note gs = get_state_spec(2,3) [OF core, of "waits_for y j", unfolded park(3) snd_conv]
  have "sys_inv E st0 (y\<lparr>shared := st\<rparr>)"
    by (rule sys_inv_shared [OF assms(2)]) (use same_but_cache_fields [OF gs(1)] gs(2) in simp_all)
  then show ?thesis by (simp add: park(1) sys_inv_def)
next
  case (wake j n)
  then show ?thesis using assms(2) by (simp add: sys_inv_def)
qed

lemma sys_inv_step:
  assumes "sys_step E y y'" "sys_inv E st0 y"
  shows "sys_inv E st0 y'"
  using assms(1)
proof (cases rule: sys_step.cases)
  case applying
  then show ?thesis using sys_inv_apply_step assms(2) by blast
next
  case waiting
  then show ?thesis using sys_inv_wait_step assms(2) by blast
next
  case (reading h r st)
  have core: "wf_core E (shared y)" using assms(2) by (auto simp: sys_inv_def)
  note gs = get_state_spec(2,3) [OF core, of h, unfolded reading(2) snd_conv]
  show ?thesis
    unfolding reading(1) by (rule sys_inv_shared [OF assms(2)]) (use same_but_cache_fields [OF gs(1)] gs(2) in simp_all)
next
  case (dropping i)
  then obtain s where h: "held E st0 y i (phase_of y i) s" using sys_invE [OF assms(2) refl] by (metis phase.distinct(1,3))
  have "db (shared y) = db s" using heldD(4) [OF h] dropping(2) by (auto simp: phase_ok_def)
  then show ?thesis using held_gives_up [OF h heldD(2) [OF h] refl] by (simp add: dropping(1))
next
  case (leaving j)
  then show ?thesis using assms(2) by (simp add: sys_inv_waiter)
next
  case (pooling tx)
  have "wf_core E ((shared y)\<lparr>mempool := snd (apply_transaction E tx (mempool (shared y)))\<rparr>)" using assms(2) by (auto simp: sys_inv_def wf_core_def)
  then show ?thesis using sys_inv_shared [OF assms(2)] pooling(1) by simp
qed

lemma sys_inv_start: "wf_storage E st \<Longrightarrow> sys_inv E st (sys_start st)"
  by (simp add: sys_inv_def sys_start_def wf_storageD(1))

lemma sys_inv_run:
  assumes "sys_run E (sys_start st0) y" "wf_storage E st0"
  shows "sys_inv E st0 y"
  using assms(1) by (induction rule: rtranclp_induct) (simp_all add: sys_inv_start assms(2) sys_inv_step)

text \<open>Whenever nobody holds the lock the storage is well formed.\<close>

lemma sys_run_unlocked:
  assumes "sys_run E (sys_start st0) y" "wf_storage E st0" "holder y = None"
  obtains st where "apply_all (apply_block E) (history_log y) st0 = (Ok (), st)" "wf_storage E st"
    "db (shared y) = db st" "genesis (shared y) = genesis st" "wf_storage E (shared y)"
proof -
  obtain st where st: "apply_all (apply_block E) (history_log y) st0 = (Ok (), st)" "wf_storage E st"
    "genesis (shared y) = genesis st" "wf_core E (shared y)" "db (shared y) = db st"
    using sys_inv_run [OF assms(1,2)] assms(3) unfolding sys_inv_def by (elim exE conjE) blast
  then have "wf_storage E (shared y)" by (simp add: wf_storage_def)
  with st that show thesis by blast
qed

lemma block_at_representable:
  assumes "wf_storage E st" "block_at E (db st) h = Some b"
  shows "sql_u64 E h"
proof -
  note wf = wf_coreD(3,2) [OF wf_storageD(1) [OF assms(1)]]
  have "0 < unat h" "unat h \<le> length (chain E (db st))" using assms(2) block_at_iff [OF wf] by blast+
  then have "of_nat (Suc (unat h - 1)) = h" "unat h - 1 < length (history (db st))"
    by (simp, simp add: chain_def)
  with chain_nth(3) [OF wf, of "unat h - 1"] show ?thesis by simp
qed

end
