(* ===== verification/Steps_Live.thy ===== *)
theory Steps_Live
  imports Storage_Steps
begin

text \<open>
  What the interleaved tasks achieve: the notifier loses no wake-up, a call of \<open>apply_block\<close>
  is one of the runs, and the lock is always given back.
\<close>

section \<open>Notifications\<close>

text \<open>A task that has saved and will notify.\<close>

fun will_notify :: "'ss phase \<Rightarrow> bool" where
  "will_notify Saved = True"
| "will_notify (Reread s) = True"
| "will_notify p = False"

definition committing :: "('ss, 'us) sys \<Rightarrow> bool" where
  "committing y \<longleftrightarrow> (\<exists>i. will_notify (phase_of y i))"

definition wake_inv :: "('ss, 'us, 'sk) env \<Rightarrow> ('ss, 'us) sys \<Rightarrow> bool" where
  "wake_inv E y \<longleftrightarrow>
     (\<forall>j n. (waiter_of y j = Listening n \<or> waiter_of y j = Parked n \<longrightarrow> n \<le> new_block_notify (shared y)) \<and>
        (waiter_of y j = Parked n \<and> n = new_block_notify (shared y) \<longrightarrow>
           block_at E (db (shared y)) (waits_for y j) = None \<or> committing y))"

lemma committing_upd [simp]:
  "committing (y\<lparr>shared := sh\<rparr>) = committing y" "committing (y\<lparr>waiter_of := w\<rparr>) = committing y"
  "committing (y\<lparr>waits_for := f\<rparr>) = committing y"
  by (simp_all add: committing_def)

lemma wake_inv_shared:
  assumes "wake_inv E y" "db sh = db (shared y)" "new_block_notify sh = new_block_notify (shared y)"
  shows "wake_inv E (y\<lparr>shared := sh\<rparr>)"
  using assms by (simp add: wake_inv_def)

lemma committing_phase:
  assumes "committing y" "\<not> will_notify (phase_of y i)" "phase_of y' = (phase_of y)(i := p)"
  shows "committing y'"
proof -
  obtain k where "will_notify (phase_of y k)" using assms(1) by (auto simp: committing_def)
  then have "will_notify (phase_of y' k)" using assms(2,3) by (cases "k = i") simp_all
  then show ?thesis by (auto simp: committing_def)
qed

lemma wake_inv_apply_step:
  assumes "apply_step E y y'" "sys_inv E st0 y" "wake_inv E y"
  shows "wake_inv E y'"
  using assms(1)
proof (cases rule: apply_step.cases)
  case (acquire i blk cproof)
  then have "committing y \<Longrightarrow> committing y'" by (elim committing_phase [of _ i]) simp_all
  then show ?thesis using assms(3) acquire by (auto simp: wake_inv_def)
next
  case (check_ok i blk cproof tip st)
  note f = same_but_cache_fields [OF highest_state_spec(3) [OF sys_inv_core [OF assms(2)], unfolded check_ok(4) snd_conv]]
  have "committing y \<Longrightarrow> committing y'" using check_ok(1,2) by (elim committing_phase [of _ i]) simp_all
  then show ?thesis using assms(3) f by (auto simp: check_ok(1) wake_inv_def)
next
  case (check_fails i blk cproof tip st e)
  note f = same_but_cache_fields [OF highest_state_spec(3) [OF sys_inv_core [OF assms(2)], unfolded check_fails(4) snd_conv]]
  have "committing y \<Longrightarrow> committing y'" using check_fails(1,2) by (elim committing_phase [of _ i]) (simp_all add: release_def)
  then show ?thesis using assms(3) f by (auto simp: check_fails(1) wake_inv_def release_def)
next
  case (save_ok i blk cproof tabs)
  have "committing y'" unfolding committing_def save_ok(1) by (rule exI [of _ i]) simp
  then show ?thesis using assms(3) by (auto simp: save_ok(1) wake_inv_def)
next
  case (save_fails i blk cproof e)
  then have "committing y \<Longrightarrow> committing y'" by (elim committing_phase [of _ i]) (simp_all add: release_def)
  then show ?thesis using assms(3) by (auto simp: save_fails(1) wake_inv_def release_def)
next
  case (read_back i nxt st)
  note f = same_but_cache_fields [OF highest_state_spec(3) [OF sys_inv_core [OF assms(2)], unfolded read_back(3) snd_conv]]
  have "committing y'" unfolding committing_def read_back(1) by (rule exI [of _ i]) simp
  then show ?thesis using assms(3) f by (auto simp: read_back(1) wake_inv_def)
next
  case (finish i nxt)
  have "\<not> (waiter_of y j = Parked (Suc (new_block_notify (shared y))))" for j
    using assms(3) unfolding wake_inv_def by (meson Suc_n_not_le_n)
  then show ?thesis using assms(3) finish(1) by (auto simp: wake_inv_def release_def dest: le_SucI)
qed

lemma wake_inv_wait_step:
  assumes "wait_step E y y'" "sys_inv E st0 y" "wake_inv E y"
  shows "wake_inv E y'"
  using assms(1)
proof (cases rule: wait_step.cases)
  case (listen j h)
  then show ?thesis using assms(3) by (auto simp: wake_inv_def committing_def)
next
  case (found j n s st)
  note f = same_but_cache_fields [OF get_state_spec(2) [OF sys_inv_core [OF assms(2)], of "waits_for y j", unfolded found(3) snd_conv]]
  then show ?thesis using assms(3) by (auto simp: found(1) wake_inv_def committing_def)
next
  case (park j n st)
  note core = sys_inv_core [OF assms(2)]
  note gs = get_state_spec [OF core, of "waits_for y j", unfolded park(3) fst_conv snd_conv]
  have "block_at E (db (shared y)) (waits_for y j) = None"
    using gs(1) by (auto split: if_splits option.splits sum.splits)
  moreover have "n \<le> new_block_notify (shared y)" using assms(3) park(2) by (auto simp: wake_inv_def)
  ultimately show ?thesis
    using assms(3) same_but_cache_fields [OF gs(2)] by (auto simp: park(1) wake_inv_def committing_def)
next
  case (wake j n)
  then show ?thesis using assms(3) by (auto simp: wake_inv_def committing_def)
qed

lemma wake_inv_step:
  assumes "sys_step E y y'" "sys_inv E st0 y" "wake_inv E y"
  shows "wake_inv E y'"
  using assms(1)
proof (cases rule: sys_step.cases)
  case applying
  then show ?thesis using wake_inv_apply_step assms(2,3) by blast
next
  case waiting
  then show ?thesis using wake_inv_wait_step assms(2,3) by blast
next
  case (reading h r st)
  show ?thesis
    unfolding reading(1) by (rule wake_inv_shared [OF assms(3)])
      (use same_but_cache_fields [OF get_state_spec(2) [OF sys_inv_core [OF assms(2)], of h, unfolded reading(2) snd_conv]]
        in simp_all)
next
  case (dropping i)
  have "committing y \<Longrightarrow> committing y'"
    using dropping by (elim committing_phase [of _ i]) (auto simp: release_def)
  then show ?thesis using assms(3) by (auto simp: dropping(1) wake_inv_def release_def)
next
  case (leaving j)
  then show ?thesis using assms(3) by (auto simp: wake_inv_def committing_def)
next
  case (pooling tx)
  then show ?thesis using wake_inv_shared [OF assms(3)] by simp
qed

lemma wake_inv_run:
  assumes "sys_run E (sys_start st0) y" "wf_storage E st0"
  shows "wake_inv E y"
  using assms(1)
proof (induction rule: rtranclp_induct)
  case base
  then show ?case by (simp add: wake_inv_def sys_start_def)
next
  case (step y z)
  then show ?case using wake_inv_step sys_inv_run [OF _ assms(2)] by blast
qed

section \<open>The call as a run\<close>

text \<open>The function \<open>apply_block\<close> is the run of one task that nobody interrupts.\<close>

lemma checks_Ok:
  assumes "checks E tip blk cproof = Ok ()"
  shows "checked_add (height (header_of E tip)) 1 = Some (height (blk_header blk))"
    "check_consensus E (blk_header blk) cproof (stakes_iter E (raw_stakes E tip)) = Ok ()"
    "\<exists>s. stf_apply_block E tip blk = Inr s"
  using assms by (auto simp: checks_def Let_def bind_res_Ok split: if_splits)

lemma apply_block_steps:
  assumes "apply_block E (shared y) blk cproof = (Ok (), st')" "holder y = None" "phase_of y i = Idle"
  shows "sys_run E y (y\<lparr>shared := st', job_of := (job_of y)(i := (blk, cproof)),
     history_log := history_log y @ [(blk, cproof)]\<rparr>)"
proof -
  have "\<exists>tip s0 tabs nxt s1. highest_state E (shared y) = (Ok tip, s0) \<and> checks E tip blk cproof = Ok () \<and>
      save_block E blk cproof (db s0) = Inr tabs \<and> highest_state E (s0\<lparr>db := tabs\<rparr>) = (Ok nxt, s1) \<and>
      st' = s1\<lparr>mempool := rebase E nxt (mempool s1), new_block_notify := Suc (new_block_notify s1)\<rparr>"
    using assms(1) unfolding apply_block_def checks_def Let_def
    by (fastforce simp: bind_st_Ok bind_res_Ok split: if_splits)
  then obtain tip s0 tabs nxt s1 where run: "highest_state E (shared y) = (Ok tip, s0)"
    "checks E tip blk cproof = Ok ()" "save_block E blk cproof (db s0) = Inr tabs"
    "highest_state E (s0\<lparr>db := tabs\<rparr>) = (Ok nxt, s1)"
    "st' = s1\<lparr>mempool := rebase E nxt (mempool s1), new_block_notify := Suc (new_block_notify s1)\<rparr>"
    by blast
  define y1 where "y1 = y\<lparr>holder := Some i, phase_of := (phase_of y)(i := Holding), job_of := (job_of y)(i := (blk, cproof))\<rparr>"
  define y2 where "y2 = y1\<lparr>shared := s0, phase_of := (phase_of y1)(i := Checked)\<rparr>"
  define y3 where "y3 = y2\<lparr>shared := (shared y2)\<lparr>db := tabs\<rparr>, phase_of := (phase_of y2)(i := Saved)\<rparr>"
  define y4 where "y4 = y3\<lparr>shared := s1, phase_of := (phase_of y3)(i := Reread nxt)\<rparr>"
  have "apply_step E y y1" unfolding y1_def by (rule acquire [OF assms(2,3)])
  moreover have "apply_step E y1 y2"
    unfolding y2_def by (rule check_ok [OF _ _ _ run(2)]) (simp_all add: y1_def run(1))
  moreover have "apply_step E y2 y3"
    unfolding y3_def by (rule save_ok [of _ _ blk cproof]) (simp_all add: y2_def y1_def run(3))
  moreover have "apply_step E y3 y4"
    unfolding y4_def by (rule read_back) (simp_all add: y3_def y2_def run(4))
  moreover have "apply_step E y4 (y\<lparr>shared := st', job_of := (job_of y)(i := (blk, cproof)),
     history_log := history_log y @ [(blk, cproof)]\<rparr>)"
  proof -
    have "phase_of y4 i = Reread nxt" by (simp add: y4_def)
    from finish [OF this, of E] show ?thesis
      using assms(2,3) by (cases y) (simp add: y4_def y3_def y2_def y1_def release_def run(5) fun_upd_idem)
  qed
  ultimately show ?thesis by (meson applying converse_rtranclp_into_rtranclp rtranclp.rtrancl_refl)
qed

section \<open>The lock is given back\<close>

text \<open>The two places where a task that holds the lock aborts the process.\<close>

definition aborted :: "('ss, 'us, 'sk) env \<Rightarrow> ('ss, 'us) sys \<Rightarrow> bool" where
  "aborted E y \<longleftrightarrow>
     (\<exists>i tip p. phase_of y i = Holding \<and> top_state E (genesis (shared y)) (db (shared y)) = Some tip \<and>
        checks E tip (fst (job_of y i)) (snd (job_of y i)) = Panic p) \<or>
     (\<exists>i. phase_of y i = Saved \<and> top_state E (genesis (shared y)) (db (shared y)) = None)"

definition ends :: "('ss, 'us, 'sk) env \<Rightarrow> ('ss, 'us) sys \<Rightarrow> bool" where
  "ends E y \<longleftrightarrow> (\<exists>y'. (apply_step E)\<^sup>*\<^sup>* y y' \<and> (holder y' = None \<or> aborted E y'))"

lemma ends_step: "apply_step E y y' \<Longrightarrow> ends E y' \<Longrightarrow> ends E y"
  unfolding ends_def by (meson converse_rtranclp_into_rtranclp)

lemma ends_now: "holder y = None \<or> aborted E y \<Longrightarrow> ends E y"
  unfolding ends_def by blast

lemma count_votes_not_Hang: "count_votes E hdr cproof docs t p \<noteq> Hang"
  by (induction E hdr cproof docs t p rule: count_votes.induct)
    (auto simp: bind_res_def of_checked_def split: option.split res.split)

lemma checks_not_Hang: "checks E tip blk cproof \<noteq> Hang"
  using count_votes_not_Hang [of E "blk_header blk" cproof]
  by (auto simp: checks_def check_consensus_def Let_def bind_res_def of_checked_def of_sum_def
      split: option.split res.split sum.split prod.split)

lemma ends_Reread: "phase_of y i = Reread nxt \<Longrightarrow> ends E y"
  by (rule ends_step [OF finish]) (simp_all add: ends_now release_def)

lemma ends_Saved:
  assumes "phase_of y i = Saved" "wf_core E (shared y)"
  shows "ends E y"
proof (cases "top_state E (genesis (shared y)) (db (shared y))")
  case None
  then show ?thesis using assms(1) by (intro ends_now) (auto simp: aborted_def)
next
  case (Some nxt)
  then obtain st where h: "highest_state E (shared y) = (Ok nxt, st)"
    using highest_state_spec(1) [OF assms(2)] by (metis prod.collapse)
  show ?thesis by (rule ends_step [OF read_back [OF assms(1) h]], rule ends_Reread [of _ i nxt]) simp
qed

lemma ends_Checked:
  assumes "phase_of y i = Checked" "sys_inv E st0 y"
  shows "ends E y"
proof (cases "save_block E (fst (job_of y i)) (snd (job_of y i)) (db (shared y))")
  case (Inl e)
  show ?thesis
    by (rule ends_step [OF save_fails [OF assms(1) _ Inl]]) (simp_all add: ends_now release_def)
next
  case (Inr tabs)
  note step = save_ok [OF assms(1) _ Inr, OF prod.collapse [symmetric]]
  from sys_inv_core [OF sys_inv_apply_step [OF step assms(2)]]
  show ?thesis by (intro ends_step [OF step] ends_Saved [of _ i]) simp_all
qed

lemma ends_Holding:
  assumes "phase_of y i = Holding" "sys_inv E st0 y"
  shows "ends E y"
proof -
  note core = sys_inv_core [OF assms(2)]
  obtain s where h: "held E st0 y i Holding s" by (rule sys_invE [OF assms(2,1)]) simp
  then have s: "wf_storage E s" "genesis (shared y) = genesis s" "db (shared y) = db s"
    using heldD [OF h] by (simp_all add: phase_ok_def)
  then have "wf_storage E (shared y)" using core by (simp add: wf_storage_def)
  then obtain tip where tip: "top_state E (genesis (shared y)) (db (shared y)) = Some tip"
    using top_state_total by blast
  then obtain st where h: "highest_state E (shared y) = (Ok tip, st)"
    using highest_state_spec(1) [OF core] by (metis prod.collapse)
  note job = prod.collapse [of "job_of y i", symmetric]
  show ?thesis
  proof (cases "checks E tip (fst (job_of y i)) (snd (job_of y i))")
    case (Ok u)
    then have c: "checks E tip (fst (job_of y i)) (snd (job_of y i)) = Ok ()" by simp
    note step = check_ok [OF assms(1) job h c]
    show ?thesis
      by (rule ends_step [OF step], rule ends_Checked [of _ i, OF _ sys_inv_apply_step [OF step assms(2)]]) simp
  next
    case (Err e)
    show ?thesis by (rule ends_step [OF check_fails [OF assms(1) job h Err]]) (simp add: ends_now release_def)
  next
    case (Panic p)
    then show ?thesis using assms(1) tip by (intro ends_now) (auto simp: aborted_def)
  next
    case Hang
    then show ?thesis by (simp add: checks_not_Hang)
  qed
qed

lemma lock_ends:
  assumes "sys_inv E st0 y"
  shows "ends E y"
proof (cases "holder y")
  case None
  then show ?thesis by (simp add: ends_now)
next
  case (Some i)
  then obtain s where p: "phase_ok E s (shared y) (job_of y i) (phase_of y i)"
    using assms unfolding sys_inv_def by (elim exE conjE) blast
  show ?thesis
  proof (cases "phase_of y i")
    case Idle
    then show ?thesis using p by (simp add: phase_ok_def)
  next
    case Holding
    then show ?thesis using ends_Holding assms by blast
  next
    case Checked
    then show ?thesis using ends_Checked assms by blast
  next
    case Saved
    then show ?thesis using ends_Saved sys_inv_core [OF assms] by blast
  next
    case (Reread nxt)
    then show ?thesis by (rule ends_Reread)
  qed
qed

end
