(* ===== verification/Steps_Props.thy ===== *)
theory Steps_Props
  imports Steps_Live Example_Run
begin

text \<open>
  What holds however the tasks of the node take turns: the lock makes any run of appliers
  amount to calls one after the other, and a task that waits for a block is woken.
\<close>

section \<open>Appliers\<close>

text \<open>
  C3: However appliers, waiters, readers and transactions interleave, whenever nobody holds
  the lock the tables are those that calling \<open>apply_block\<close> on the finished blocks one after
  the other gives, every one of those calls succeeding, and the storage is well formed.
\<close>

theorem interleavings_serialise:
  assumes "wf_storage E st0" "sys_run E (sys_start st0) y" "holder y = None"
  shows "\<exists>st. apply_all (apply_block E) (history_log y) st0 = (Ok (), st) \<and> db (shared y) = db st \<and>
     wf_storage E (shared y) \<and>
     chain E (db (shared y)) = chain E (db st0) @ map fst (history_log y) \<and>
     proofs E (db (shared y)) = proofs E (db st0) @ map snd (history_log y)"
proof -
  obtain st where st: "apply_all (apply_block E) (history_log y) st0 = (Ok (), st)"
    "db (shared y) = db st" "wf_storage E (shared y)"
    by (rule sys_run_unlocked [OF assms(2,1,3)])
  with apply_all_proofs [OF assms(1) st(1)] store.apply_all_Ok [OF assms(1) st(1)]
  show ?thesis by auto
qed

text \<open>A run in which task 5 parks waiting for height 1 and task 3 then applies the block.\<close>

definition ex_parked :: "(ex_state, ex_state) sys" where
  "ex_parked = (sys_start ex_st0)\<lparr>waiter_of := (\<lambda>j. Away)(5 := Parked 0), waits_for := (\<lambda>j. 0)(5 := 1)\<rparr>"

definition ex_finished :: "(ex_state, ex_state) sys" where
  "ex_finished = ex_parked\<lparr>shared := ex_st1, job_of := (job_of ex_parked)(3 := (ex_b1, ex_proof [7] 1)),
     history_log := [(ex_b1, ex_proof [7] 1)]\<rparr>"

lemma ex_finished_run: "sys_run ex_env (sys_start ex_st0) ex_finished"
proof -
  define y where "y = (sys_start ex_st0 :: (ex_state, ex_state) sys)
    \<lparr>waiter_of := (\<lambda>j. Away)(5 := Listening 0), waits_for := (\<lambda>j. 0)(5 := 1)\<rparr>"
  have st0: "new_block_notify ex_st0 = 0" "old_cache ex_st0 = Map.empty"
    by (simp_all add: ex_st0_def storage_open_def)
  have "get_state ex_env ex_st0 1 = (Ok None, ex_st0)"
    by (simp add: get_state_def get_block_def get_block_once_def st0(2) ex_st0_db select_row_def autoretry_const)
  then have "wait_step ex_env y (y\<lparr>shared := ex_st0, waiter_of := (waiter_of y)(5 := Parked 0)\<rparr>)"
    by (intro park) (simp_all add: y_def sys_start_def)
  then have park: "wait_step ex_env y ex_parked"
    by (simp add: y_def sys_start_def ex_parked_def)
  have "wait_step ex_env (sys_start ex_st0) y"
    using listen [of "sys_start ex_st0" 5 ex_env 1] st0(1) by (simp add: sys_start_def y_def)
  then have "sys_run ex_env (sys_start ex_st0) ex_parked"
    using park by (meson waiting converse_rtranclp_into_rtranclp rtranclp.rtrancl_refl)
  moreover have "sys_run ex_env ex_parked ex_finished"
    using apply_block_steps [of ex_env ex_parked ex_b1 "ex_proof [7] 1" ex_st1 3] ex_apply1
    by (simp add: ex_finished_def ex_parked_def sys_start_def)
  ultimately show ?thesis by (rule rtranclp_trans)
qed

lemma ex_finished_fields:
  "holder ex_finished = None" "shared ex_finished = ex_st1" "waiter_of ex_finished 5 = Parked 0"
  "waits_for ex_finished 5 = 1" "history_log ex_finished = [(ex_b1, ex_proof [7] 1)]"
  by (simp_all add: ex_finished_def ex_parked_def sys_start_def)

lemma interleavings_serialise_witness:
  "proofs ex_env (db (shared ex_finished)) = [ex_proof [7] 1]"
proof -
  have "proofs ex_env (db ex_st0) = []" by (simp add: proofs_def ex_st0_db)
  then show ?thesis
    using interleavings_serialise [OF ex_st0_wf ex_finished_run ex_finished_fields(1)]
    by (auto simp: ex_finished_fields(5))
qed



section \<open>Waiters\<close>

text \<open>
  C17: No notification is lost: when the block a parked task waits for is in the tables and
  no applier is at work, the task has been notified since it began to listen, and from
  there its own steps lead it to return, without any further block.
\<close>

theorem no_lost_wakeup:
  assumes "wf_storage E st0" "sys_run E (sys_start st0) y" "holder y = None"
    and "waiter_of y j = Parked n" "block_at E (db (shared y)) (waits_for y j) = Some b"
  shows "n < new_block_notify (shared y) \<and>
     (\<exists>y'. (wait_step E)\<^sup>*\<^sup>* y y' \<and> waiter_of y' j = Away \<and> db (shared y') = db (shared y))"
proof
  have "phase_of y i = Idle" for i
    using sys_inv_run [OF assms(2,1)] assms(3) unfolding sys_inv_def by (elim exE conjE) auto
  then have "\<not> committing y" by (simp add: committing_def)
  then show n: "n < new_block_notify (shared y)"
    using wake_inv_run [OF assms(2,1)] assms(4,5) unfolding wake_inv_def by (metis option.distinct(1) order_le_neq_trans)
  have wf: "wf_storage E (shared y)" by (rule sys_run_unlocked [OF assms(2,1,3)])
  obtain s st where g: "get_state E (shared y) (waits_for y j) = (Ok (Some s), st)"
    using get_state_total [OF wf block_at_representable [OF wf assms(5)]] assms(5) by (metis option.distinct(1) prod.collapse)
  have same: "db st = db (shared y)"
    using same_but_cache_fields(1) [OF get_state_spec(2) [OF wf_storageD(1) [OF wf], of "waits_for y j"]] g by simp
  let ?m = "new_block_notify (shared y)"
  let ?y1 = "y\<lparr>waiter_of := (waiter_of y)(j := Listening ?m)\<rparr>"
  have "wait_step E y ?y1" by (rule wake [OF assms(4) n])
  moreover have "wait_step E ?y1 (?y1\<lparr>shared := st, waiter_of := (waiter_of ?y1)(j := Away)\<rparr>)"
    by (rule found) (use g in simp_all)
  ultimately have "(wait_step E)\<^sup>*\<^sup>* y (?y1\<lparr>shared := st, waiter_of := (waiter_of ?y1)(j := Away)\<rparr>)"
    by (meson converse_rtranclp_into_rtranclp rtranclp.rtrancl_refl)
  then show "\<exists>y'. (wait_step E)\<^sup>*\<^sup>* y y' \<and> waiter_of y' j = Away \<and> db (shared y') = db (shared y)"
    using same by (intro exI conjI) (assumption, simp_all)
qed

lemma no_lost_wakeup_witness:
  "\<exists>y'. (wait_step ex_env)\<^sup>*\<^sup>* ex_finished y' \<and> waiter_of y' 5 = Away \<and> db (shared y') = ex_tabs1"
proof -
  have "block_at ex_env (db ex_st1) 1 = Some ex_b1"
    using block_at_iff [OF wf_coreD(3,2) [OF wf_storageD(1) [OF ex_st1_wf]], of 1 ex_b1] by (simp add: ex_st1_chain)
  then show ?thesis
    using no_lost_wakeup [OF ex_st0_wf ex_finished_run ex_finished_fields(1,3), of ex_b1]
    by (simp add: ex_finished_fields ex_st1_db)
qed

end
