(* ===== verification/Read_Steps.thy ===== *)
theory Read_Steps
  imports Storage_Steps
begin

text \<open>
  \<open>get_state\<close> as a task that can be interrupted between its lookup in the block cache, its
  query of the history, its insertion into the cache and its query of the stakes, while
  appliers, waiters, other readers and transactions go on. A reader takes no lock.
\<close>

section \<open>Readers\<close>

text \<open>
  Where a reader of a height is: before the cache lookup, before the query, before the
  insertion into the cache, after \<open>get_block\<close>, at its end.
\<close>

datatype 'ss reader =
    Resting
  | Asking u64
  | Querying u64
  | Fetched u64 block
  | Located u64 block
  | Answered u64 "'ss option res"

text \<open>\<open>asked_of\<close> is a ghost: the storage at the time the reader was asked.\<close>

record ('ss, 'us) rsys =
  node :: "('ss, 'us) sys"
  reader_of :: "nat \<Rightarrow> 'ss reader"
  asked_of :: "nat \<Rightarrow> 'us storage"

text \<open>The query of \<open>get_block\<close> and the reading of the blob it gives.\<close>

definition query_block :: "('ss, 'us, 'sk) env \<Rightarrow> db_tables \<Rightarrow> u64 \<Rightarrow> err + block option" where
  "query_block E tabs h =
     (if \<not> sql_u64 E h then Inl SqlParam
      else (case select_row (history tabs) h of
          None \<Rightarrow> Inr None
        | Some (_, block_blob) \<Rightarrow> (case dec_block E block_blob of
              None \<Rightarrow> Inl Deser
            | Some b \<Rightarrow> Inr (Some b))))"

text \<open>What a reader does until it is interrupted next; an error goes back to the start of \<open>autoretry\<close>.\<close>

fun reader_turn ::
  "('ss, 'us, 'sk) env \<Rightarrow> 'us storage \<Rightarrow> 'ss reader \<Rightarrow> 'ss reader \<times> 'us storage" where
  "reader_turn E sh (Asking h) =
     (case old_cache sh h of Some val \<Rightarrow> (Located h val, sh) | None \<Rightarrow> (Querying h, sh))"
| "reader_turn E sh (Querying h) =
     (case query_block E (db sh) h of
        Inl e \<Rightarrow> (Asking h, sh)
      | Inr None \<Rightarrow> (Answered h (Ok None), sh)
      | Inr (Some b) \<Rightarrow> (Fetched h b, sh))"
| "reader_turn E sh (Fetched h b) =
     (Located h b, sh\<lparr>old_cache := cache_put (evict_blocks E (old_cache sh) h) h b (old_cache sh)\<rparr>)"
| "reader_turn E sh (Located h b) =
     (case stakeset_once E (genesis sh) (stakes (db sh)) h of
        Inl e \<Rightarrow> (Located h b, sh)
      | Inr stakeset \<Rightarrow>
          (Answered h (if stakes_root_hash E stakeset = stakes_hash (blk_header b)
                       then Ok (Some (from_block E b stakeset)) else Panic Assertion), sh))"
| "reader_turn E sh r = (r, sh)"

fun reader_turns ::
  "('ss, 'us, 'sk) env \<Rightarrow> nat \<Rightarrow> 'ss reader \<times> 'us storage \<Rightarrow> 'ss reader \<times> 'us storage" where
  "reader_turns E 0 x = x"
| "reader_turns E (Suc n) (r, sh) = reader_turns E n (reader_turn E sh r)"

text \<open>A reader leaves with its answer, or because its caller drops it.\<close>

inductive read_step ::
  "('ss, 'us, 'sk) env \<Rightarrow> ('ss, 'us) rsys \<Rightarrow> ('ss, 'us) rsys \<Rightarrow> bool" for E where
  others: "sys_step E (node z) y \<Longrightarrow> read_step E z (z\<lparr>node := y\<rparr>)"
| ask: "reader_of z i = Resting \<Longrightarrow> read_step E z
    (z\<lparr>reader_of := (reader_of z)(i := Asking h), asked_of := (asked_of z)(i := shared (node z))\<rparr>)"
| turn: "reader_turn E (shared (node z)) (reader_of z i) = (r, sh) \<Longrightarrow> read_step E z
    (z\<lparr>node := (node z)\<lparr>shared := sh\<rparr>, reader_of := (reader_of z)(i := r)\<rparr>)"
| leave: "read_step E z (z\<lparr>reader_of := (reader_of z)(i := Resting)\<rparr>)"

definition rsys_start :: "'us storage \<Rightarrow> ('ss, 'us) rsys" where
  "rsys_start st = \<lparr>node = sys_start st, reader_of = (\<lambda>i. Resting), asked_of = (\<lambda>i. st)\<rparr>"

abbreviation read_run :: "('ss, 'us, 'sk) env \<Rightarrow> ('ss, 'us) rsys \<Rightarrow> ('ss, 'us) rsys \<Rightarrow> bool" where
  "read_run E \<equiv> (read_step E)\<^sup>*\<^sup>*"

lemma others_run:
  assumes "sys_run E (node z) y"
  shows "read_run E z (z\<lparr>node := y\<rparr>)"
  using assms
proof (induction rule: rtranclp_induct)
  case base
  then show ?case by simp
next
  case (step y y')
  then have "read_step E (z\<lparr>node := y\<rparr>) (z\<lparr>node := y'\<rparr>)" using others [of E "z\<lparr>node := y\<rparr>" y'] by simp
  with step.IH show ?case by (rule rtranclp.rtrancl_into_rtrancl)
qed

lemma turns_run:
  "reader_turns E n (reader_of z i, shared (node z)) = (r, sh) \<Longrightarrow>
     read_run E z (z\<lparr>node := (node z)\<lparr>shared := sh\<rparr>, reader_of := (reader_of z)(i := r)\<rparr>)"
proof (induction n arbitrary: z)
  case 0
  then have "z = z\<lparr>node := (node z)\<lparr>shared := sh\<rparr>, reader_of := (reader_of z)(i := r)\<rparr>" by auto
  then show ?case by (metis rtranclp.rtrancl_refl)
next
  case (Suc n)
  obtain r1 sh1 where t: "reader_turn E (shared (node z)) (reader_of z i) = (r1, sh1)"
    by (cases "reader_turn E (shared (node z)) (reader_of z i)")
  let ?z1 = "z\<lparr>node := (node z)\<lparr>shared := sh1\<rparr>, reader_of := (reader_of z)(i := r1)\<rparr>"
  have first: "read_step E z ?z1" by (rule turn [OF t])
  have "reader_turns E n (reader_of ?z1 i, shared (node ?z1)) = (r, sh)" using Suc.prems t by simp
  note Suc.IH [OF this]
  moreover have "(reader_of z)(i := r1, i := r) = (reader_of z)(i := r)" by simp
  ultimately have "read_run E ?z1 (z\<lparr>node := (node z)\<lparr>shared := sh\<rparr>, reader_of := (reader_of z)(i := r)\<rparr>)"
    by (simp del: fun_upd_upd fun_upd_apply)
  with first show ?case by (rule converse_rtranclp_into_rtranclp)
qed

section \<open>A reader alone\<close>

lemma get_block_once_query:
  "get_block_once E sh h = (case old_cache sh h of Some b \<Rightarrow> Inr (Some b) | None \<Rightarrow> query_block E (db sh) h)"
  by (simp add: get_block_once_def query_block_def split: option.split)

lemma query_block_eq:
  assumes "wf_core E sh"
  shows "query_block E (db sh) h = (if sql_u64 E h then Inr (block_at E (db sh) h) else Inl SqlParam)"
proof -
  note wf = wf_coreD [OF assms]
  have "\<exists>b. dec_block E blob = Some b" if sel: "select_row (history (db sh)) h = Some (x, blob)" for x blob
    using wf_db_row [OF wf(3,2) map_of_SomeD [OF sel [unfolded select_row_def]]] by auto
  then show ?thesis by (auto simp: query_block_def block_at_def split: option.split)
qed

lemma cache_hit_true:
  assumes "wf_core E sh" "old_cache sh h = Some b"
  shows "block_at E (db sh) h = Some b"
  by (rule cache.hit_true [OF wf_coreD(5) [OF assms(1)] assms(2)])

lemma reader_alone_hit:
  assumes "wf_storage E sh" "sql_u64 E h" "old_cache sh h = Some b"
  shows "reader_turns E 4 (Asking h, sh) = (Answered h (fst (get_state E sh h)), snd (get_state E sh h))"
proof -
  note core = wf_storageD(1) [OF assms(1)]
  have b: "block_at E (db sh) h = Some b" by (rule cache_hit_true [OF core assms(3)])
  have g: "get_block E sh h = (Ok (Some b), sh)"
    using assms(2) b get_block_spec(1) [OF core, of h] assms(3)
    by (simp add: get_block_def Let_def prod_eq_iff)
  obtain sk where sk: "stakeset_once E (genesis sh) (stakes (db sh)) h = Inr sk"
    using get_state_total [OF assms(1,2)] get_state_spec(1) [OF core, of h] assms(2) b
    by (auto split: sum.splits)
  show ?thesis
    by (simp add: numeral_eq_Suc assms(3) sk get_state_def g get_stakeset_def autoretry_const)
qed

lemma reader_alone_miss:
  assumes "wf_storage E sh" "sql_u64 E h" "old_cache sh h = None"
  shows "reader_turns E 4 (Asking h, sh) = (Answered h (fst (get_state E sh h)), snd (get_state E sh h))"
proof -
  note core = wf_storageD(1) [OF assms(1)]
  note q = query_block_eq [OF core, of h]
  show ?thesis
  proof (cases "block_at E (db sh) h")
    case None
    then show ?thesis
      using assms(2) q by (simp add: numeral_eq_Suc assms(3) get_state_def get_block_def
          get_block_once_query autoretry_const Let_def)
  next
    case (Some b)
    obtain sk where sk: "stakeset_once E (genesis sh) (stakes (db sh)) h = Inr sk"
      using get_state_total [OF assms(1,2)] get_state_spec(1) [OF core, of h] assms(2) Some
      by (auto split: sum.splits)
    show ?thesis
      using assms(2) q sk by (simp add: numeral_eq_Suc assms(3) Some get_state_def get_block_def
          get_block_once_query autoretry_const Let_def get_stakeset_def)
  qed
qed

section \<open>Tables that only grow\<close>

text \<open>
  What every step of the node does to the tables: a stored block stays, and so do the stakes
  as of its height.
\<close>

definition keeps_rows :: "('ss, 'us, 'sk) env \<Rightarrow> 'us storage \<Rightarrow> 'us storage \<Rightarrow> bool" where
  "keeps_rows E a b \<longleftrightarrow> genesis b = genesis a \<and>
     (\<forall>h x. block_at E (db a) h = Some x \<longrightarrow> block_at E (db b) h = Some x \<and>
        stakeset_once E (genesis a) (stakes (db b)) h = stakeset_once E (genesis a) (stakes (db a)) h)"

lemma keeps_rows_same: "db b = db a \<Longrightarrow> genesis b = genesis a \<Longrightarrow> keeps_rows E a b"
  by (simp add: keeps_rows_def)

lemma keeps_rows_trans: "keeps_rows E a b \<Longrightarrow> keeps_rows E b c \<Longrightarrow> keeps_rows E a c"
  unfolding keeps_rows_def by metis

lemma keeps_rows_save:
  assumes "wf_core E sh" "save_block E blk cproof (db sh) = Inr tabs"
    "unat (height (blk_header blk)) = Suc (length (chain E (db sh)))"
  shows "keeps_rows E sh (sh\<lparr>db := tabs\<rparr>)"
proof -
  note wf = wf_coreD [OF assms(1)]
  obtain rows where rows: "stakes tabs = stakes (db sh) @ rows"
    "\<forall>r \<in> set rows. fst (snd r) = height (blk_header blk)"
    using save_stakes_rows [OF save_block_Inr(3) [OF assms(2)]] by blast
  have "h < height (blk_header blk)" if "block_at E (db sh) h = Some x" for h x
    using that block_at_iff [OF wf(3,2), of h x] assms(3) by (simp add: word_less_nat_alt)
  then show ?thesis
    using stakeset_once_later [of rows] rows block_at_save [OF assms(2) wf(2)]
    by (fastforce simp: keeps_rows_def)
qed

lemma keeps_rows_get_state:
  assumes "wf_core E a" "wf_core E b" "keeps_rows E a b" "block_at E (db a) h = Some x"
  shows "fst (get_state E b h) = fst (get_state E a h)"
  using assms(3,4)
  by (simp add: get_state_spec(1) [OF assms(1)] get_state_spec(1) [OF assms(2)] keeps_rows_def split: option.split)

lemma keeps_rows_get_state_same:
  "wf_core E sh \<Longrightarrow> get_state E sh h = (r, st) \<Longrightarrow> keeps_rows E sh st"
  using same_but_cache_fields [OF get_state_spec(2), of E sh h] by (simp add: keeps_rows_same)

lemma keeps_rows_highest_state:
  "wf_core E sh \<Longrightarrow> highest_state E sh = (r, st) \<Longrightarrow> keeps_rows E sh st"
  using same_but_cache_fields [OF highest_state_spec(3), of E sh] by (simp add: keeps_rows_same)

lemma apply_step_keeps_rows:
  assumes "apply_step E y y'" "sys_inv E st0 y"
  shows "keeps_rows E (shared y) (shared y')"
  using assms(1)
proof (cases rule: apply_step.cases)
  case (save_ok i blk cproof tabs)
  obtain s where h: "held E st0 y i Checked s" by (rule sys_invE [OF assms(2) save_ok(2)]) simp
  have "unat (height (blk_header blk)) = Suc (length (chain E (db (shared y))))"
    using heldD(4) [OF h] save_ok(3) by (auto simp: phase_ok_def admissible_def)
  from keeps_rows_save [OF heldD(2) [OF h] save_ok(4) this] show ?thesis by (simp add: save_ok(1))
qed (use keeps_rows_highest_state [OF sys_inv_core [OF assms(2)]] in \<open>simp_all add: release_def keeps_rows_same\<close>)

lemma wait_step_keeps_rows:
  assumes "wait_step E y y'" "wf_core E (shared y)"
  shows "keeps_rows E (shared y) (shared y')"
  using assms(1)
  by (cases rule: wait_step.cases) (use keeps_rows_get_state_same [OF assms(2)] in \<open>simp_all add: keeps_rows_same\<close>)

lemma sys_step_keeps_rows:
  assumes "sys_step E y y'" "sys_inv E st0 y"
  shows "keeps_rows E (shared y) (shared y')"
  using assms(1)
  by (cases rule: sys_step.cases)
    (use apply_step_keeps_rows [OF _ assms(2)] wait_step_keeps_rows [OF _ sys_inv_core [OF assms(2)]]
      keeps_rows_get_state_same [OF sys_inv_core [OF assms(2)]] in \<open>simp_all add: keeps_rows_same release_def\<close>)

section \<open>The invariant of the readers\<close>

text \<open>
  What a reader that was asked in the storage \<open>a\<close> has found out, \<open>sh\<close> being the storage now:
  a block it holds is in the tables now, an answer \<open>None\<close> was right when it was asked, any
  other answer is right now.
\<close>

definition reader_ok ::
  "('ss, 'us, 'sk) env \<Rightarrow> 'us storage \<Rightarrow> 'us storage \<Rightarrow> 'ss reader \<Rightarrow> bool" where
  "reader_ok E a sh r \<longleftrightarrow> wf_core E a \<and> keeps_rows E a sh \<and>
     (case r of
        Fetched h b \<Rightarrow> block_at E (db sh) h = Some b \<and> sql_u64 E h
      | Located h b \<Rightarrow> block_at E (db sh) h = Some b \<and> sql_u64 E h
      | Answered h x \<Rightarrow>
          (if x = Ok None then fst (get_state E a h) = Ok None
           else (\<exists>b. block_at E (db sh) h = Some b) \<and> fst (get_state E sh h) = x)
      | _ \<Rightarrow> True)"

lemma reader_ok_mono:
  assumes "reader_ok E a sh r" "wf_core E sh" "wf_core E sh'" "keeps_rows E sh sh'"
  shows "reader_ok E a sh' r"
proof -
  have stays: "block_at E (db sh') h = Some b" if "block_at E (db sh) h = Some b" for h b
    using assms(4) that by (simp add: keeps_rows_def)
  show ?thesis
    using assms(1) stays keeps_rows_get_state [OF assms(2-4)] keeps_rows_trans [OF _ assms(4)]
    unfolding reader_ok_def by (cases r) (auto split: if_splits)
qed

lemma cached_representable:
  assumes "wf_core E sh" "block_at E (db sh) h = Some b"
  shows "sql_u64 E h"
proof -
  note wf = wf_coreD(3,2) [OF assms(1)]
  have "0 < unat h" "unat h \<le> length (chain E (db sh))" using assms(2) block_at_iff [OF wf] by blast+
  then have "of_nat (Suc (unat h - 1)) = h" "unat h - 1 < length (history (db sh))"
    by (simp, simp add: chain_def)
  with chain_nth(3) [OF wf, of "unat h - 1"] show ?thesis by simp
qed

lemma reader_turn_cache:
  assumes "wf_core E sh" "reader_ok E a sh r" "reader_turn E sh r = (r', sh')"
  shows "same_but_cache sh sh' \<and> wf_core E sh'"
proof (cases r)
  case (Fetched h b)
  have "block_at E (db sh) h = Some b" using assms(2) by (simp add: reader_ok_def Fetched)
  then have "coherent (\<lambda>h b. block_at E (db sh) h = Some b)
      (cache_put (evict_blocks E (old_cache sh) h) h b (old_cache sh))"
    using wf_coreD(5) [OF assms(1)] by (intro cache.put_coherent)
  then show ?thesis using assms(1,3) by (auto simp: Fetched wf_core_def)
qed (use assms(1,3) in \<open>auto split: option.splits sum.splits\<close>)

lemma reader_turn_ok:
  assumes "wf_core E sh" "reader_ok E a sh r" "reader_turn E sh r = (r', sh')"
  shows "reader_ok E a sh' r'"
proof -
  note cache = reader_turn_cache [OF assms]
  note f = same_but_cache_fields [OF conjunct1 [OF cache]]
  have k: "wf_core E a" "keeps_rows E a sh" using assms(2) by (simp_all add: reader_ok_def)
  show ?thesis
  proof (cases r)
    case (Asking h)
    then show ?thesis
      using assms(3) k cache_hit_true [OF assms(1)] cached_representable [OF assms(1)]
      by (auto simp: reader_ok_def split: option.splits)
  next
    case (Querying h)
    have "block_at E (db a) h = None" if "block_at E (db sh) h = None"
      using k(2) that by (cases "block_at E (db a) h") (auto simp: keeps_rows_def)
    then show ?thesis
      using assms(3) k by (auto simp: Querying query_block_eq [OF assms(1)] reader_ok_def
          get_state_spec(1) [OF k(1)] split: if_splits option.splits)
  next
    case (Located h b)
    note found = assms(2) [unfolded Located reader_ok_def reader.case]
    show ?thesis
    proof (cases "stakeset_once E (genesis sh) (stakes (db sh)) h")
      case (Inl e)
      then show ?thesis using assms(2,3) by (simp add: Located)
    next
      case (Inr sk)
      let ?x = "if stakes_root_hash E sk = stakes_hash (blk_header b)
                then Ok (Some (from_block E b sk)) else Panic Assertion"
      have g: "fst (get_state E sh h) = ?x"
        using found Inr by (simp add: get_state_spec(1) [OF assms(1)])
      have "sh' = sh" "r' = Answered h ?x" using assms(3) Inr by (simp_all add: Located)
      then have "sh' = sh" "r' = Answered h (fst (get_state E sh h))" "fst (get_state E sh h) \<noteq> Ok None"
        using g by simp_all
      then show ?thesis using found by (simp add: reader_ok_def)
    qed
  next
    case (Fetched h b)
    have "r' = Located h b" using assms(3) by (auto simp: Fetched)
    then show ?thesis using assms(2) f(1,2) by (simp add: Fetched reader_ok_def keeps_rows_def)
  qed (use assms(2,3) in simp_all)
qed

text \<open>The height a reader in the middle of its call is at work on.\<close>

fun asks_for :: "'ss reader \<Rightarrow> u64 option" where
  "asks_for (Asking h) = Some h"
| "asks_for (Querying h) = Some h"
| "asks_for (Fetched h b) = Some h"
| "asks_for (Located h b) = Some h"
| "asks_for r = None"

lemma located_ends:
  assumes "wf_storage E sh" "sql_u64 E h" "block_at E (db sh) h = Some b" "0 < n"
  shows "\<exists>s. reader_turns E n (Located h b, sh) = (Answered h (Ok (Some s)), sh)"
proof -
  note g = get_state_spec(1) [OF wf_storageD(1) [OF assms(1)], of h]
  obtain s where s: "fst (get_state E sh h) = Ok (Some s)"
    using get_state_total [OF assms(1,2)] assms(3) by auto
  then obtain sk where "stakeset_once E (genesis sh) (stakes (db sh)) h = Inr sk"
    "stakes_root_hash E sk = stakes_hash (blk_header b)"
    using g assms(2,3) by (auto split: sum.splits if_splits)
  moreover have "reader_turns E k (Answered h x, sh) = (Answered h x, sh)" for k and x :: "'a option res"
    by (induction k) simp_all
  ultimately show ?thesis using assms(4) by (cases n) simp_all
qed

lemma fetched_ends:
  assumes "wf_storage E sh" "sql_u64 E h" "block_at E (db sh) h = Some b" "1 < n"
  shows "\<exists>s sh'. reader_turns E n (Fetched h b, sh) = (Answered h (Ok (Some s)), sh')"
proof -
  note core = wf_storageD(1) [OF assms(1)]
  let ?sh = "sh\<lparr>old_cache := cache_put (evict_blocks E (old_cache sh) h) h b (old_cache sh)\<rparr>"
  have "reader_ok E sh sh (Fetched h b)" using core assms(2,3) by (simp add: reader_ok_def keeps_rows_same)
  from reader_turn_cache [OF core this] have "wf_core E ?sh" by simp
  from wf_storage_same [OF _ this assms(1)] have wf: "wf_storage E ?sh" by simp
  obtain m where "n = Suc m" "0 < m" using assms(4) by (cases n) auto
  with located_ends [OF wf assms(2), of b m] assms(3) show ?thesis by auto
qed

lemma querying_ends:
  assumes "wf_storage E sh" "sql_u64 E h" "block_at E (db sh) h = Some b" "2 < n"
  shows "\<exists>s sh'. reader_turns E n (Querying h, sh) = (Answered h (Ok (Some s)), sh')"
proof -
  obtain m where "n = Suc m" "1 < m" using assms(4) by (cases n) auto
  with fetched_ends [OF assms(1-3), of m] query_block_eq [OF wf_storageD(1) [OF assms(1)], of h] assms(2,3)
  show ?thesis by simp
qed

lemma unfinished_ends:
  assumes "wf_storage E sh" "reader_ok E a sh r" "asks_for r = Some h" "sql_u64 E h"
  shows "\<exists>x sh'. reader_turns E 4 (r, sh) = (Answered h (Ok x), sh')"
proof (cases r)
  case (Asking h')
  then have "reader_turns E 4 (r, sh) = (Answered h (fst (get_state E sh h)), snd (get_state E sh h))"
    using reader_alone_hit [OF assms(1,4)] reader_alone_miss [OF assms(1,4)] assms(3)
    by (cases "old_cache sh h") simp_all
  then show ?thesis using get_state_total [OF assms(1,4)] by auto
next
  case (Querying h')
  show ?thesis
  proof (cases "block_at E (db sh) h")
    case None
    then show ?thesis
      using assms(3,4) query_block_eq [OF wf_storageD(1) [OF assms(1)], of h] by (simp add: Querying numeral_eq_Suc)
  next
    case (Some b)
    then show ?thesis using querying_ends [OF assms(1,4), of b 4] assms(3) Querying by auto
  qed
next
  case (Fetched h' b)
  then show ?thesis using fetched_ends [OF assms(1,4), of b 4] assms(2,3) by (auto simp: reader_ok_def)
next
  case (Located h' b)
  then show ?thesis using located_ends [OF assms(1,4), of b 4] assms(2,3) by (auto simp: reader_ok_def)
qed (use assms(3) in simp_all)

definition read_inv :: "('ss, 'us, 'sk) env \<Rightarrow> 'us storage \<Rightarrow> ('ss, 'us) rsys \<Rightarrow> bool" where
  "read_inv E st0 z \<longleftrightarrow> sys_inv E st0 (node z) \<and>
     (\<forall>i. reader_of z i \<noteq> Resting \<longrightarrow> reader_ok E (asked_of z i) (shared (node z)) (reader_of z i))"

lemma read_inv_step:
  assumes "read_step E z z'" "read_inv E st0 z"
  shows "read_inv E st0 z'"
proof -
  note inv = assms(2) [unfolded read_inv_def]
  note core = sys_inv_core [OF conjunct1 [OF inv]]
  from assms(1) show ?thesis
  proof (cases rule: read_step.cases)
    case (others y)
    note y = sys_inv_step [OF others(2) conjunct1 [OF inv]]
    from reader_ok_mono [OF _ core sys_inv_core [OF y] sys_step_keeps_rows [OF others(2) conjunct1 [OF inv]]]
    show ?thesis using inv y by (simp add: others(1) read_inv_def)
  next
    case (ask i h)
    then show ?thesis using inv core by (simp add: read_inv_def reader_ok_def keeps_rows_same)
  next
    case (turn i r sh)
    show ?thesis
    proof (cases "reader_of z i = Resting")
      case True
      then show ?thesis using inv turn by (auto simp: read_inv_def)
    next
      case False
      then have ok: "reader_ok E (asked_of z i) (shared (node z)) (reader_of z i)" using inv by blast
      note c = reader_turn_cache [OF core ok turn(2)]
      note f = same_but_cache_fields [OF conjunct1 [OF c]]
      have "sys_inv E st0 ((node z)\<lparr>shared := sh\<rparr>)"
        by (rule sys_inv_shared [OF conjunct1 [OF inv] f(1,2) conjunct2 [OF c]])
      moreover have "reader_ok E (asked_of z j) sh (reader_of z j)" if "reader_of z j \<noteq> Resting" for j
        by (rule reader_ok_mono [OF _ core conjunct2 [OF c] keeps_rows_same [OF f(1,2)]]) (use inv that in blast)
      ultimately show ?thesis
        using reader_turn_ok [OF core ok turn(2)] by (simp add: turn(1) read_inv_def)
    qed
  next
    case (leave i)
    then show ?thesis using inv by (simp add: read_inv_def)
  qed
qed

lemma read_inv_run:
  assumes "read_run E (rsys_start st0) z" "wf_storage E st0"
  shows "read_inv E st0 z"
  using assms(1)
proof (induction rule: rtranclp_induct)
  case base
  then show ?case by (simp add: read_inv_def rsys_start_def sys_inv_start assms(2))
next
  case (step z z')
  then show ?case by (simp add: read_inv_step)
qed

end
