(* ===== verification/Read_Props.thy ===== *)
theory Read_Props
  imports Read_Steps Steps_Live Example_Run
begin

text \<open>
  What a reader of states gets while blocks are being applied: the answer of one atomic
  \<open>get_state\<close> at some moment of the call, in a bounded number of its own turns.
\<close>

text \<open>
  C4: Reads linearise. Whatever appliers, waiters, transactions and other readers do between
  the cache lookup, the query, the cache insertion and the stakes query of a \<open>get_state\<close>, an
  answer of "no such block" is what \<open>get_state\<close> alone would have answered when the call
  began, and every other answer is what it would answer at the end of the call.
\<close>

theorem reads_linearise:
  assumes "wf_storage E st0" "read_run E (rsys_start st0) z" "reader_of z i = Answered h r"
  shows "r = fst (get_state E (if r = Ok None then asked_of z i else shared (node z)) h)"
proof -
  have "reader_ok E (asked_of z i) (shared (node z)) (Answered h r)"
    using read_inv_run [OF assms(2,1)] assms(3) unfolding read_inv_def by (metis reader.distinct(9))
  then show ?thesis by (simp add: reader_ok_def split: if_splits)
qed

text \<open>
  Reader 0 is asked for height 1 on the empty chain and misses the cache; task 3 then
  applies the block; the query of the reader finds it.
\<close>

definition ex_missed :: "(ex_state, ex_state) rsys" where
  "ex_missed = (rsys_start ex_st0)\<lparr>reader_of := (\<lambda>i. Resting)(0 := Querying 1)\<rparr>"

definition ex_overtaken :: "(ex_state, ex_state) rsys" where
  "ex_overtaken = ex_missed\<lparr>node := (sys_start ex_st0)\<lparr>shared := ex_st1,
     job_of := (job_of (sys_start ex_st0 :: (ex_state, ex_state) sys))(3 := (ex_b1, ex_proof [7] 1)),
     history_log := [(ex_b1, ex_proof [7] 1)]\<rparr>\<rparr>"

lemma ex_overtaken_run: "read_run ex_env (rsys_start ex_st0) ex_overtaken"
proof -
  let ?z = "rsys_start ex_st0 :: (ex_state, ex_state) rsys"
  let ?z1 = "?z\<lparr>reader_of := (reader_of ?z)(0 := Asking 1), asked_of := (asked_of ?z)(0 := shared (node ?z))\<rparr>"
  have "read_step ex_env ?z ?z1" by (rule ask) (simp add: rsys_start_def)
  moreover have "read_step ex_env ?z1 ex_missed"
  proof -
    have "reader_turn ex_env (shared (node ?z1)) (reader_of ?z1 0) = (Querying 1, ex_st0)"
      by (simp add: rsys_start_def sys_start_def ex_st0_def storage_open_def)
    from turn [OF this] have "read_step ex_env ?z1 (?z1\<lparr>node := (node ?z1)\<lparr>shared := ex_st0\<rparr>,
      reader_of := (reader_of ?z1)(0 := Querying 1)\<rparr>)" .
    moreover have "?z1\<lparr>node := (node ?z1)\<lparr>shared := ex_st0\<rparr>, reader_of := (reader_of ?z1)(0 := Querying 1)\<rparr> = ex_missed"
      by (simp add: ex_missed_def rsys_start_def sys_start_def fun_eq_iff)
    ultimately show ?thesis by simp
  qed
  moreover have "read_run ex_env ex_missed ex_overtaken"
  proof -
    have "sys_run ex_env (node ex_missed) (node ex_overtaken)"
      using apply_block_steps [of ex_env "sys_start ex_st0" ex_b1 "ex_proof [7] 1" ex_st1 3] ex_apply1
      by (simp add: ex_overtaken_def ex_missed_def rsys_start_def sys_start_def)
    from others_run [OF this] show ?thesis
      by (simp add: ex_overtaken_def ex_missed_def rsys_start_def)
  qed
  ultimately show ?thesis by (meson converse_rtranclp_into_rtranclp)
qed

lemma ex_block_one: "block_at ex_env (db ex_st1) 1 = Some ex_b1" "sql_u64 ex_env 1"
proof -
  note core = wf_storageD(1) [OF ex_st1_wf]
  show b: "block_at ex_env (db ex_st1) 1 = Some ex_b1"
    using block_at_iff [OF wf_coreD(3,2) [OF core], of 1 ex_b1] by (simp add: ex_st1_chain)
  show "sql_u64 ex_env 1" by (rule cached_representable [OF core b])
qed

lemma reads_linearise_witness:
  "\<exists>z s. read_run ex_env (rsys_start ex_st0) z \<and> reader_of z 0 = Answered 1 (Ok (Some s)) \<and>
     asked_of z 0 = ex_st0 \<and> Ok (Some s) = fst (get_state ex_env (shared (node z)) 1)"
proof -
  obtain s sh where t: "reader_turns ex_env 4 (Querying 1, ex_st1) = (Answered 1 (Ok (Some s)), sh)"
    using querying_ends [OF ex_st1_wf ex_block_one(2,1), of 4] by auto
  have f: "reader_of ex_overtaken 0 = Querying 1" "shared (node ex_overtaken) = ex_st1" "asked_of ex_overtaken 0 = ex_st0"
    by (simp_all add: ex_overtaken_def ex_missed_def rsys_start_def)
  let ?z = "ex_overtaken\<lparr>node := (node ex_overtaken)\<lparr>shared := sh\<rparr>,
    reader_of := (reader_of ex_overtaken)(0 := Answered 1 (Ok (Some s)))\<rparr>"
  have run: "read_run ex_env (rsys_start ex_st0) ?z"
    by (rule rtranclp_trans [OF ex_overtaken_run turns_run [where n = 4]]) (simp only: f t)
  have r: "reader_of ?z 0 = Answered 1 (Ok (Some s))" by simp
  have "asked_of ?z 0 = ex_st0" using f(3) by simp
  moreover have "Ok (Some s) = fst (get_state ex_env (shared (node ?z)) 1)"
    using reads_linearise [OF ex_st0_wf run r] by simp
  ultimately show ?thesis using run r by (intro exI conjI)
qed

text \<open>
  C22: Reads end. In every reachable state in which nobody holds the lock, a reader in the
  middle of its call, asked for a height SQLite can hold, has its answer after at most four
  of its own turns, without a panic; and from the start of the call those turns, taken
  without a break, are \<open>get_state\<close>, with the same answer and the same cache.
\<close>

theorem reads_end:
  assumes "wf_storage E st0" "read_run E (rsys_start st0) z" "holder (node z) = None"
    and "asks_for (reader_of z i) = Some h" "sql_u64 E h"
  shows "\<exists>x sh. reader_turns E 4 (reader_of z i, shared (node z)) = (Answered h (Ok x), sh) \<and>
     (reader_of z i = Asking h \<longrightarrow> get_state E (shared (node z)) h = (Ok x, sh))"
proof -
  note inv = read_inv_run [OF assms(2,1), unfolded read_inv_def]
  have wf: "wf_storage E (shared (node z))"
    by (rule sys_inv_unlocked [OF conjunct1 [OF inv] assms(3)])
  have ok: "reader_ok E (asked_of z i) (shared (node z)) (reader_of z i)"
    using inv assms(4) by (metis asks_for.simps(5) option.distinct(1))
  obtain x sh where x: "reader_turns E 4 (reader_of z i, shared (node z)) = (Answered h (Ok x), sh)"
    using unfinished_ends [OF wf ok assms(4,5)] by blast
  have "get_state E (shared (node z)) h = (Ok x, sh)" if "reader_of z i = Asking h"
    using reader_alone_hit [OF wf assms(5)] reader_alone_miss [OF wf assms(5)] x that
    by (cases "old_cache (shared (node z)) h") (auto simp: prod_eq_iff)
  with x show ?thesis by blast
qed

lemma reads_end_witness:
  "\<exists>x sh. reader_turns ex_env 4 (reader_of ex_overtaken 0, ex_st1) = (Answered 1 (Ok x), sh)"
proof -
  have f: "holder (node ex_overtaken) = None" "asks_for (reader_of ex_overtaken 0) = Some 1"
    "shared (node ex_overtaken) = ex_st1"
    by (simp_all add: ex_overtaken_def ex_missed_def rsys_start_def sys_start_def)
  from reads_end [OF ex_st0_wf ex_overtaken_run f(1,2) ex_block_one(2)] show ?thesis
    unfolding f(3) by blast
qed

end
