(* ===== verification/Conn_Pool.thy ===== *)
theory Conn_Pool
  imports Prelude
begin

text \<open>
  The SQLite connections of \<open>src/storage/storage.rs\<close>: 16 of them in a channel. An operation
  receives one, hands it to a closure for the blocking thread pool (\<open>smol::unblock\<close>) and
  awaits the closure; a guard made at the start of the closure sends the connection back.
  Dropping the caller drops a closure that no thread has started yet, connection
  included, as the documentation of \<open>blocking\<close> and \<open>async-task\<close> says of dropped tasks.
\<close>

section \<open>Calls and the pool\<close>

text \<open>
  A call awaits a connection, then its closure is queued, then a thread runs it. No
  operation asks for a second connection before it gave back the first. \<open>lost\<close> is a ghost.
\<close>

datatype call = Idle_call | Awaiting | Queued | Running

record conn_pool =
  recv_pool :: nat
  call_of :: "nat \<Rightarrow> call"
  lost :: nat

definition pool_start :: conn_pool where
  "pool_start = \<lparr>recv_pool = 16, call_of = (\<lambda>i. Idle_call), lost = 0\<rparr>"

inductive pool_step :: "conn_pool \<Rightarrow> conn_pool \<Rightarrow> bool" where
  begin_call: "call_of p i = Idle_call \<Longrightarrow> pool_step p (p\<lparr>call_of := (call_of p)(i := Awaiting)\<rparr>)"
| receive: "call_of p i = Awaiting \<Longrightarrow> recv_pool p = Suc n \<Longrightarrow>
    pool_step p (p\<lparr>recv_pool := n, call_of := (call_of p)(i := Queued)\<rparr>)"
| start_closure: "call_of p i = Queued \<Longrightarrow> pool_step p (p\<lparr>call_of := (call_of p)(i := Running)\<rparr>)"
| give_back: "call_of p i = Running \<Longrightarrow>
    pool_step p (p\<lparr>recv_pool := Suc (recv_pool p), call_of := (call_of p)(i := Idle_call)\<rparr>)"
| drop_awaiting: "call_of p i = Awaiting \<Longrightarrow> pool_step p (p\<lparr>call_of := (call_of p)(i := Idle_call)\<rparr>)"
| drop_queued: "call_of p i = Queued \<Longrightarrow>
    pool_step p (p\<lparr>call_of := (call_of p)(i := Idle_call), lost := Suc (lost p)\<rparr>)"

abbreviation pool_run :: "conn_pool \<Rightarrow> conn_pool \<Rightarrow> bool" where
  "pool_run \<equiv> pool_step\<^sup>*\<^sup>*"

section \<open>Where the connections are\<close>

definition in_use :: "conn_pool \<Rightarrow> nat set" where
  "in_use p = {i. call_of p i = Queued \<or> call_of p i = Running}"

definition pool_inv :: "conn_pool \<Rightarrow> bool" where
  "pool_inv p \<longleftrightarrow> finite (in_use p) \<and> recv_pool p + card (in_use p) + lost p = 16"

lemma in_use_upd:
  "in_use (p\<lparr>call_of := (call_of p)(i := c)\<rparr>) =
     (if c = Queued \<or> c = Running then insert i (in_use p) else in_use p - {i})"
  by (auto simp: in_use_def)

lemma in_use_cong [simp]:
  "in_use (p\<lparr>recv_pool := n, call_of := f\<rparr>) = in_use (p\<lparr>call_of := f\<rparr>)"
  "in_use (p\<lparr>call_of := f, lost := n\<rparr>) = in_use (p\<lparr>call_of := f\<rparr>)"
  by (simp_all add: in_use_def)

lemma pool_inv_step:
  assumes "pool_step p q" "pool_inv p"
  shows "pool_inv q"
  using assms(1)
proof (cases rule: pool_step.cases)
  case (begin_call i)
  then have "i \<notin> in_use p" by (simp add: in_use_def)
  then show ?thesis using assms(2) begin_call by (simp add: pool_inv_def in_use_upd)
next
  case (receive i n)
  then have "i \<notin> in_use p" by (simp add: in_use_def)
  then show ?thesis using assms(2) receive by (simp add: pool_inv_def in_use_upd)
next
  case (start_closure i)
  then have "i \<in> in_use p" by (simp add: in_use_def)
  then show ?thesis using assms(2) start_closure by (simp add: pool_inv_def in_use_upd insert_absorb)
next
  case (give_back i)
  then have "i \<in> in_use p" by (simp add: in_use_def)
  then have "card (in_use p) = Suc (card (in_use p - {i}))"
    using assms(2) by (intro card.remove) (simp_all add: pool_inv_def)
  then show ?thesis using assms(2) give_back by (simp add: pool_inv_def in_use_upd)
next
  case (drop_awaiting i)
  then have "i \<notin> in_use p" by (simp add: in_use_def)
  then show ?thesis using assms(2) drop_awaiting by (simp add: pool_inv_def in_use_upd)
next
  case (drop_queued i)
  then have "i \<in> in_use p" by (simp add: in_use_def)
  then have "card (in_use p) = Suc (card (in_use p - {i}))"
    using assms(2) by (intro card.remove) (simp_all add: pool_inv_def)
  then show ?thesis using assms(2) drop_queued by (simp add: pool_inv_def in_use_upd)
qed

lemma pool_inv_run:
  assumes "pool_run pool_start p"
  shows "pool_inv p"
  using assms
  by (induction rule: rtranclp_induct) (simp add: pool_inv_def pool_start_def in_use_def, rule pool_inv_step)

section \<open>Getting a connection\<close>

lemma receive_and_start:
  assumes "call_of p i = Awaiting" "0 < recv_pool p"
  shows "\<exists>q. pool_run p q \<and> call_of q i = Running \<and> lost q = lost p"
proof -
  obtain n where n: "recv_pool p = Suc n" using assms(2) by (cases "recv_pool p") auto
  let ?p1 = "p\<lparr>recv_pool := n, call_of := (call_of p)(i := Queued)\<rparr>"
  let ?p2 = "?p1\<lparr>call_of := (call_of ?p1)(i := Running)\<rparr>"
  have "pool_step p ?p1" by (rule receive [OF assms(1) n])
  moreover have "pool_step ?p1 ?p2" by (rule start_closure) simp
  ultimately have "pool_run p ?p2" by (meson converse_rtranclp_into_rtranclp rtranclp.rtrancl_refl)
  then show ?thesis by (intro exI [of _ ?p2]) simp
qed

lemma someone_gives_back:
  assumes "j \<in> in_use p"
  shows "\<exists>q. pool_run p q \<and> recv_pool q = Suc (recv_pool p) \<and> lost q = lost p \<and>
     (\<forall>i. i \<noteq> j \<longrightarrow> call_of q i = call_of p i)"
proof -
  have run: "\<exists>q. pool_run p q \<and> call_of q j = Running \<and> recv_pool q = recv_pool p \<and> lost q = lost p \<and>
     (\<forall>i. i \<noteq> j \<longrightarrow> call_of q i = call_of p i)"
  proof (cases "call_of p j = Running")
    case False
    then have "call_of p j = Queued" using assms by (simp add: in_use_def)
    from start_closure [OF this] show ?thesis
      by (intro exI [of _ "p\<lparr>call_of := (call_of p)(j := Running)\<rparr>"]) auto
  qed blast
  then obtain q where q: "pool_run p q" "call_of q j = Running" "recv_pool q = recv_pool p" "lost q = lost p"
    "\<forall>i. i \<noteq> j \<longrightarrow> call_of q i = call_of p i" by blast
  have "pool_run p (q\<lparr>recv_pool := Suc (recv_pool q), call_of := (call_of q)(j := Idle_call)\<rparr>)"
    using q(1) give_back [OF q(2)] by (rule rtranclp.rtrancl_into_rtrancl)
  then show ?thesis using q(3-5) by (intro exI conjI) (assumption, simp_all)
qed

text \<open>
  C19: A call that waits for a connection can always get one and run, without any other
  call being dropped, as long as fewer than 16 closures have been dropped before they
  started: every connection is in the channel, with exactly one call, or lost that way.
\<close>

theorem calls_get_connections:
  assumes "pool_run pool_start p" "call_of p i = Awaiting" "lost p < 16"
  shows "recv_pool p + card (in_use p) + lost p = 16 \<and>
     (\<exists>q. pool_run p q \<and> call_of q i = Running \<and> lost q = lost p)"
proof
  note inv = pool_inv_run [OF assms(1), unfolded pool_inv_def]
  show "recv_pool p + card (in_use p) + lost p = 16" using inv by simp
  show "\<exists>q. pool_run p q \<and> call_of q i = Running \<and> lost q = lost p"
  proof (cases "0 < recv_pool p")
    case True
    then show ?thesis by (rule receive_and_start [OF assms(2)])
  next
    case False
    then have "0 < card (in_use p)" using inv assms(3) by linarith
    then obtain j where j: "j \<in> in_use p" by (auto simp: card_gt_0_iff)
    then have "i \<noteq> j" using assms(2) by (auto simp: in_use_def)
    with someone_gives_back [OF j] obtain q where q: "pool_run p q" "0 < recv_pool q" "lost q = lost p" "call_of q i = Awaiting"
      using assms(2) by auto
    from receive_and_start [OF q(4,2)] q(1,3) show ?thesis by (metis rtranclp_trans)
  qed
qed

text \<open>Every connection can be lost, one dropped call at a time.\<close>

lemma lose_one:
  assumes "call_of p i = Idle_call" "recv_pool p = Suc n"
  shows "pool_run p (p\<lparr>recv_pool := n, lost := Suc (lost p)\<rparr>)"
proof -
  let ?p1 = "p\<lparr>call_of := (call_of p)(i := Awaiting)\<rparr>"
  let ?p2 = "?p1\<lparr>recv_pool := n, call_of := (call_of ?p1)(i := Queued)\<rparr>"
  let ?p3 = "?p2\<lparr>call_of := (call_of ?p2)(i := Idle_call), lost := Suc (lost ?p2)\<rparr>"
  have "pool_step p ?p1" by (rule begin_call [OF assms(1)])
  moreover have "pool_step ?p1 ?p2" by (rule receive) (simp_all add: assms(2))
  moreover have "pool_step ?p2 ?p3" by (rule drop_queued) simp
  ultimately have "pool_run p ?p3" by (meson converse_rtranclp_into_rtranclp rtranclp.rtrancl_refl)
  moreover have "(call_of p)(i := Idle_call) = call_of p" using assms(1) by auto
  ultimately show ?thesis by simp
qed

lemma lose_all:
  "k \<le> 16 \<Longrightarrow> pool_run pool_start (pool_start\<lparr>recv_pool := 16 - k, lost := k\<rparr>)"
proof (induction k)
  case 0
  have "pool_start\<lparr>recv_pool := 16 - 0, lost := 0\<rparr> = pool_start" by (simp add: pool_start_def)
  then show ?case by simp
next
  case (Suc k)
  let ?p = "pool_start\<lparr>recv_pool := 16 - k, lost := k\<rparr>"
  have "pool_run ?p (?p\<lparr>recv_pool := 16 - Suc k, lost := Suc (lost ?p)\<rparr>)"
    by (rule lose_one [of _ 0]) (use Suc.prems in \<open>simp_all add: pool_start_def\<close>)
  then have "pool_run ?p (pool_start\<lparr>recv_pool := 16 - Suc k, lost := Suc k\<rparr>)" by simp
  with Suc show ?case by (meson Suc_leD rtranclp_trans)
qed

text \<open>
  C18: Calls dropped between receiving a connection and the start of their closure take the
  connection with them: sixteen of them empty the pool for good. Such a state is
  reachable, and from every such state on no call of the storage gets a connection again.
\<close>

theorem dropped_calls_drain_pool:
  "(\<exists>p. pool_run pool_start p \<and> lost p = 16) \<and>
   (\<forall>p q i. pool_run pool_start p \<and> lost p = 16 \<and> pool_run p q \<longrightarrow> call_of q i = Idle_call \<or> call_of q i = Awaiting)"
proof
  show "\<exists>p. pool_run pool_start p \<and> lost p = 16"
    by (rule exI [of _ "pool_start\<lparr>recv_pool := 16 - 16, lost := 16\<rparr>"]) (use lose_all [of 16] in simp)
  have "call_of q i = Idle_call \<or> call_of q i = Awaiting"
    if run: "pool_run pool_start p" "lost p = 16" "pool_run p q" for p q i
  proof -
    have "lost p \<le> lost q"
      using run(3)
    proof (induction rule: rtranclp_induct)
      case (step q r)
      from step.hyps(2) have "lost q \<le> lost r" by (cases rule: pool_step.cases) simp_all
      with step.IH show ?case by simp
    qed simp
    moreover have inv: "finite (in_use q)" "recv_pool q + card (in_use q) + lost q = 16"
      using pool_inv_run [OF rtranclp_trans [OF run(1,3)]] by (simp_all add: pool_inv_def)
    ultimately have "card (in_use q) = 0" using run(2) by linarith
    with inv(1) have "i \<notin> in_use q" by simp
    then show ?thesis by (cases "call_of q i") (simp_all add: in_use_def)
  qed
  then show "\<forall>p q i. pool_run pool_start p \<and> lost p = 16 \<and> pool_run p q \<longrightarrow>
      call_of q i = Idle_call \<or> call_of q i = Awaiting" by blast
qed

section \<open>Witnesses\<close>

theorem calls_get_connections_witness:
  "\<exists>p. pool_run pool_start p \<and> lost p = 15 \<and> (\<exists>q. pool_run p q \<and> call_of q 3 = Running \<and> lost q = 15)"
proof -
  let ?p = "pool_start\<lparr>recv_pool := 16 - 15, lost := 15\<rparr>"
  let ?q = "?p\<lparr>call_of := (call_of ?p)(3 := Awaiting)\<rparr>"
  have "pool_step ?p ?q" by (rule begin_call) (simp add: pool_start_def)
  then have run: "pool_run pool_start ?q"
    using lose_all [of 15] by (meson le_add2 numeral_le_iff rtranclp.rtrancl_into_rtrancl semiring_norm)
  have "call_of ?q 3 = Awaiting" "lost ?q = 15" by simp_all
  with calls_get_connections [OF run, of 3] run show ?thesis by auto
qed

theorem dropped_calls_drain_pool_witness:
  "\<exists>p. lost p = 16 \<and> (\<forall>q. pool_run p q \<longrightarrow> call_of q 3 = Idle_call \<or> call_of q 3 = Awaiting)"
  using dropped_calls_drain_pool by blast

end
