(* ===== verification/Open_Steps.thy ===== *)
theory Open_Steps
  imports Storage_Life
begin

text \<open>
  \<open>Storage::open\<close> call by call: any of its calls to the file system, to SQLite and to
  meshanina may fail, and the process may be killed between two of them. What a failed
  start leaves in the SQLite file is there at the next one.
\<close>

section \<open>The file and the calls\<close>

text \<open>The tables in the file, \<open>None\<close> where a table has not been created.\<close>

record sqlite_file =
  history_table :: "(u64, bytes \<times> bytes) table option"
  proofs_table :: "(u64, bytes) table option"
  stakes_table :: "(string, u64 \<times> bytes) table option"
  misc_table :: "(string, bytes) table option"

definition rows_of :: "'a list option \<Rightarrow> 'a list" where
  "rows_of t = (case t of None \<Rightarrow> [] | Some rows \<Rightarrow> rows)"

definition tables_of :: "sqlite_file \<Rightarrow> db_tables" where
  "tables_of f = \<lparr>history = rows_of (history_table f), consensus_proofs = rows_of (proofs_table f),
     stakes = rows_of (stakes_table f)\<rparr>"

datatype open_call =
    Make_folder
  | Open_sqlite
  | Create_history
  | Create_proofs
  | Create_stakes
  | Create_misc
  | Insert_stake txhash stake_doc
  | Pool_connection
  | Pool_wal
  | Pool_synchronous
  | Open_mesha

definition open_calls :: "genesis_config \<Rightarrow> open_call list" where
  "open_calls g =
     [Make_folder, Open_sqlite, Create_history, Create_proofs, Create_stakes, Create_misc] @
     map (\<lambda>(txhash, stake). Insert_stake txhash stake) (gen_stakes g) @
     concat (replicate 16 [Pool_connection, Pool_wal, Pool_synchronous]) @
     [Open_mesha]"

text \<open>What a call that succeeds does to the file: \<open>create table if not exists\<close>, \<open>on conflict do nothing\<close>.\<close>

fun open_effect :: "('ss, 'us, 'sk) env \<Rightarrow> open_call \<Rightarrow> sqlite_file \<Rightarrow> sqlite_file" where
  "open_effect E Create_history f = f\<lparr>history_table := Some (rows_of (history_table f))\<rparr>"
| "open_effect E Create_proofs f = f\<lparr>proofs_table := Some (rows_of (proofs_table f))\<rparr>"
| "open_effect E Create_stakes f = f\<lparr>stakes_table := Some (rows_of (stakes_table f))\<rparr>"
| "open_effect E Create_misc f = f\<lparr>misc_table := Some (rows_of (misc_table f))\<rparr>"
| "open_effect E (Insert_stake txhash stake) f =
     f\<lparr>stakes_table := map_option (insert_row_or_ignore (hash_to_string E txhash) (0, enc_stake E stake)) (stakes_table f)\<rparr>"
| "open_effect E c f = f"

text \<open>The error a failed call gives, with the context the code adds.\<close>

fun open_error :: "open_call \<Rightarrow> err \<Rightarrow> err" where
  "open_error Make_folder e = Ctx ''cannot make folder'' e"
| "open_error Open_sqlite e = Ctx ''cannot make sqlite'' e"
| "open_error Open_mesha e = Ctx ''cannot open mesha'' e"
| "open_error c e = e"

text \<open>\<open>fails n\<close> is the error of the n-th call; its effect, as of all SQLite statements, is all or nothing.\<close>

fun run_open ::
  "('ss, 'us, 'sk) env \<Rightarrow> (nat \<Rightarrow> err option) \<Rightarrow> nat \<Rightarrow> open_call list \<Rightarrow> sqlite_file \<Rightarrow> unit res \<times> sqlite_file" where
  "run_open E fails n [] f = (Ok (), f)"
| "run_open E fails n (c # cs) f =
     (case fails n of
        Some e \<Rightarrow> (Err (open_error c e), f)
      | None \<Rightarrow> run_open E fails (Suc n) cs (open_effect E c f))"

definition open_io ::
  "('ss, 'us, 'sk) env \<Rightarrow> string \<Rightarrow> genesis_config \<Rightarrow> (nat \<Rightarrow> err option) \<Rightarrow> sqlite_file
   \<Rightarrow> 'us storage res \<times> sqlite_file" where
  [op_defs]: "open_io E db_folder g fails f =
     bind_st (run_open E fails 0 (open_calls g) f) (\<lambda>_ f.
       (Ok \<lparr>db = tables_of f, old_cache = Map.empty, genesis = g, mempool = mempool_new (realize E g),
            new_block_notify = 0, sqlite_path = open_path E db_folder g\<rparr>, f))"

section \<open>What a start does to the file\<close>

lemma run_open_prefix:
  "run_open E fails n cs f = (r, f') \<Longrightarrow>
     \<exists>k \<le> length cs. f' = fold (open_effect E) (take k cs) f \<and> (r = Ok () \<longrightarrow> k = length cs) \<and>
       (r = Ok () \<or> (\<exists>e. k < length cs \<and> fails (n + k) = Some e \<and> (\<forall>m < k. fails (n + m) = None) \<and>
         r = Err (open_error (cs ! k) e)))"
proof (induction cs arbitrary: n f)
  case Nil
  then show ?case by simp
next
  case (Cons c cs)
  show ?case
  proof (cases "fails n")
    case (Some e)
    then show ?thesis using Cons.prems by (intro exI [of _ 0]) auto
  next
    case None
    with Cons.prems have "run_open E fails (Suc n) cs (open_effect E c f) = (r, f')" by simp
    from Cons.IH [OF this] obtain k where "k \<le> length cs" "f' = fold (open_effect E) (take k cs) (open_effect E c f)"
      "r = Ok () \<longrightarrow> k = length cs"
      "r = Ok () \<or> (\<exists>e. k < length cs \<and> fails (Suc n + k) = Some e \<and> (\<forall>m < k. fails (Suc n + m) = None) \<and>
         r = Err (open_error (cs ! k) e))" by blast
    then show ?thesis using None by (intro exI [of _ "Suc k"]) (auto simp: less_Suc_eq_0_disj)
  qed
qed

lemma run_open_no_failure: "fst (run_open E (\<lambda>_. None) n cs f) = Ok ()"
  by (induction cs arbitrary: n f) simp_all

lemma fold_inserts:
  "stakes_table f = Some t \<Longrightarrow>
     fold (open_effect E) (map (\<lambda>(h, s). Insert_stake h s) xs) f =
       f\<lparr>stakes_table := Some (fold (\<lambda>(h, s). insert_row_or_ignore (hash_to_string E h) (0, enc_stake E s)) xs t)\<rparr>"
  by (induction xs arbitrary: f t) (simp_all add: split_beta)

lemma fold_no_effect:
  "\<forall>c \<in> set cs. \<forall>f. open_effect E c f = f \<Longrightarrow> fold (open_effect E) cs f = f"
  by (induction cs) simp_all

lemma rows_of_Some [simp]: "rows_of (Some t) = t"
  by (simp add: rows_of_def)

abbreviation first_stakes :: "nat \<Rightarrow> genesis_config \<Rightarrow> genesis_config" where
  "first_stakes j g \<equiv> g\<lparr>gen_stakes := take j (gen_stakes g)\<rparr>"

text \<open>After any number of its calls: some first part of the genesis stakes has been inserted.\<close>

lemma fold_open_calls:
  "tables_of (fold (open_effect E) (take k (open_calls g)) f) =
     (tables_of f)\<lparr>stakes := init_stakes E (first_stakes (k - 6) g) (stakes (tables_of f))\<rparr>"
proof -
  let ?pre = "[Make_folder, Open_sqlite, Create_history, Create_proofs, Create_stakes, Create_misc]"
  let ?ins = "map (\<lambda>(h, s). Insert_stake h s) (gen_stakes g)"
  let ?post = "concat (replicate 16 [Pool_connection, Pool_wal, Pool_synchronous]) @ [Open_mesha]"
  have calls: "open_calls g = ?pre @ ?ins @ ?post" by (simp add: open_calls_def)
  have post: "fold (open_effect E) (take m ?post) f = f" for m f
    by (rule fold_no_effect) (auto dest!: in_set_takeD split: if_splits)
  show ?thesis
  proof (cases "k < 6")
    case True
    then have "k - length ?pre = 0" by simp
    then have "take k (open_calls g) = take k ?pre"
      unfolding calls take_append [of k ?pre] by (simp only: take_0 append_Nil2)
    moreover have "tables_of (fold (open_effect E) (take k ?pre) f) = tables_of f"
      using True by (auto simp: less_Suc_eq numeral_eq_Suc tables_of_def)
    ultimately show ?thesis using True by (simp add: init_stakes_def tables_of_def)
  next
    case False
    let ?f = "fold (open_effect E) ?pre f"
    have tk: "take k (open_calls g) = ?pre @ take (k - 6) ?ins @ take (k - 6 - length ?ins) ?post"
      using False unfolding calls take_append by (simp add: numeral_eq_Suc)
    have f: "stakes_table ?f = Some (stakes (tables_of f))" "tables_of ?f = tables_of f"
      by (simp_all add: tables_of_def)
    have "fold (open_effect E) (take k (open_calls g)) f = fold (open_effect E) (take (k - 6) ?ins) ?f"
      unfolding tk fold_append comp_apply post ..
    also have "\<dots> = ?f\<lparr>stakes_table := Some (init_stakes E (first_stakes (k - 6) g) (stakes (tables_of f)))\<rparr>"
      using fold_inserts [OF f(1), of E "take (k - 6) (gen_stakes g)"] by (simp add: take_map init_stakes_def)
    finally show ?thesis using f(2) by (simp add: tables_of_def)
  qed
qed

lemma init_stakes_resumed:
  "init_stakes E g (init_stakes E (first_stakes j g) t) = init_stakes E g t"
proof -
  let ?ins = "\<lambda>xs. fold (\<lambda>(h, s). insert_row_or_ignore (hash_to_string E h) (0, enc_stake E s)) xs"
  let ?t = "init_stakes E (first_stakes j g) t"
  have "init_stakes E (first_stakes j g) ?t = ?t"
    by (rule init_stakes_id [OF has_genesis_stakes_init])
  then have again: "?ins (take j (gen_stakes g)) ?t = ?t" by (simp add: init_stakes_def)
  have split: "?ins (gen_stakes g) x = ?ins (drop j (gen_stakes g)) (?ins (take j (gen_stakes g)) x)" for x
    by (simp only: fold_append [THEN fun_cong, unfolded comp_apply, symmetric] append_take_drop_id)
  have "init_stakes E g ?t = ?ins (drop j (gen_stakes g)) ?t"
    unfolding init_stakes_def [of E g] split again ..
  also have "\<dots> = init_stakes E g t"
    unfolding init_stakes_def [of E g] split by (simp add: init_stakes_def)
  finally show ?thesis .
qed

section \<open>Starts that fail\<close>

lemma open_io_tables:
  assumes "open_io E folder g fails f = (r, f')"
  shows "\<exists>j. tables_of f' = (tables_of f)\<lparr>stakes := init_stakes E (first_stakes j g) (stakes (tables_of f))\<rparr>"
    and "r = Ok (storage_open E folder g (tables_of f)) \<or>
      (\<exists>n e. n < length (open_calls g) \<and> fails n = Some e \<and> (\<forall>m < n. fails m = None) \<and>
         r = Err (open_error (open_calls g ! n) e))"
proof -
  obtain r0 f0 where run: "run_open E fails 0 (open_calls g) f = (r0, f0)"
    by (cases "run_open E fails 0 (open_calls g) f")
  from run_open_prefix [OF this] obtain k where k: "k \<le> length (open_calls g)"
    "f0 = fold (open_effect E) (take k (open_calls g)) f" "r0 = Ok () \<longrightarrow> k = length (open_calls g)"
    "r0 = Ok () \<or> (\<exists>e. k < length (open_calls g) \<and> fails (0 + k) = Some e \<and> (\<forall>m < k. fails (0 + m) = None) \<and> r0 = Err (open_error (open_calls g ! k) e))"
    by blast
  note tables = fold_open_calls [of E k g f, folded k(2)]
  have f': "f' = f0" using assms run k(4) by (cases r0) (auto simp: open_io_def)
  show "\<exists>j. tables_of f' = (tables_of f)\<lparr>stakes := init_stakes E (first_stakes j g) (stakes (tables_of f))\<rparr>"
    unfolding f' using tables by blast
  show "r = Ok (storage_open E folder g (tables_of f)) \<or>
      (\<exists>n e. n < length (open_calls g) \<and> fails n = Some e \<and> (\<forall>m < n. fails m = None) \<and>
         r = Err (open_error (open_calls g ! n) e))"
  proof (cases "r0 = Ok ()")
    case True
    then have "k = length (open_calls g)" using k(3) by simp
    then have "length (gen_stakes g) \<le> k - 6" by (simp add: open_calls_def)
    then have "first_stakes (k - 6) g = g" by simp
    then have "tables_of f0 = (tables_of f)\<lparr>stakes := init_stakes E g (stakes (tables_of f))\<rparr>" using tables by simp
    then show ?thesis using assms run True by (simp add: open_io_def storage_open_def)
  next
    case False
    then show ?thesis using assms run k(4) by (auto simp: open_io_def)
  qed
qed

text \<open>One start: the next one opens the storage this one would have opened.\<close>

lemma start_resumed:
  "storage_open E folder g (tables_of (snd (open_io E folder' g fails f))) = storage_open E folder g (tables_of f)"
proof -
  obtain r f' where o: "open_io E folder' g fails f = (r, f')" by (cases "open_io E folder' g fails f")
  from open_io_tables(1) [OF o] obtain j where
    "tables_of f' = (tables_of f)\<lparr>stakes := init_stakes E (first_stakes j g) (stakes (tables_of f))\<rparr>" by blast
  then show ?thesis by (simp add: o storage_open_def init_stakes_resumed)
qed

text \<open>
  C21: Starts that fail do no harm. However many starts on the same database failed before,
  each at any of its calls, a start without failures opens the storage it would have
  opened at first; and a start either opens that storage or reports the first call
  that failed.
\<close>

theorem failed_starts_harmless:
  "fst (open_io E folder g (\<lambda>_. None) (fold (\<lambda>fails f. snd (open_io E folder g fails f)) starts f)) =
     Ok (storage_open E folder g (tables_of f)) \<and>
   (fst (open_io E folder g fails f) = Ok (storage_open E folder g (tables_of f)) \<or>
    (\<exists>n e. n < length (open_calls g) \<and> fails n = Some e \<and> filter (\<lambda>m. fails m \<noteq> None) [0..<n] = [] \<and>
       fst (open_io E folder g fails f) = Err (open_error (open_calls g ! n) e)))"
proof
  have "storage_open E folder g (tables_of (fold (\<lambda>fails f. snd (open_io E folder g fails f)) starts f)) =
      storage_open E folder g (tables_of f)"
    by (induction starts arbitrary: f) (simp_all add: start_resumed)
  then show "fst (open_io E folder g (\<lambda>_. None) (fold (\<lambda>fails f. snd (open_io E folder g fails f)) starts f)) =
      Ok (storage_open E folder g (tables_of f))"
    using open_io_tables(2) [OF surjective_pairing] by (metis option.distinct(1))
  show "fst (open_io E folder g fails f) = Ok (storage_open E folder g (tables_of f)) \<or>
    (\<exists>n e. n < length (open_calls g) \<and> fails n = Some e \<and> filter (\<lambda>m. fails m \<noteq> None) [0..<n] = [] \<and>
       fst (open_io E folder g fails f) = Err (open_error (open_calls g ! n) e))"
    using open_io_tables(2) [OF surjective_pairing, of E folder g fails f] by (auto simp: filter_empty_conv)
qed

end
