(* ===== verification/Args.thy ===== *)
theory Args
  imports Storage_Inv
begin

text \<open>
  \<open>src/args.rs\<close> and \<open>src/storage/smt.rs\<close>: from the command
  line to a genesis, a storage, bootstrap routes and a staker configuration. Files, the
  home directory, DNS and the YAML parser are fields of \<open>host\<close>.
\<close>

section \<open>Arguments and the host\<close>

text \<open>A socket address is a host and a port.\<close>

type_synonym socket_addr = "string \<times> u16"

record main_args =
  listen :: socket_addr
  legacy_listen :: "socket_addr option"
  advertise :: "socket_addr option"
  bootstrap :: "string list"
  database :: "string option"
  staker_cfg_path :: "string option"
  override_genesis :: "string option"
  testnet :: bool
  self_test :: bool
  index_coins :: bool

text \<open>What clap gives for an empty command line.\<close>

definition default_args :: main_args where
  "default_args = \<lparr>listen = (''0.0.0.0'', 41814), legacy_listen = None, advertise = None,
     bootstrap = [''auto''], database = None, staker_cfg_path = None, override_genesis = None,
     testnet = False, self_test = False, index_coins = False\<rparr>"

record 'cfg host =
  read_file :: "string \<Rightarrow> bytes option"
  parse_genesis :: "bytes \<Rightarrow> genesis_config option"
  parse_staker_cfg :: "bytes \<Rightarrow> 'cfg option"
  home_dir :: "string option"
  create_dir :: "string \<Rightarrow> bool"
  resolve_name :: "string \<Rightarrow> string list option"
  bootstrap_routes :: "netid \<Rightarrow> string list"
  std_mainnet :: genesis_config
  std_testnet :: genesis_config
  tables_at :: "string \<Rightarrow> db_tables"

definition io_error :: err where "io_error = Lib ''I/O error''"

section \<open>Deriving the configuration\<close>

definition genesis_config :: "'cfg host \<Rightarrow> main_args \<Rightarrow> genesis_config res" where
  [op_defs]: "genesis_config H args =
     (case override_genesis args of
        Some path \<Rightarrow>
          (case read_file H path of
             None \<Rightarrow> Err (Ctx ''cannot read genesis config'' io_error)
           | Some yaml \<Rightarrow> (case parse_genesis H yaml of
                 None \<Rightarrow> Err (Ctx ''error while parsing genesis config'' Deser)
               | Some g \<Rightarrow> Ok g))
      | None \<Rightarrow> if testnet args then Ok (std_testnet H) else Ok (std_mainnet H))"

text \<open>
  The home directory is asked for even when \<open>--database\<close> is given. (The paths of a former
  history folder and SMT file are computed and dropped.)
\<close>

definition open_storage ::
  "('ss, 'us, 'sk) env \<Rightarrow> 'cfg host \<Rightarrow> main_args \<Rightarrow> 'us storage res" where
  [op_defs]: "open_storage E H args =
     bind_res (genesis_config H args) (\<lambda>g.
       case home_dir H of
         None \<Rightarrow> Panic (Expect ''no home dir?!'')
       | Some home \<Rightarrow>
           (let base = (case database args of Some p \<Rightarrow> p | None \<Rightarrow> path_push home ''.melnode/'') in
            if \<not> create_dir H base then Err io_error
            else if \<not> create_dir H (path_push base (hash_to_string E (hash_single E (enc_genesis E g)) @ ''/''))
            then Err (Ctx ''cannot make storage'' (Ctx ''cannot make folder'' io_error))
            else Ok (storage_open E base g (tables_at H (open_path E base g)))))"

fun bootstrap_names :: "'cfg host \<Rightarrow> main_args \<Rightarrow> string list \<Rightarrow> string list res" where
  "bootstrap_names H args [] = Ok []"
| "bootstrap_names H args (name # names) =
     bind_res
       (if name = ''auto''
        then bind_res (genesis_config H args) (\<lambda>g. Ok (bootstrap_routes H (gen_network g)))
        else (case resolve_name H name of
            None \<Rightarrow> Err (Ctx ''cannot resolve DNS bootstrap'' io_error)
          | Some addrs \<Rightarrow> Ok addrs))
       (\<lambda>addrs. bind_res (bootstrap_names H args names) (\<lambda>rest. Ok (addrs @ rest)))"

definition bootstrap_addrs :: "'cfg host \<Rightarrow> main_args \<Rightarrow> string list res" where
  [op_defs]: "bootstrap_addrs H args =
     (if bootstrap args \<noteq> [] then bootstrap_names H args (bootstrap args)
      else bind_res (genesis_config H args) (\<lambda>g. Ok (bootstrap_routes H (gen_network g))))"

definition staker_cfg :: "'cfg host \<Rightarrow> main_args \<Rightarrow> 'cfg option res" where
  [op_defs]: "staker_cfg H args =
     (case staker_cfg_path args of
        None \<Rightarrow> Ok None
      | Some path \<Rightarrow> (case read_file H path of
            None \<Rightarrow> Err io_error
          | Some s \<Rightarrow> (case parse_staker_cfg H s of
                None \<Rightarrow> Err Deser
              | Some cfg \<Rightarrow> Ok (Some cfg))))"

text \<open>The accessors of the addresses.\<close>

definition listen_addr :: "main_args \<Rightarrow> socket_addr" where
  "listen_addr args = listen args"

definition legacy_listen_addr :: "main_args \<Rightarrow> socket_addr option" where
  "legacy_listen_addr args = legacy_listen args"

definition advertise_addr :: "main_args \<Rightarrow> socket_addr option" where
  "advertise_addr args = advertise args"

section \<open>The Merkle store\<close>

text \<open>
  \<open>MeshaCas\<close> wraps a meshanina mapping and stores under the hash of the key. The operations
  of meshanina are given as a record; \<open>m_disk\<close> is what a crash at that moment would leave on
  disk, and \<open>m_open\<close> opens what it left.
\<close>

record 'm mesha_ops =
  m_get :: "'m \<Rightarrow> hashval \<Rightarrow> bytes option"
  m_insert :: "hashval \<Rightarrow> bytes \<Rightarrow> 'm \<Rightarrow> 'm"
  m_flush :: "'m \<Rightarrow> 'm"
  m_disk :: "'m \<Rightarrow> hashval \<Rightarrow> bytes option"
  m_open :: "(hashval \<Rightarrow> bytes option) \<Rightarrow> 'm"

datatype 'm mesha_cas = MeshaCas (inner: 'm)

definition cas_new :: "'m \<Rightarrow> 'm mesha_cas" where
  "cas_new m = MeshaCas m"

definition cas_flush :: "'m mesha_ops \<Rightarrow> 'm mesha_cas \<Rightarrow> 'm mesha_cas" where
  "cas_flush M c = MeshaCas (m_flush M (inner c))"

definition cas_get :: "('ss, 'us, 'sk) env \<Rightarrow> 'm mesha_ops \<Rightarrow> 'm mesha_cas \<Rightarrow> bytes \<Rightarrow> bytes option" where
  "cas_get E M c key = m_get M (inner c) (hash_single E key)"

definition cas_insert ::
  "('ss, 'us, 'sk) env \<Rightarrow> 'm mesha_ops \<Rightarrow> bytes \<Rightarrow> bytes \<Rightarrow> 'm mesha_cas \<Rightarrow> 'm mesha_cas" where
  "cas_insert E M key v c = MeshaCas (m_insert M (hash_single E key) v (inner c))"

text \<open>
  What meshanina documents: an insertion is read back and leaves the other keys alone;
  nothing on disk goes away; after \<open>flush\<close> all that was inserted is on disk; opening reads
  what is on disk.
\<close>

definition mesha_ok :: "'m mesha_ops \<Rightarrow> bool" where
  "mesha_ok M \<longleftrightarrow>
     (\<forall>k v m k'. m_get M (m_insert M k v m) k' = (if k' = k then Some v else m_get M m k')) \<and>
     (\<forall>k v m. dom (m_disk M m) \<subseteq> dom (m_disk M (m_insert M k v m))) \<and>
     (\<forall>m. m_get M (m_flush M m) = m_get M m \<and> dom (m_get M m) \<union> dom (m_disk M m) \<subseteq> dom (m_disk M (m_flush M m))) \<and>
     (\<forall>d. m_get M (m_open M d) = d \<and> m_disk M (m_open M d) = d)"

lemma cas_roundtrip:
  assumes "mesha_ok M"
  shows "cas_get E M (cas_insert E M key v c) key = Some v"
    and "hash_single E key' \<noteq> hash_single E key \<Longrightarrow> cas_get E M (cas_insert E M key v c) key' = cas_get E M c key'"
    and "cas_get E M (cas_flush M c) key = cas_get E M c key"
  using assms by (simp_all add: mesha_ok_def cas_get_def cas_insert_def cas_flush_def)

section \<open>Where the database is\<close>

lemma path_push_relative:
  assumes "q \<noteq> []" "hd q \<noteq> CHR ''/''"
  shows "path_push p q = (if p = [] \<or> last p = CHR ''/'' then p else p @ ''/'') @ q"
  using assms by (cases q) (simp_all add: path_push_def)

lemma open_path_eq:
  assumes "x = hash_to_string E (hash_single E (enc_genesis E g))" "x \<noteq> []" "hd x \<noteq> CHR ''/''"
  shows "open_path E folder g =
    (if folder = [] \<or> last folder = CHR ''/'' then folder else folder @ ''/'') @ x @ ''/storage.db''"
proof -
  have 1: "path_push folder (x @ ''/'') =
      (if folder = [] \<or> last folder = CHR ''/'' then folder else folder @ ''/'') @ x @ ''/''"
    by (rule path_push_relative) (use assms(2,3) in simp_all)
  have "path_push (path_push folder (x @ ''/'')) ''storage.db'' = path_push folder (x @ ''/'') @ ''storage.db''"
    by (subst path_push_relative) (simp_all add: 1)
  then show ?thesis by (simp add: open_path_def assms(1) [symmetric] 1)
qed

end
