(* ===== verification/Durable.thy ===== *)
theory Durable
  imports Args Example_Run
begin

text \<open>
  The two stores of a node on disk: the Merkle nodes of the states in meshanina and the
  blocks in SQLite, which point to them. \<open>apply_block\<close> inserts the nodes, flushes, then
  commits; the machine may stop between any two steps.
\<close>

section \<open>The stores\<close>

text \<open>How far the call of \<open>apply_block\<close> at work is: none, nodes inserted, nodes flushed.\<close>

datatype commit_phase = No_call | Inserted block | Flushed block

record 'm disk_sys =
  merkle :: "'m mesha_cas"
  committed :: "block list"
  commit_phase :: commit_phase

text \<open>The Merkle nodes that applying a block inserts, with their keys, are a parameter.\<close>

definition insert_nodes ::
  "('ss, 'us, 'sk) env \<Rightarrow> 'm mesha_ops \<Rightarrow> (bytes \<times> bytes) list \<Rightarrow> 'm mesha_cas \<Rightarrow> 'm mesha_cas" where
  "insert_nodes E M kvs c = fold (\<lambda>(k, v). cas_insert E M k v) kvs c"

text \<open>
  The steps of \<open>apply_block\<close>, any other insertion (of the mempool, of a reader), and a
  crash. After a crash SQLite, in WAL mode with \<open>synchronous=normal\<close>, may have lost the last
  commits, meshanina what had not reached the disk.
\<close>

inductive disk_step ::
  "('ss, 'us, 'sk) env \<Rightarrow> 'm mesha_ops \<Rightarrow> (block \<Rightarrow> (bytes \<times> bytes) list) \<Rightarrow> 'm disk_sys \<Rightarrow> 'm disk_sys \<Rightarrow> bool"
  for E M nodes where
  apply_state: "commit_phase s = No_call \<Longrightarrow>
    disk_step E M nodes s (s\<lparr>merkle := insert_nodes E M (nodes b) (merkle s), commit_phase := Inserted b\<rparr>)"
| flush: "commit_phase s = Inserted b \<Longrightarrow>
    disk_step E M nodes s (s\<lparr>merkle := cas_flush M (merkle s), commit_phase := Flushed b\<rparr>)"
| commit: "commit_phase s = Flushed b \<Longrightarrow>
    disk_step E M nodes s (s\<lparr>committed := committed s @ [b], commit_phase := No_call\<rparr>)"
| give_up: "disk_step E M nodes s (s\<lparr>commit_phase := No_call\<rparr>)"
| insert_other: "disk_step E M nodes s (s\<lparr>merkle := insert_nodes E M kvs (merkle s)\<rparr>)"
| crash: "disk_step E M nodes s
    \<lparr>merkle = cas_new (m_open M (m_disk M (inner (merkle s)))), committed = take n (committed s), commit_phase = No_call\<rparr>"

definition disk_start :: "'m mesha_ops \<Rightarrow> 'm disk_sys" where
  "disk_start M = \<lparr>merkle = cas_new (m_open M Map.empty), committed = [], commit_phase = No_call\<rparr>"

abbreviation disk_run ::
  "('ss, 'us, 'sk) env \<Rightarrow> 'm mesha_ops \<Rightarrow> (block \<Rightarrow> (bytes \<times> bytes) list) \<Rightarrow> 'm disk_sys \<Rightarrow> 'm disk_sys \<Rightarrow> bool" where
  "disk_run E M nodes \<equiv> (disk_step E M nodes)\<^sup>*\<^sup>*"

section \<open>The invariant\<close>

definition node_keys :: "('ss, 'us, 'sk) env \<Rightarrow> (bytes \<times> bytes) list \<Rightarrow> hashval set" where
  "node_keys E kvs = (\<lambda>(k, _). hash_single E k) ` set kvs"

definition on_disk :: "'m mesha_ops \<Rightarrow> 'm mesha_cas \<Rightarrow> hashval set" where
  "on_disk M c = dom (m_disk M (inner c))"

definition readable :: "'m mesha_ops \<Rightarrow> 'm mesha_cas \<Rightarrow> hashval set" where
  "readable M c = dom (m_get M (inner c))"

definition disk_inv ::
  "('ss, 'us, 'sk) env \<Rightarrow> 'm mesha_ops \<Rightarrow> (block \<Rightarrow> (bytes \<times> bytes) list) \<Rightarrow> 'm disk_sys \<Rightarrow> bool" where
  "disk_inv E M nodes s \<longleftrightarrow>
     (\<forall>b \<in> set (committed s). node_keys E (nodes b) \<subseteq> on_disk M (merkle s)) \<and>
     (case commit_phase s of
        No_call \<Rightarrow> True
      | Inserted b \<Rightarrow> node_keys E (nodes b) \<subseteq> readable M (merkle s)
      | Flushed b \<Rightarrow> node_keys E (nodes b) \<subseteq> on_disk M (merkle s))"

lemma insert_nodes_effect:
  assumes "mesha_ok M"
  shows "on_disk M c \<subseteq> on_disk M (insert_nodes E M kvs c)"
    and "readable M (insert_nodes E M kvs c) = node_keys E kvs \<union> readable M c"
proof -
  have "m_get M (m_insert M k v m) = (m_get M m)(k \<mapsto> v)" for k v m
    using assms by (simp add: mesha_ok_def fun_eq_iff)
  then have 2: "readable M (cas_insert E M k v c) = insert (hash_single E k) (readable M c)" for k v c
    by (simp add: cas_insert_def readable_def)
  have 1: "on_disk M c \<subseteq> on_disk M (cas_insert E M k v c)" for k v c
    using assms by (simp add: mesha_ok_def cas_insert_def on_disk_def)
  show "on_disk M c \<subseteq> on_disk M (insert_nodes E M kvs c)"
    unfolding insert_nodes_def
  proof (induction kvs arbitrary: c)
    case (Cons x kvs)
    from 1 [of c "fst x" "snd x"] Cons [of "cas_insert E M (fst x) (snd x) c"] show ?case
      by (simp add: split_beta)
  qed simp
  show "readable M (insert_nodes E M kvs c) = node_keys E kvs \<union> readable M c"
    unfolding insert_nodes_def
    by (induction kvs arbitrary: c) (auto simp: split_beta 2 node_keys_def)
qed

lemma disk_inv_step:
  assumes "mesha_ok M" "disk_step E M nodes s t" "disk_inv E M nodes s"
  shows "disk_inv E M nodes t"
  using assms(2)
proof (cases rule: disk_step.cases)
  case (apply_state b)
  then show ?thesis
    using assms(3) insert_nodes_effect [OF assms(1), where c = "merkle s" and E = E and kvs = "nodes b"] by (auto simp: disk_inv_def)
next
  case (flush b)
  have "readable M (merkle s) \<union> on_disk M (merkle s) \<subseteq> on_disk M (cas_flush M (merkle s))"
    using assms(1) unfolding mesha_ok_def cas_flush_def on_disk_def readable_def by simp
  then show ?thesis using assms(3) flush by (auto simp: disk_inv_def)
next
  case (commit b)
  then show ?thesis using assms(3) by (auto simp: disk_inv_def)
next
  case give_up
  then show ?thesis using assms(3) by (simp add: disk_inv_def)
next
  case (insert_other kvs)
  have "A \<subseteq> on_disk M (merkle s) \<Longrightarrow> A \<subseteq> on_disk M (insert_nodes E M kvs (merkle s))"
    "A \<subseteq> readable M (merkle s) \<Longrightarrow> A \<subseteq> readable M (insert_nodes E M kvs (merkle s))" for A
    using insert_nodes_effect [OF assms(1), where c = "merkle s" and E = E and kvs = kvs] by blast+
  then show ?thesis
    using assms(3) by (cases "commit_phase s") (simp_all add: insert_other disk_inv_def)
next
  case (crash n)
  have "on_disk M (cas_new (m_open M (m_disk M (inner (merkle s))))) = on_disk M (merkle s)"
    using assms(1) by (simp add: mesha_ok_def cas_new_def on_disk_def)
  then show ?thesis using assms(3) in_set_takeD [of _ n "committed s"] by (simp add: crash disk_inv_def)
qed

lemma disk_inv_run:
  assumes "mesha_ok M" "disk_run E M nodes (disk_start M) s"
  shows "disk_inv E M nodes s"
  using assms(2)
  by (induction rule: rtranclp_induct) (simp add: disk_inv_def disk_start_def, rule disk_inv_step [OF assms(1)])

section \<open>Properties\<close>

text \<open>
  C9: SQLite never points to Merkle nodes that are not there. Whenever the machine stops,
  and however often it has stopped before, the store opened afterwards can read every
  node of the state of every block that SQLite kept: the nodes were flushed first.
\<close>

theorem committed_blocks_have_their_nodes:
  assumes "mesha_ok M" and "disk_run E M nodes (disk_start M) s"
    and "b \<in> set (committed s)" and "(key, v) \<in> set (nodes b)"
  shows "cas_get E M (cas_new (m_open M (m_disk M (inner (merkle s))))) key \<noteq> None"
proof -
  have "hash_single E key \<in> node_keys E (nodes b)" using assms(4) by (auto simp: node_keys_def)
  then have "hash_single E key \<in> on_disk M (merkle s)"
    using disk_inv_run [OF assms(1,2)] assms(3) by (auto simp: disk_inv_def)
  then show ?thesis using assms(1) by (auto simp: cas_get_def cas_new_def mesha_ok_def on_disk_def)
qed

text \<open>A mapping with a write buffer: the buffer in front, the disk behind.\<close>

definition ex_mesha :: "((hashval \<Rightarrow> bytes option) \<times> (hashval \<Rightarrow> bytes option)) mesha_ops" where
  "ex_mesha = \<lparr>m_get = (\<lambda>(buffer, disk). disk ++ buffer), m_insert = (\<lambda>k v (buffer, disk). (buffer(k \<mapsto> v), disk)),
     m_flush = (\<lambda>(buffer, disk). (Map.empty, disk ++ buffer)), m_disk = snd, m_open = Pair Map.empty\<rparr>"

lemma ex_mesha_ok: "mesha_ok ex_mesha"
  by (auto simp: mesha_ok_def ex_mesha_def map_add_def split: option.split)

definition ex_nodes :: "block \<Rightarrow> (bytes \<times> bytes) list" where
  "ex_nodes b = [([1], [7])]"

theorem committed_blocks_have_their_nodes_witness:
  "\<exists>s. disk_run ex_env ex_mesha ex_nodes (disk_start ex_mesha) s \<and> committed s = [ex_b1] \<and>
     cas_get ex_env ex_mesha (cas_new (m_open ex_mesha (m_disk ex_mesha (inner (merkle s))))) [1] \<noteq> None"
proof -
  let ?s0 = "disk_start ex_mesha"
  let ?s1 = "?s0\<lparr>merkle := insert_nodes ex_env ex_mesha (ex_nodes ex_b1) (merkle ?s0), commit_phase := Inserted ex_b1\<rparr>"
  let ?s2 = "?s1\<lparr>merkle := cas_flush ex_mesha (merkle ?s1), commit_phase := Flushed ex_b1\<rparr>"
  let ?s3 = "?s2\<lparr>committed := committed ?s2 @ [ex_b1], commit_phase := No_call\<rparr>"
  have "disk_step ex_env ex_mesha ex_nodes ?s0 ?s1" by (rule apply_state) (simp add: disk_start_def)
  moreover have "disk_step ex_env ex_mesha ex_nodes ?s1 ?s2" by (rule flush) simp
  moreover have "disk_step ex_env ex_mesha ex_nodes ?s2 ?s3" by (rule commit) simp
  ultimately have run: "disk_run ex_env ex_mesha ex_nodes ?s0 ?s3"
    by (meson converse_rtranclp_into_rtranclp rtranclp.rtrancl_refl)
  have c: "committed ?s3 = [ex_b1]" by (simp add: disk_start_def)
  have "ex_b1 \<in> set (committed ?s3)" unfolding c by simp
  from committed_blocks_have_their_nodes [OF ex_mesha_ok run this, of "[1]" "[7]"] run c show ?thesis
    by (intro exI [of _ ?s3]) (simp add: ex_nodes_def)
qed

end
