(* ===== verification/Blksync.thy ===== *)
theory Blksync
  imports Storage_Inv
begin

text \<open>
  \<open>src/node/blksync.rs\<close>: catching up with a peer. The peer is not trusted: a
  \<open>peer\<close> is any function from calls to answers. The loops are written over the
  operations of a block store and proved against that interface.
\<close>

section \<open>Peers and the wire format\<close>

text \<open>
  \<open>get_summary\<close> (the height only), \<open>get_lz4_blocks\<close>, the n-th call of which may answer
  differently from the others, and \<open>get_full_block\<close>. Time-outs and network errors are
  error results.
\<close>

record peer =
  peer_summary :: "u64 res"
  peer_lz4_blocks :: "nat \<Rightarrow> u64 \<Rightarrow> u64 \<Rightarrow> string option res"
  peer_full_block :: "u64 \<Rightarrow> (block \<times> consensus_proof) option res"

text \<open>base64, lz4 and the stdcode of a batch, and that each reads back what it wrote.\<close>

record wire =
  b64_encode :: "bytes \<Rightarrow> string"
  b64_decode :: "string \<Rightarrow> bytes option"
  lz4_compress :: "bytes \<Rightarrow> bytes"
  lz4_decompress :: "bytes \<Rightarrow> bytes option"
  enc_batch :: "block list \<times> consensus_proof list \<Rightarrow> bytes"
  dec_batch :: "bytes \<Rightarrow> (block list \<times> consensus_proof list) option"

definition wire_ok :: "wire \<Rightarrow> bool" where
  "wire_ok W \<longleftrightarrow>
     (\<forall>bs. b64_decode W (b64_encode W bs) = Some bs) \<and>
     (\<forall>bs. lz4_decompress W (lz4_compress W bs) = Some bs) \<and>
     (\<forall>x. dec_batch W (enc_batch W x) = Some x)"

definition encode_batch :: "wire \<Rightarrow> block list \<times> consensus_proof list \<Rightarrow> string" where
  "encode_batch W x = b64_encode W (lz4_compress W (enc_batch W x))"

definition decode_batch :: "wire \<Rightarrow> string \<Rightarrow> (block list \<times> consensus_proof list) res" where
  "decode_batch W s =
     (case b64_decode W s of
        None \<Rightarrow> Err (Lib ''base64'')
      | Some compressed \<Rightarrow> (case lz4_decompress W compressed of
            None \<Rightarrow> Err (Lib ''lz4'')
          | Some decompressed \<Rightarrow> (case dec_batch W decompressed of
                None \<Rightarrow> Err Deser
              | Some x \<Rightarrow> Ok x)))"

lemma decode_encode_batch: "wire_ok W \<Longrightarrow> decode_batch W (encode_batch W x) = Ok x"
  by (cases x) (simp add: wire_ok_def decode_batch_def encode_batch_def)

section \<open>The compressed synchronisation\<close>

definition fetch_blocks ::
  "wire \<Rightarrow> peer \<Rightarrow> nat \<Rightarrow> u64 \<Rightarrow> (block list \<times> consensus_proof list) res" where
  [op_defs]: "fetch_blocks W P n h =
     bind_res (context_res ''failed to get compressed blocks'' (peer_lz4_blocks P n h 500000))
       (\<lambda>compressed_blocks. case compressed_blocks of
          Some compressed \<Rightarrow> decode_batch W compressed
        | None \<Rightarrow> Err (MissingBlock h))"

text \<open>The \<open>for\<close> loop over one batch; \<open>h\<close> is the height the batch was asked for.\<close>

fun apply_batch ::
  "('s \<Rightarrow> block \<Rightarrow> consensus_proof \<Rightarrow> unit res \<times> 's) \<Rightarrow> u64 \<Rightarrow> u64
   \<Rightarrow> (block \<times> consensus_proof) list \<Rightarrow> nat \<Rightarrow> 's \<Rightarrow> nat res \<times> 's" where
  "apply_batch apply_b h last_applied_height [] num_blocks_applied s = (Ok num_blocks_applied, s)"
| "apply_batch apply_b h last_applied_height ((blk, cproof) # rest) num_blocks_applied s =
     (if height (blk_header blk) \<noteq> last_applied_height
      then (Err (WantedBlock h (height (blk_header blk))), s)
      else bind_st (map_prod (context_res ''could not apply a resolved block'') id (apply_b s blk cproof))
        (\<lambda>_ s'. bind_st (of_checked (checked_add last_applied_height 1), s')
          (\<lambda>next s'. apply_batch apply_b h next rest (Suc num_blocks_applied) s')))"

text \<open>
  One pass of the \<open>while\<close> loop over the number of the call, the next height, the number
  of blocks applied and the store; then the loop, \<open>None\<close> when it goes round for ever.
\<close>

type_synonym 's sync_vars = "nat \<times> u64 \<times> nat \<times> 's"

definition sync_step ::
  "wire \<Rightarrow> peer \<Rightarrow> ('s \<Rightarrow> block \<Rightarrow> consensus_proof \<Rightarrow> unit res \<times> 's) \<Rightarrow> u64 \<Rightarrow> 's sync_vars
   \<Rightarrow> (nat res \<times> 's) + 's sync_vars" where
  "sync_step W P apply_b their_highest = (\<lambda>(n, h, num_blocks_applied, s).
     if h \<le> their_highest then
       (case fetch_blocks W P n h of
          Ok (blocks, cproofs) \<Rightarrow>
            (case apply_batch apply_b h h (zip blocks cproofs) num_blocks_applied s of
               (Ok num', s') \<Rightarrow>
                 (case checked_add h (of_nat (length blocks)) of
                    None \<Rightarrow> Inl (Panic Overflow, s')
                  | Some h' \<Rightarrow> Inr (Suc n, h', num', s'))
             | (Err e, s') \<Rightarrow> Inl (Err e, s')
             | (Panic p, s') \<Rightarrow> Inl (Panic p, s')
             | (Hang, s') \<Rightarrow> Inl (Hang, s'))
        | Err e \<Rightarrow> Inl (Err e, s)
        | Panic p \<Rightarrow> Inl (Panic p, s)
        | Hang \<Rightarrow> Inl (Hang, s))
     else Inl (Ok num_blocks_applied, s))"

definition sync_loop ::
  "wire \<Rightarrow> peer \<Rightarrow> ('s \<Rightarrow> block \<Rightarrow> consensus_proof \<Rightarrow> unit res \<times> 's) \<Rightarrow> u64 \<Rightarrow> 's sync_vars
   \<Rightarrow> (nat res \<times> 's) option" where
  "sync_loop W P apply_b their_highest = iterate (sync_step W P apply_b their_highest)"

section \<open>The legacy synchronisation\<close>

text \<open>
  \<open>str::parse::<usize>\<close>: an optional plus sign and at least one digit, the value below
  \<open>2 ^ 64\<close>.
\<close>

definition digit_val :: "char \<Rightarrow> nat option" where
  "digit_val c =
     (let n = (of_char c :: nat) in if 48 \<le> n \<and> n \<le> 57 then Some (n - 48) else None)"

fun parse_digits :: "string \<Rightarrow> nat \<Rightarrow> nat option" where
  "parse_digits [] acc = Some acc"
| "parse_digits (c # cs) acc =
     (case digit_val c of
        None \<Rightarrow> None
      | Some d \<Rightarrow> if 10 * acc + d < 2 ^ 64 then parse_digits cs (10 * acc + d) else None)"

definition parse_usize :: "string \<Rightarrow> nat option" where
  "parse_usize s =
     (let ds = (case s of [] \<Rightarrow> [] | c # cs \<Rightarrow> if c = CHR ''+'' then cs else s)
      in if ds = [] then None else parse_digits ds 0)"

text \<open>\<open>THEMELIO_BLKSYNC_BATCH\<close>, 1000 when unset or not a number.\<close>

definition blksync_batch :: "string option \<Rightarrow> nat" where
  "blksync_batch var =
     (case Option.bind var parse_usize of None \<Rightarrow> 1000 | Some n \<Rightarrow> n)"

definition legacy_heights :: "u64 \<Rightarrow> u64 \<Rightarrow> nat \<Rightarrow> u64 list" where
  "legacy_heights my_highest their_highest batch =
     take batch (map of_nat (drop 1 [unat my_highest..<Suc (unat their_highest)]))"

definition fetch_full_block :: "peer \<Rightarrow> u64 \<Rightarrow> (block \<times> consensus_proof) res" where
  [op_defs]: "fetch_full_block P h =
     bind_res (context_res ''timeout'' (peer_full_block P h)) (\<lambda>ob. case ob of
         None \<Rightarrow> Err (MissingBlock h)
       | Some (blk, cproof) \<Rightarrow>
           if height (blk_header blk) \<noteq> h then Err (WantedBlock h (height (blk_header blk)))
           else Ok (blk, cproof))"

text \<open>
  The stream fetches up to 64 blocks ahead but hands them out in order; a fetch does not
  look at the storage, so fetching each block when its turn comes is the same.
\<close>

fun legacy_loop ::
  "peer \<Rightarrow> ('s \<Rightarrow> block \<Rightarrow> consensus_proof \<Rightarrow> unit res \<times> 's) \<Rightarrow> u64 list \<Rightarrow> nat \<Rightarrow> 's
   \<Rightarrow> nat res \<times> 's" where
  "legacy_loop P apply_b [] toret s = (Ok toret, s)"
| "legacy_loop P apply_b (h # hs) toret s =
     bind_st (fetch_full_block P h, s) (\<lambda>(blk, cproof) s.
       bind_st (map_prod (context_res ''could not apply a resolved block'') id (apply_b s blk cproof))
         (\<lambda>_ s'. legacy_loop P apply_b hs (Suc toret) s'))"

section \<open>An attempt\<close>

definition attempt_blksync_legacy ::
  "peer \<Rightarrow> nat \<Rightarrow> ('s \<Rightarrow> u64 res) \<Rightarrow> ('s \<Rightarrow> block \<Rightarrow> consensus_proof \<Rightarrow> unit res \<times> 's) \<Rightarrow> 's
   \<Rightarrow> nat res \<times> 's" where
  "attempt_blksync_legacy P batch top_height apply_b s =
     bind_st (context_res ''cannot get their highest block'' (peer_summary P), s) (\<lambda>their_highest s.
       bind_st (top_height s, s) (\<lambda>my_highest s.
         if their_highest \<le> my_highest then (Ok 0, s)
         else legacy_loop P apply_b (legacy_heights my_highest their_highest batch) 0 s))"

definition attempt_blksync ::
  "wire \<Rightarrow> peer \<Rightarrow> bool \<Rightarrow> nat \<Rightarrow> ('s \<Rightarrow> u64 res) \<Rightarrow> ('s \<Rightarrow> block \<Rightarrow> consensus_proof \<Rightarrow> unit res \<times> 's)
   \<Rightarrow> 's \<Rightarrow> (nat res \<times> 's) option" where
  "attempt_blksync W P old_blksync batch top_height apply_b s =
     (if old_blksync then Some (attempt_blksync_legacy P batch top_height apply_b s)
      else
        (case (context_res ''cannot get their highest block'' (peer_summary P), top_height s) of
           (Ok their_highest, Ok my_highest) \<Rightarrow>
             if their_highest \<le> my_highest then Some (Ok 0, s)
             else (case checked_add my_highest 1 of
                 None \<Rightarrow> Some (Panic Overflow, s)
               | Some h \<Rightarrow> sync_loop W P apply_b their_highest (0, h, 0, s))
         | (Err e, _) \<Rightarrow> Some (Err e, s)
         | (Panic p, _) \<Rightarrow> Some (Panic p, s)
         | (Hang, _) \<Rightarrow> Some (Hang, s)
         | (_, Err e) \<Rightarrow> Some (Err e, s)
         | (_, Panic p) \<Rightarrow> Some (Panic p, s)
         | (_, Hang) \<Rightarrow> Some (Hang, s)))"

section \<open>Facts about the loops\<close>

lemma apply_batch_all:
  assumes "\<And>i. i < length bps \<Longrightarrow> unat (height (blk_header (fst (bps ! i)))) = unat l + i"
    and "unat l + length bps < 2 ^ 64"
    and "apply_all apply_b bps s = (Ok (), s')"
  shows "apply_batch apply_b h l bps n s = (Ok (n + length bps), s')"
  using assms
proof (induction bps arbitrary: l n s)
  case Nil
  then show ?case by simp
next
  case (Cons x bps)
  obtain b p where x: "x = (b, p)" by (cases x)
  have hb: "height (blk_header b) = l"
    using Cons.prems(1) [of 0] by (intro word_unat_eq_iff [THEN iffD2]) (simp add: x)
  obtain s1 where a: "apply_b s b p = (Ok (), s1)" "apply_all apply_b bps s1 = (Ok (), s')"
    using Cons.prems(3) by (auto simp: x bind_st_Ok)
  have l: "checked_add l 1 = Some (l + 1)" "unat (l + 1) = Suc (unat l)"
    using Cons.prems(2) by (simp_all add: checked_add_def unat_plus_one)
  have "apply_batch apply_b h (l + 1) bps (Suc n) s1 = (Ok (Suc n + length bps), s')"
  proof (rule Cons.IH [OF _ _ a(2)])
    show "unat (height (blk_header (fst (bps ! i)))) = unat (l + 1) + i" if "i < length bps" for i
      using Cons.prems(1) [of "Suc i"] that by (simp add: l(2))
  qed (use Cons.prems(2) l(2) in simp)
  then show ?case by (simp add: x hb a(1) l(1))
qed

context gaining_store
begin

text \<open>Whatever the blocks of a batch are, what is applied is gained and nothing else happens.\<close>

lemma apply_batch_gains:
  assumes "invar s" and "apply_batch apply_b h l bps n s = (r, s')" and "r = Ok m \<or> r = Err e"
  shows "invar s' \<and> (\<exists>k. gain s k s' \<and> (r = Ok m \<longrightarrow> m = n + k))"
  using assms
proof (induction bps arbitrary: l n s)
  case Nil
  then show ?case using gain_refl by (intro conjI exI [of _ 0]) auto
next
  case (Cons x bps)
  obtain b p where x: "x = (b, p)" by (cases x)
  show ?case
  proof (cases "height (blk_header b) = l")
    case False
    with Cons.prems gain_refl show ?thesis by (intro conjI exI [of _ 0]) (auto simp: x)
  next
    case True
    obtain ra s1 where a: "apply_b s b p = (ra, s1)" by (cases "apply_b s b p")
    consider (ok) l' where "ra = Ok ()" "checked_add l 1 = Some l'"
        "apply_batch apply_b h l' bps (Suc n) s1 = (r, s')"
      | (err) e' where "ra = Err e'" "s' = s1" "r \<noteq> Ok m"
      using Cons.prems(2,3) True a
      by (cases ra; cases "checked_add l 1") (auto simp: x)
    then show ?thesis
    proof cases
      case ok
      note st = apply_gain [OF Cons.prems(1) a [unfolded ok(1)]]
      then obtain k where "invar s'" "gain s1 k s'" "r = Ok m \<longrightarrow> m = Suc n + k"
        using Cons.IH [OF _ ok(3) Cons.prems(3)] by blast
      with gain_trans [OF conjunct2 [OF st]] show ?thesis by (intro conjI exI [of _ "1 + k"]) auto
    next
      case err
      with apply_no_gain [OF Cons.prems(1), of b p e' s1] a show ?thesis by auto
    qed
  qed
qed

text \<open>The whole loop, against any peer.\<close>

lemma sync_step_gains:
  assumes "invar s" and "sync_step W P apply_b their (n, h, k, s) = x"
  shows "(\<forall>n' h' k' s'. x = Inr (n', h', k', s') \<longrightarrow>
      invar s' \<and> (\<exists>j. gain s j s' \<and> k' = k + j)) \<and>
    (\<forall>r s'. x = Inl (r, s') \<longrightarrow> (\<exists>m. r = Ok m) \<or> (\<exists>e. r = Err e) \<longrightarrow>
      invar s' \<and> (\<exists>j. gain s j s' \<and> (\<forall>m. r = Ok m \<longrightarrow> m = k + j)))"
proof (cases "fetch_blocks W P n h")
  case (Ok bc)
  obtain bl cp where bc: "bc = (bl, cp)" by (cases bc)
  obtain rb sb where b: "apply_batch apply_b h h (zip bl cp) k s = (rb, sb)"
    by (cases "apply_batch apply_b h h (zip bl cp) k s")
  show ?thesis
  proof (cases rb)
    case okb: (Ok k')
    then have "invar sb \<and> (\<exists>j. gain s j sb \<and> k' = k + j)"
      using apply_batch_gains [OF assms(1) b, of k'] by simp
    then show ?thesis
      using assms gain_refl [OF assms(1)] Ok bc b okb by (auto simp: sync_step_def split: option.splits if_splits)
  next
    case (Err e)
    then have "invar sb \<and> (\<exists>j. gain s j sb)"
      using apply_batch_gains [OF assms(1) b, of 0 e] by auto
    then show ?thesis
      using assms gain_refl [OF assms(1)] Ok bc b Err by (auto simp: sync_step_def split: if_splits)
  qed (use assms gain_refl [OF assms(1)] Ok bc b in \<open>auto simp: sync_step_def split: if_splits\<close>)
qed (use assms gain_refl [OF assms(1)] in \<open>auto simp: sync_step_def split: if_splits\<close>)

lemma sync_loop_gains:
  assumes "sync_loop W P apply_b their (n, h, k, s) = Some (r, s')"
    and "invar s" and "r = Ok m \<or> r = Err e"
  shows "invar s' \<and> (\<exists>j. gain s j s' \<and> (r = Ok m \<longrightarrow> m = k + j))"
proof -
  let ?I = "\<lambda>(n, h, k1, s1). invar s1 \<and> (\<exists>j. gain s j s1 \<and> k1 = k + j)"
  let ?Q = "\<lambda>(r, s'). (\<exists>m. r = Ok m) \<or> (\<exists>e. r = Err e) \<longrightarrow>
      invar s' \<and> (\<exists>j. gain s j s' \<and> (\<forall>m. r = Ok m \<longrightarrow> m = k + j))"
  have "?Q (r, s')"
  proof (rule iterate_invariant [where I = ?I and Q = ?Q])
    show "iterate (sync_step W P apply_b their) (n, h, k, s) = Some (r, s')"
      using assms(1) by (simp add: sync_loop_def)
    show "?I (n, h, k, s)" using assms(2) gain_refl by auto
    fix x y assume x: "?I x" "sync_step W P apply_b their x = Inr y"
    obtain n1 h1 k1 s1 n2 h2 k2 s2 where e: "x = (n1, h1, k1, s1)" "y = (n2, h2, k2, s2)"
      by (metis surj_pair)
    have "invar s2 \<and> (\<exists>j. gain s1 j s2 \<and> k2 = k1 + j)"
      using sync_step_gains [of s1 W P their n1 h1 k1 "Inr y"] x by (simp add: e)
    with x(1) gain_trans show "?I y" by (fastforce simp: e)
  next
    fix x y assume x: "?I x" "sync_step W P apply_b their x = Inl y"
    obtain n1 h1 k1 s1 r2 s2 where e: "x = (n1, h1, k1, s1)" "y = (r2, s2)"
      by (metis surj_pair)
    have "(\<exists>m. r2 = Ok m) \<or> (\<exists>e. r2 = Err e) \<longrightarrow> invar s2 \<and>
        (\<exists>j. gain s1 j s2 \<and> (\<forall>m. r2 = Ok m \<longrightarrow> m = k1 + j))"
      using sync_step_gains [of s1 W P their n1 h1 k1 "Inl y"] x by (simp add: e)
    with x(1) gain_trans show "?Q y" by (fastforce simp: e)
  qed
  with assms(3) show ?thesis by auto
qed

lemma legacy_loop_gains:
  assumes "invar s" and "legacy_loop P apply_b hs k s = (r, s')" and "r = Ok m \<or> r = Err e"
  shows "invar s' \<and> (\<exists>j. gain s j s' \<and> (r = Ok m \<longrightarrow> m = k + j))"
  using assms
proof (induction hs arbitrary: k s)
  case Nil
  then show ?case using gain_refl by (intro conjI exI [of _ 0]) auto
next
  case (Cons h hs)
  show ?case
  proof (cases "fetch_full_block P h")
    case (Ok bp)
    obtain b p where bp: "bp = (b, p)" by (cases bp)
    obtain ra s1 where a: "apply_b s b p = (ra, s1)" by (cases "apply_b s b p")
    show ?thesis
    proof (cases ra)
      case ra: (Ok u)
      note st = apply_gain [OF Cons.prems(1), of b p s1] a ra
      have "legacy_loop P apply_b hs (Suc k) s1 = (r, s')"
        using Cons.prems(2) Ok bp a ra by simp
      moreover have "invar s1" using st by simp
      ultimately obtain j where "invar s'" "gain s1 j s'" "r = Ok m \<longrightarrow> m = Suc k + j"
        using Cons.IH [of s1 "Suc k"] Cons.prems(3) by blast
      with gain_trans [of s 1 s1 j s'] st show ?thesis by (intro conjI exI [of _ "1 + j"]) auto
    next
      case (Err e')
      then show ?thesis
        using apply_no_gain [OF Cons.prems(1), of b p e' s1] a Cons.prems(2,3) Ok bp by auto
    qed (use Cons.prems Ok bp a in auto)
  qed (use Cons.prems gain_refl [OF Cons.prems(1)] in \<open>intro conjI exI [of _ 0], auto\<close>)
qed

text \<open>A whole attempt, in either mode, whatever the peer answers and whatever height was read.\<close>

lemma attempt_gains:
  assumes "attempt_blksync W P old batch top_height apply_b s = Some (r, s')"
    and "invar s" and "r = Ok m \<or> r = Err e"
  shows "invar s' \<and> (\<exists>j. gain s j s' \<and> (r = Ok m \<longrightarrow> m = j))"
proof -
  have same: ?thesis if "s' = s" "r = Ok 0 \<or> r = Err e'" for e'
    using that assms(2,3) gain_refl by auto
  note run = assms(1) [unfolded attempt_blksync_def attempt_blksync_legacy_def]
  show ?thesis
  proof (cases "peer_summary P")
    case their: (Ok their)
    show ?thesis
    proof (cases "top_height s")
      case my: (Ok my)
      show ?thesis
      proof (cases "their \<le> my")
        case True
        then show ?thesis using run their my same by (auto split: if_splits)
      next
        case False
        then consider
          (legacy) hs where "legacy_loop P apply_b hs 0 s = (r, s')"
        | (lz4) h where "sync_loop W P apply_b their (0, h, 0, s) = Some (r, s')"
        | (panic) "r = Panic Overflow"
          using run their my by (auto split: if_splits option.splits)
        then show ?thesis
        proof cases
          case legacy
          from legacy_loop_gains [OF assms(2) this assms(3)] show ?thesis by simp
        next
          case lz4
          from sync_loop_gains [OF this assms(2,3)] show ?thesis by simp
        qed (use assms(3) in auto)
      qed
    qed (use run their assms(3) same in \<open>auto split: if_splits\<close>)
  qed (use run assms(3) same in \<open>auto split: if_splits res.splits\<close>)
qed

end

context block_store
begin

text \<open>Alone, an attempt appends as many blocks as it counts.\<close>

lemma attempt_extends:
  assumes "attempt_blksync W P old batch top_height apply_b s = Some (r, s')"
    and "invar s" and "r = Ok m \<or> r = Err e"
  shows "invar s' \<and> (\<exists>bs. blocks s' = blocks s @ bs \<and> (r = Ok m \<longrightarrow> m = length bs))"
  using gaining.attempt_gains [OF assms] by blast

text \<open>A peer whose batches are empty keeps the loop in place.\<close>

lemma empty_batches_spin:
  assumes "invar s" and "peer_summary P = Ok their" and "of_nat (length (blocks s)) < their"
    and "\<And>n. \<exists>cps. fetch_blocks W P n (of_nat (length (blocks s)) + 1) = Ok ([], cps)"
  shows "attempt_blksync W P False batch top_height apply_b s = None"
proof -
  let ?h = "of_nat (length (blocks s)) :: u64"
  note top = top_length [OF assms(1)]
  have n: "unat ?h = length (blocks s)" using top by (simp add: unat_of_nat_small)
  have c: "checked_add ?h 1 = Some (?h + 1)" using top n by (simp add: checked_add_def)
  have le: "?h + 1 \<le> their" using assms(3) by (rule inc_le)
  have "sync_loop W P apply_b their (0, ?h + 1, 0, s) = None"
    unfolding sync_loop_def
  proof (rule iterate_diverges [where I = "\<lambda>x. \<exists>n. x = (n, ?h + 1, 0, s)"])
    fix x :: "'s sync_vars" assume "\<exists>n. x = (n, ?h + 1, 0, s)"
    then obtain n where x: "x = (n, ?h + 1, 0, s)" by blast
    obtain cps where "fetch_blocks W P n (?h + 1) = Ok ([], cps)" using assms(4) by blast
    then have "sync_step W P apply_b their x = Inr (Suc n, ?h + 1, 0, s)"
      by (simp add: x sync_step_def le checked_add_def unat_bound_64)
    then show "\<exists>y. sync_step W P apply_b their x = Inr y \<and> (\<exists>n. y = (n, ?h + 1, 0, s))" by blast
  qed simp
  then show ?thesis using assms(2,3) top c by (simp add: attempt_blksync_def not_less)
qed

end

text \<open>
  A peer that has the blocks \<open>bps\<close> after the first \<open>base\<close> ones: asked for the i-th of
  them it sends some of them from there on, at least one. It may send more proofs than
  blocks, which \<open>zip\<close> drops.
\<close>

definition serves :: "wire \<Rightarrow> peer \<Rightarrow> nat \<Rightarrow> (block \<times> consensus_proof) list \<Rightarrow> bool" where
  "serves W P base bps \<longleftrightarrow>
     peer_summary P = Ok (of_nat (base + length bps)) \<and>
     (\<forall>n i. i < length bps \<longrightarrow>
        (\<exists>k rest. 0 < k \<and> fetch_blocks W P n (of_nat (Suc (base + i))) =
           Ok (map fst (take k (drop i bps)), map snd (take k (drop i bps)) @ rest)))"

lemma zip_map_rest: "zip (map fst xs) (map snd xs @ ys) = xs"
  by (induction xs) auto

context block_store
begin

lemma apply_all_heights:
  assumes "invar s" "apply_all apply_b bps s = (Ok (), s')" "i < length bps"
  shows "unat (height (blk_header (fst (bps ! i)))) = Suc (length (blocks s) + i)"
  using apply_all_Ok [OF assms(1,2)] numbered [of s' "length (blocks s) + i"] assms(3)
  by (simp add: nth_append)

lemma sync_step_served:
  assumes "invar s" "serves W P base bps" "length (blocks s) = base + i" "i < length bps"
    and "apply_all apply_b (drop i bps) s = (Ok (), s')"
  obtains k s1 where "0 < k" "i + k \<le> length bps"
    "sync_step W P apply_b (of_nat (base + length bps)) (n, of_nat (Suc (base + i)), i, s) =
       Inr (Suc n, of_nat (Suc (base + (i + k))), i + k, s1)"
    "invar s1" "length (blocks s1) = base + (i + k)"
    "apply_all apply_b (drop (i + k) bps) s1 = (Ok (), s')"
proof -
  let ?h = "of_nat (Suc (base + i)) :: u64"
  obtain k0 rest where k0: "0 < k0" and f: "fetch_blocks W P n ?h =
      Ok (map fst (take k0 (drop i bps)), map snd (take k0 (drop i bps)) @ rest)"
    using assms(2,4) unfolding serves_def by blast
  let ?xs = "take k0 (drop i bps)"
  define k where "k = length ?xs"
  have k: "0 < k" "i + k \<le> length bps" "drop k (drop i bps) = drop (i + k) bps"
    using k0 assms(4) by (auto simp: k_def min_def add.commute)
  have "apply_all apply_b (?xs @ drop k0 (drop i bps)) s = (Ok (), s')"
    using assms(5) by (simp only: append_take_drop_id)
  then obtain s1 where s1: "apply_all apply_b ?xs s = (Ok (), s1)"
    and rest: "apply_all apply_b (drop k0 (drop i bps)) s1 = (Ok (), s')"
    unfolding apply_all_append by (auto simp: bind_st_Ok)
  note inv1 = apply_all_Ok [OF assms(1) s1]
  have inv': "invar s'" "length (blocks s') = base + length bps"
    using apply_all_Ok [OF assms(1,5)] assms(3,4) by auto
  have small: "base + length bps < 2 ^ 63" using top_length [OF inv'(1)] inv'(2) by simp
  have h: "unat ?h = Suc (base + i)"
    using small assms(4) by (subst unat_of_nat_small) auto
  have "apply_batch apply_b ?h ?h ?xs i s = (Ok (i + length ?xs), s1)"
  proof (rule apply_batch_all [OF _ _ s1])
    show "unat (height (blk_header (fst (?xs ! j)))) = unat ?h + j" if "j < length ?xs" for j
      using apply_all_heights [OF assms(1) s1 that] assms(3) h by simp
    show "unat ?h + length ?xs < 2 ^ 64" using h small k(2) unfolding k_def [symmetric] by simp
  qed
  moreover have "?h \<le> of_nat (base + length bps)"
    using small assms(4) h by (simp add: word_le_nat_alt unat_of_nat_small del: of_nat_Suc of_nat_add)
  moreover have "checked_add ?h (of_nat k) = Some (of_nat (Suc (base + (i + k))))"
    using small k(2) h by (simp add: checked_add_def unat_of_nat_small del: of_nat_Suc of_nat_add)
      (simp add: algebra_simps)
  ultimately have "sync_step W P apply_b (of_nat (base + length bps)) (n, ?h, i, s) =
       Inr (Suc n, of_nat (Suc (base + (i + k))), i + k, s1)"
    by (simp add: sync_step_def f zip_map_rest k_def del: of_nat_Suc of_nat_add)
  moreover have "drop k0 (drop i bps) = drop (i + k) bps"
    by (cases "k0 \<le> length bps - i") (simp_all add: k_def min_def add.commute)
  ultimately show thesis
    using that [of k s1] k inv1 assms(3) rest by (simp add: k_def del: of_nat_Suc of_nat_add)
qed

lemma sync_loop_served:
  assumes "invar s" "serves W P base bps" "length (blocks s) = base + i" "i \<le> length bps"
    and "apply_all apply_b (drop i bps) s = (Ok (), s')"
  shows "sync_loop W P apply_b (of_nat (base + length bps)) (n, of_nat (Suc (base + i)), i, s) =
     Some (Ok (length bps), s')"
  using assms
proof (induction "length bps - i" arbitrary: i n s rule: less_induct)
  case less
  show ?case
  proof (cases "i = length bps")
    case True
    have "invar s" "s' = s" using less.prems True by auto
    then have small: "base + length bps < 2 ^ 63"
      using top_length [of s] less.prems(3) True by simp
    then have "\<not> (of_nat (Suc (base + length bps)) :: u64) \<le> of_nat (base + length bps)"
      by (simp add: word_le_nat_alt unat_of_nat_small del: of_nat_Suc of_nat_add)
    then show ?thesis
      unfolding sync_loop_def
      by (intro iterate_Inl) (simp add: sync_step_def True \<open>s' = s\<close> del: of_nat_Suc of_nat_add)
  next
    case False
    then have i: "i < length bps" using less.prems(4) by simp
    obtain k s1 where st: "0 < k" "i + k \<le> length bps"
      "sync_step W P apply_b (of_nat (base + length bps)) (n, of_nat (Suc (base + i)), i, s) =
         Inr (Suc n, of_nat (Suc (base + (i + k))), i + k, s1)"
      "invar s1" "length (blocks s1) = base + (i + k)"
      "apply_all apply_b (drop (i + k) bps) s1 = (Ok (), s')"
      using sync_step_served [OF less.prems(1-3) i less.prems(5), of n] by blast
    have "sync_loop W P apply_b (of_nat (base + length bps)) (Suc n, of_nat (Suc (base + (i + k))), i + k, s1) =
        Some (Ok (length bps), s')"
      by (rule less.hyps [OF _ st(4) less.prems(2) st(5) st(2) st(6)]) (use st(1) i in simp)
    then show ?thesis unfolding sync_loop_def by (simp only: iterate_Inr [of "sync_step _ _ _ _", OF st(3)])
  qed
qed

text \<open>An honest peer, and a storage that accepts its blocks: the attempt applies them all.\<close>

lemma attempt_served:
  assumes "invar s" "serves W P (length (blocks s)) bps" "apply_all apply_b bps s = (Ok (), s')"
  shows "attempt_blksync W P False batch top_height apply_b s = Some (Ok (length bps), s')"
proof -
  let ?b = "length (blocks s)"
  note top = top_length [OF assms(1)]
  have inv': "invar s'" "length (blocks s') = ?b + length bps"
    using apply_all_Ok [OF assms(1,3)] by auto
  have small: "?b + length bps < 2 ^ 63" using top_length [OF inv'(1)] inv'(2) by simp
  have le: "(of_nat (?b + length bps) :: u64) \<le> of_nat ?b \<longleftrightarrow> bps = []"
    using small by (auto simp: word_le_nat_alt unat_of_nat_small simp del: of_nat_add)
  have c: "checked_add (of_nat ?b :: u64) 1 = Some (of_nat (Suc ?b))"
    using small by (simp add: checked_add_def unat_of_nat_small)
  have "sync_loop W P apply_b (of_nat (?b + length bps)) (0, of_nat (Suc (?b + 0)), 0, s) =
      Some (Ok (length bps), s')"
    by (rule sync_loop_served) (use assms in simp_all)
  then show ?thesis
    using assms(2,3) top c le
    by (cases "bps = []") (simp_all add: attempt_blksync_def serves_def del: of_nat_add of_nat_Suc)
qed

end

lemma legacy_loop_count:
  "legacy_loop P apply_b hs k s = (Ok m, s') \<Longrightarrow> m = k + length hs"
proof (induction hs arbitrary: k s)
  case Nil
  then show ?case by simp
next
  case (Cons h hs)
  obtain bp where "fetch_full_block P h = Ok bp"
    using Cons.prems by (cases "fetch_full_block P h") auto
  moreover obtain ra s1 where "apply_b s (fst bp) (snd bp) = (ra, s1)"
    by (cases "apply_b s (fst bp) (snd bp)")
  ultimately show ?case
    using Cons.prems Cons.IH [of "Suc k" s1] by (cases ra; cases bp) auto
qed

end
