(* ===== verification/Blksync_Props.thy ===== *)
theory Blksync_Props
  imports Blksync Example_Run
begin

text \<open>
  Block synchronisation on the node's own storage: the facts of the block store interface,
  taken through its interpretation on \<open>apply_block\<close>.
\<close>

section \<open>A concrete peer\<close>

text \<open>One character per byte for base64, no compression, a batch as two lists.\<close>

definition ex_wire :: wire where
  "ex_wire = \<lparr>b64_encode = map (\<lambda>b. char_of (unat b)),
     b64_decode = (\<lambda>s. Some (map (\<lambda>c. of_nat (of_char c)) s)),
     lz4_compress = id, lz4_decompress = Some,
     enc_batch = (\<lambda>(bs, cps). en_list en_block bs @ en_list (en_list en_sig) cps),
     dec_batch = whole (de_then (de_list de_block) (\<lambda>bs. de_then (de_list (de_list de_sig))
        (\<lambda>cps r. Some ((bs, cps), r))))\<rparr>"

lemma ex_wire_ok: "wire_ok ex_wire"
proof -
  have "of_nat (unat (x :: u8) mod 256) = x" for x
  proof -
    have "unat x < 256" using unsigned_less [of x, where 'a = nat] by simp
    then show ?thesis by simp
  qed
  then show ?thesis
    by (auto simp: wire_ok_def ex_wire_def o_def de_then_def de_en_list intro!: whole_en map_idI)
qed

text \<open>A peer that holds the two blocks of the example chain and sends all it has.\<close>

definition ex_chain_proofs :: "(block \<times> consensus_proof) list" where
  "ex_chain_proofs = [(ex_b1, ex_proof [7] 1), (ex_b2, ex_proof [7] 2)]"

definition ex_peer :: peer where
  "ex_peer = \<lparr>peer_summary = Ok 2,
     peer_lz4_blocks = (\<lambda>n h limit.
       let xs = drop (unat h - 1) ex_chain_proofs
       in Ok (if xs = [] then None else Some (encode_batch ex_wire (map fst xs, map snd xs)))),
     peer_full_block = (\<lambda>h. Ok (map_of (zip [1, 2] ex_chain_proofs) h))\<rparr>"

lemma ex_apply_chain: "apply_all (apply_block ex_env) ex_chain_proofs ex_st0 = (Ok (), ex_st2)"
  by (simp add: ex_chain_proofs_def ex_apply1 ex_apply2)

lemma ex_chain0: "chain ex_env (db ex_st0) = []"
  by (simp add: ex_st0_db chain_def)

lemma ex_peer_serves: "serves ex_wire ex_peer (length (chain ex_env (db ex_st0))) ex_chain_proofs"
proof -
  have "fetch_blocks ex_wire ex_peer n (of_nat (Suc i)) =
      Ok (map fst (take 2 (drop i ex_chain_proofs)), map snd (take 2 (drop i ex_chain_proofs)) @ [])"
    if "i < length ex_chain_proofs" for n i
  proof -
    from that have "i = 0 \<or> i = 1" by (auto simp: ex_chain_proofs_def)
    then show ?thesis
      by (auto simp: fetch_blocks_def ex_peer_def ex_chain_proofs_def decode_encode_batch [OF ex_wire_ok])
  qed
  then show ?thesis
    unfolding serves_def ex_chain0
    by (auto simp: ex_peer_def ex_chain_proofs_def intro!: exI [of _ 2] exI [of _ "[]"])
qed

section \<open>Any peer\<close>

text \<open>
  Whatever a peer answers, and in either mode of synchronisation, an attempt that
  returns (a number of blocks or an error) leaves a well-formed storage whose chain is the
  old chain with blocks appended; an attempt that succeeds reports exactly how many.
\<close>

theorem blksync_only_appends:
  assumes "attempt_blksync W P old batch highest_height (apply_block E) st = Some (r, st')"
    and "wf_storage E st" and "r = Ok m \<or> r = Err e"
  shows "wf_storage E st' \<and>
    (\<exists>bs. chain E (db st') = chain E (db st) @ bs \<and> (r = Ok m \<longrightarrow> m = length bs))"
  by (rule store.attempt_extends [OF assms])

text \<open>
  C36: A peer that claims a higher chain and answers the request for the next block with
  an empty batch is asked for the same block again and again: the attempt never ends, and
  so neither does the node's synchronisation task.
\<close>

theorem blksync_empty_batches_never_end:
  assumes "wf_storage E st" and "peer_summary P = Ok their"
    and "of_nat (length (chain E (db st))) < their"
    and "\<And>n. \<exists>cps. fetch_blocks W P n (of_nat (length (chain E (db st))) + 1) = Ok ([], cps)"
  shows "attempt_blksync W P False batch highest_height (apply_block E) st = None"
  by (rule store.empty_batches_spin [OF assms])

text \<open>
  A peer that has more blocks, which the storage would accept one after the other, and
  sends at least one of them per request brings the storage to the end of its chain: the
  attempt ends, and the storage is the one that applying these blocks in order gives.
\<close>

theorem blksync_catches_up:
  assumes "wf_storage E st" and "serves W P (length (chain E (db st))) bps"
    and "apply_all (apply_block E) bps st = (Ok (), st')"
  shows "attempt_blksync W P False batch highest_height (apply_block E) st = Some (Ok (length bps), st')"
  by (rule store.attempt_served [OF assms])

text \<open>
  An attempt in legacy mode that succeeds has applied every block the peer claims to
  have beyond the own chain, up to the batch size.
\<close>

theorem blksync_legacy_count:
  assumes "wf_storage E st" and "peer_summary P = Ok their"
    and "attempt_blksync_legacy P batch highest_height (apply_block E) st = (Ok m, st')"
  shows "m = min batch (unat their - length (chain E (db st)))"
proof -
  note top = store.top_length [OF assms(1)]
  have n: "unat (of_nat (length (chain E (db st))) :: u64) = length (chain E (db st))"
    using top by (simp add: unat_of_nat_small)
  show ?thesis
  proof (cases "their \<le> of_nat (length (chain E (db st)))")
    case True
    then show ?thesis
      using assms(2,3) top n by (simp add: attempt_blksync_legacy_def word_le_nat_alt)
  next
    case False
    then have "legacy_loop P (apply_block E)
        (legacy_heights (of_nat (length (chain E (db st)))) their batch) 0 st = (Ok m, st')"
      using assms(2,3) top by (simp add: attempt_blksync_legacy_def)
    from legacy_loop_count [OF this] show ?thesis
      using n by (simp add: legacy_heights_def min.commute)
  qed
qed

section \<open>Witnesses\<close>

theorem blksync_only_appends_witness:
  "\<exists>st'. wf_storage ex_env st' \<and> (\<exists>bs. chain ex_env (db st') = bs \<and> 2 = length bs)"
proof -
  have "attempt_blksync ex_wire ex_peer False 1000 highest_height (apply_block ex_env) ex_st0 =
      Some (Ok 2, ex_st2)"
    using store.attempt_served [OF ex_st0_wf ex_peer_serves ex_apply_chain]
    by (simp add: ex_chain_proofs_def)
  from blksync_only_appends [OF this ex_st0_wf, of 2] show ?thesis
    by (auto simp: ex_chain0)
qed

definition ex_empty_peer :: peer where
  "ex_empty_peer = ex_peer\<lparr>peer_lz4_blocks := (\<lambda>n h limit. Ok (Some (encode_batch ex_wire ([], []))))\<rparr>"

theorem blksync_empty_batches_never_end_witness:
  "attempt_blksync ex_wire ex_empty_peer False 1000 highest_height (apply_block ex_env) ex_st0 = None"
proof (rule blksync_empty_batches_never_end [OF ex_st0_wf])
  show "peer_summary ex_empty_peer = Ok 2" by (simp add: ex_empty_peer_def ex_peer_def)
  show "of_nat (length (chain ex_env (db ex_st0))) < (2 :: u64)" by (simp add: ex_chain0)
  fix n
  show "\<exists>cps. fetch_blocks ex_wire ex_empty_peer n (of_nat (length (chain ex_env (db ex_st0))) + 1) = Ok ([], cps)"
    by (simp add: fetch_blocks_def ex_empty_peer_def decode_encode_batch [OF ex_wire_ok])
qed

theorem blksync_catches_up_witness:
  "attempt_blksync ex_wire ex_peer False 1000 highest_height (apply_block ex_env) ex_st0 =
     Some (Ok (length ex_chain_proofs), ex_st2)"
  by (rule blksync_catches_up [OF ex_st0_wf ex_peer_serves ex_apply_chain])

theorem blksync_legacy_count_witness:
  "\<exists>m st'. attempt_blksync_legacy ex_peer 1 highest_height (apply_block ex_env) ex_st0 = (Ok m, st') \<and>
     m = min 1 (unat (2 :: u64) - length (chain ex_env (db ex_st0)))"
proof -
  have e: "legacy_heights (0 :: u64) 2 1 = [1]" by (simp add: legacy_heights_def upt_rec)
  note e' = e [simplified]
  have b: "height (blk_header ex_b1) = 1" by (simp add: ex_b1_def ex_block_def ex_header_def)
  have h: "highest_height ex_st0 = Ok 0"
    using store.top_length [OF ex_st0_wf] by (simp add: ex_chain0)
  have "attempt_blksync_legacy ex_peer 1 highest_height (apply_block ex_env) ex_st0 = (Ok 1, ex_st1)"
    by (simp add: attempt_blksync_legacy_def h ex_peer_def e' fetch_full_block_def ex_chain_proofs_def
        b ex_apply1)
  moreover have "peer_summary ex_peer = Ok 2" by (simp add: ex_peer_def)
  ultimately show ?thesis using blksync_legacy_count [OF ex_st0_wf] by blast
qed

end
