(* ===== verification/Blksync_Shared.thy ===== *)
theory Blksync_Shared
  imports Blksync_Props Chain_Growth
begin

text \<open>
  Block synchronisation while others write: between two of its calls of \<open>apply_block\<close> the
  staker, another node's block or a reader may have been at the storage.
\<close>

section \<open>The storage between two calls\<close>

text \<open>
  \<open>others n\<close> is what the other tasks do to the storage before the n-th call; they only let
  it grow, as every run of them does.
\<close>

definition interfered ::
  "(nat \<Rightarrow> 's \<Rightarrow> 's) \<Rightarrow> ('s \<Rightarrow> block \<Rightarrow> consensus_proof \<Rightarrow> unit res \<times> 's)
   \<Rightarrow> nat \<times> 's \<Rightarrow> block \<Rightarrow> consensus_proof \<Rightarrow> unit res \<times> (nat \<times> 's)" where
  "interfered others apply_b = (\<lambda>(n, s) b p. map_prod id (Pair (Suc n)) (apply_b (others n s) b p))"

definition others_grow :: "('ss, 'us, 'sk) env \<Rightarrow> (nat \<Rightarrow> 'us storage \<Rightarrow> 'us storage) \<Rightarrow> bool" where
  "others_grow E others \<longleftrightarrow> (\<forall>n st. wf_storage E st \<longrightarrow> later E st (others n st))"

definition gained :: "('ss, 'us, 'sk) env \<Rightarrow> nat \<times> 'us storage \<Rightarrow> nat \<Rightarrow> nat \<times> 'us storage \<Rightarrow> bool" where
  "gained E s k s' \<longleftrightarrow> later E (snd s) (snd s') \<and> length (chain E (db (snd s))) + k \<le> length (chain E (db (snd s')))"

lemma later_length: "later E a b \<Longrightarrow> length (chain E (db a)) \<le> length (chain E (db b))"
  using laterD(3) by (metis le_add1 length_append)

interpretation shared: gaining_store "\<lambda>s. wf_storage E (snd s) \<and> others_grow E others" "gained E"
  "interfered others (apply_block E)" for E :: "('ss, 'us, 'sk) env" and others
proof (unfold_locales, goal_cases)
  case (1 s)
  then show ?case by (simp add: gained_def later_refl)
next
  case (2 s k t l u)
  then show ?case using later_trans by (fastforce simp: gained_def)
next
  case (3 s b p s')
  obtain n st where s: "s = (n, st)" by (cases s)
  obtain st' where st': "s' = (Suc n, st')" "apply_block E (others n st) b p = (Ok (), st')"
    using 3(2) by (cases "apply_block E (others n st) b p") (auto simp: s interfered_def)
  have l: "later E st (others n st)" using 3(1) by (simp add: s others_grow_def)
  from apply_block_later(1) [OF laterD(1) [OF l] st'(2)] apply_block_extends [OF laterD(1) [OF l] st'(2)]
  show ?case using 3(1) later_length [OF l] later_trans [OF l] by (simp add: s st'(1) gained_def)
next
  case (4 s b p e s')
  obtain n st where s: "s = (n, st)" by (cases s)
  obtain st' where st': "s' = (Suc n, st')" "apply_block E (others n st) b p = (Err e, st')"
    using 4(2) by (cases "apply_block E (others n st) b p") (auto simp: s interfered_def)
  have l: "later E st (others n st)" using 4(1) by (simp add: s others_grow_def)
  have "later E (others n st) st'"
    using apply_block_Err [OF wf_storageD(1) [OF laterD(1) [OF l]] st'(2)] later_same [OF laterD(1) [OF l]] by blast
  from later_trans [OF l this] show ?case
    using 4(1) laterD(1) later_length [of E st st'] by (simp add: s st'(1) gained_def)
qed

section \<open>An attempt amid other writers\<close>

text \<open>
  C7: Synchronisation tolerates other writers. Whatever the peer answers, and whatever the
  other tasks append to the storage between two calls of \<open>apply_block\<close>, an attempt that
  returns leaves a well-formed storage that grew out of the first: no block is replaced,
  every old state reads the same, and at least as many blocks as it reports were added.
\<close>

theorem blksync_amid_writers:
  assumes "attempt_blksync W P old batch (\<lambda>(n, st). highest_height st) (interfered others (apply_block E)) (0, st) =
      Some (r, (n, st'))"
    and "wf_storage E st" and "others_grow E others" and "r = Ok m \<or> r = Err e"
  shows "later E st st' \<and> (r = Ok m \<longrightarrow> length (chain E (db st)) + m \<le> length (chain E (db st')))"
  using shared.attempt_gains [OF assms(1) _ assms(4)] assms(2,3) by (auto simp: gained_def)

text \<open>
  The staker has just stored the first block when the synchronisation comes to apply it: the
  attempt ends with an error, and the storage is the one the staker left.
\<close>

definition ex_staker_first :: "nat \<Rightarrow> ex_state storage \<Rightarrow> ex_state storage" where
  "ex_staker_first n st =
     (if n = 0 then (case apply_block ex_env st ex_b1 (ex_proof [7] 1) of (Ok _, st') \<Rightarrow> st' | _ \<Rightarrow> st) else st)"

lemma ex_staker_first_grows: "others_grow ex_env ex_staker_first"
  using apply_block_later(1)
  by (auto simp: others_grow_def ex_staker_first_def later_refl split: res.split prod.split)

lemma ex_refused: "\<exists>st'. apply_block ex_env ex_st1 ex_b1 (ex_proof [7] 1) = (Err (CannotApply 1 1), st')"
proof -
  have "fst (highest_state ex_env ex_st1) = Ok ex_tip1"
    using highest_state_spec(1) [OF wf_storageD(1) [OF ex_st1_wf]] ex_top1 by (simp add: ex_st1_db)
  then obtain st' where h: "highest_state ex_env ex_st1 = (Ok ex_tip1, st')" by (metis prod.collapse)
  have "height (header_of ex_env ex_tip1) = 1"
    using top_state_height [OF wf_storageD(1) [OF ex_st1_wf], of ex_tip1] ex_top1
    by (intro word_unat_eq_iff [THEN iffD2]) (simp add: ex_st1_db ex_st1_chain [unfolded ex_st1_db])
  moreover have "height (blk_header ex_b1) = 1" by (simp add: ex_b1_def ex_block_def ex_header_def)
  ultimately show ?thesis by (simp add: apply_block_def h Let_def checked_add_def)
qed

theorem blksync_amid_writers_witness:
  "\<exists>n st'. attempt_blksync ex_wire ex_peer False 1000 (\<lambda>(n, st). highest_height st)
       (interfered ex_staker_first (apply_block ex_env)) (0, ex_st0) =
     Some (Err (Ctx ''could not apply a resolved block'' (CannotApply 1 1)), (n, st')) \<and> later ex_env ex_st0 st'"
proof -
  obtain st' where r: "apply_block ex_env ex_st1 ex_b1 (ex_proof [7] 1) = (Err (CannotApply 1 1), st')"
    using ex_refused by blast
  have "interfered ex_staker_first (apply_block ex_env) (0, ex_st0) ex_b1 (ex_proof [7] 1) = (Err (CannotApply 1 1), (1, st'))"
    by (simp add: interfered_def ex_staker_first_def ex_apply1 r)
  moreover have "highest_height ex_st0 = Ok 0"
    using store.top_length [OF ex_st0_wf] by (simp add: ex_chain0)
  moreover have "fetch_blocks ex_wire ex_peer 0 1 = Ok (map fst ex_chain_proofs, map snd ex_chain_proofs)"
    by (simp add: fetch_blocks_def ex_peer_def ex_chain_proofs_def decode_encode_batch [OF ex_wire_ok])
  moreover have "height (blk_header ex_b1) = 1" by (simp add: ex_b1_def ex_block_def ex_header_def)
  moreover have "peer_summary ex_peer = Ok 2" by (simp add: ex_peer_def)
  ultimately have a: "attempt_blksync ex_wire ex_peer False 1000 (\<lambda>(n, st). highest_height st)
       (interfered ex_staker_first (apply_block ex_env)) (0, ex_st0) =
     Some (Err (Ctx ''could not apply a resolved block'' (CannotApply 1 1)), (1, st'))"
    by (simp add: attempt_blksync_def checked_add_def sync_loop_def iterate.simps sync_step_def ex_chain_proofs_def)
  from blksync_amid_writers [OF a ex_st0_wf ex_staker_first_grows, of 0 "Ctx ''could not apply a resolved block'' (CannotApply 1 1)"] a
  show ?thesis by blast
qed

end
