(* ===== verification/Node_Rpc.thy ===== *)
theory Node_Rpc
  imports Blksync
begin

text \<open>
  \<open>src/node.rs\<close>: the RPC handlers of a node (\<open>NodeRpcImpl\<close>) over its storage, with the
  caches they keep, and one round of the synchronisation task. A handler that fails
  aborts the process, so \<open>Panic\<close> is what a remote caller can cause.
\<close>

section \<open>State\<close>

record state_summary =
  sum_netid :: netid
  sum_height :: u64
  sum_header :: header
  sum_proof :: consensus_proof

text \<open>The coin index (crate melblkidx): queries of \<open>query_coins()\<close> and their answers.\<close>

record spend_details =
  spend_txhash :: txhash
  spend_height :: u64

record coin_info =
  create_txhash :: txhash
  create_index :: u8
  create_height :: u64
  info_covhash :: address
  spend_info :: "spend_details option"

record coin_query =
  q_covhash :: "address option"
  q_unspent_by :: "u64 option"
  q_spend_height_range :: "(u64 \<times> u64) option"
  q_create_height_range :: "(u64 \<times> u64) option"
  q_create_txhash :: "txhash option"
  q_create_index :: "u8 option"

definition query_coins :: coin_query where
  "query_coins = \<lparr>q_covhash = None, q_unspent_by = None, q_spend_height_range = None,
     q_create_height_range = None, q_create_txhash = None, q_create_index = None\<rparr>"

text \<open>\<open>max_height\<close> is what the n-th poll of the indexer reports.\<close>

record coin_index =
  max_height :: "nat \<Rightarrow> u64"
  answer :: "coin_query \<Rightarrow> coin_info list"

text \<open>
  \<open>recent\<close> keeps instants in nanoseconds. \<open>outbox\<close> is not a field of the struct: it
  lists the broadcasts spawned, each with its routes.
\<close>

record ('us, 'ab, 'tree) node =
  node_network :: netid
  node_storage :: "'us storage"
  recent :: "txhash \<rightharpoonup> nat"
  summary :: "u64 \<rightharpoonup> state_summary"
  coin_smts :: "u64 \<rightharpoonup> 'tree"
  abbr_block_cache :: "u64 \<rightharpoonup> 'ab \<times> consensus_proof"
  node_indexer :: "coin_index option"
  outbox :: "(transaction \<times> string list) list"

text \<open>
  The crates only the handlers call: abbreviation of blocks, sparse Merkle trees with
  their compressed proofs, the entries of a stake set, and what full caches drop.
\<close>

record ('ss, 'sk, 'ab, 'tree, 'pf) rpc_env =
  abbreviate :: "block \<Rightarrow> 'ab"
  smt_empty :: 'tree
  smt_insert :: "txhash \<Rightarrow> transaction \<Rightarrow> 'tree \<Rightarrow> 'tree"
  get_with_proof :: "'tree \<Rightarrow> hashval \<Rightarrow> bytes \<times> 'pf"
  raw_coins_smt :: "'ss \<Rightarrow> 'tree"
  raw_history_smt :: "'ss \<Rightarrow> 'tree"
  raw_pools_smt :: "'ss \<Rightarrow> 'tree"
  stakes_entries :: "'sk \<Rightarrow> (txhash \<times> stake_doc) list"
  rehash :: "hashval \<Rightarrow> hashval"
  evict_recent :: "(txhash \<rightharpoonup> nat) \<Rightarrow> txhash \<Rightarrow> txhash set"
  evict_summary :: "(u64 \<rightharpoonup> state_summary) \<Rightarrow> u64 \<Rightarrow> u64 set"
  evict_smts :: "(u64 \<rightharpoonup> 'tree) \<Rightarrow> u64 \<Rightarrow> u64 set"
  evict_abbr :: "(u64 \<rightharpoonup> 'ab \<times> consensus_proof) \<Rightarrow> u64 \<Rightarrow> u64 set"

definition node_start :: "netid \<Rightarrow> 'us storage \<Rightarrow> coin_index option \<Rightarrow> ('us, 'ab, 'tree) node" where
  "node_start netid st index_coins =
     \<lparr>node_network = netid, node_storage = st, recent = Map.empty, summary = Map.empty,
      coin_smts = Map.empty, abbr_block_cache = Map.empty, node_indexer = index_coins, outbox = []\<rparr>"

text \<open>Running an operation of the storage inside a handler.\<close>

definition on_storage ::
  "('us storage \<Rightarrow> 'a res \<times> 'us storage) \<Rightarrow> ('us, 'ab, 'tree) node
   \<Rightarrow> 'a res \<times> ('us, 'ab, 'tree) node" where
  "on_storage f nd = (let r = f (node_storage nd) in (fst r, nd\<lparr>node_storage := snd r\<rparr>))"

section \<open>Transactions\<close>

datatype transaction_error = RecentlySeen | Invalid err

text \<open>
  \<open>now\<close> is the instant of the check, \<open>now'\<close> that of the \<open>put\<close>; \<open>routes\<close> the swarm's
  routes. The elapsed time as a float is below 10.0 exactly when it is below ten seconds:
  between two whole numbers of nanoseconds the float division is exact enough.
\<close>

definition send_tx ::
  "('ss, 'us, 'sk) env \<Rightarrow> ('ss, 'sk, 'ab, 'tree, 'pf) rpc_env \<Rightarrow> nat \<Rightarrow> nat \<Rightarrow> string list
   \<Rightarrow> transaction \<Rightarrow> ('us, 'ab, 'tree) node
   \<Rightarrow> (transaction_error + unit) res \<times> ('us, 'ab, 'tree) node" where
  [op_defs]: "send_tx E L now now' routes tx nd =
     (let h = hash_nosigs E tx in
      if (case recent nd h of None \<Rightarrow> False | Some val \<Rightarrow> now - val < 10 * 10 ^ 9)
      then (Ok (Inl RecentlySeen), nd)
      else
        (let nd1 = nd\<lparr>recent := cache_put (evict_recent L (recent nd) h) h now' (recent nd)\<rparr>;
             (r, m) = apply_transaction E tx (mempool (node_storage nd1));
             nd2 = nd1\<lparr>node_storage := (node_storage nd1)\<lparr>mempool := m\<rparr>\<rparr>
         in case r of
              Ok _ \<Rightarrow> (Ok (Inr ()), nd2\<lparr>outbox := outbox nd2 @ [(tx, take 16 routes)]\<rparr>)
            | Err e \<Rightarrow> (Ok (Inl (Invalid e)), nd2)
            | Panic p \<Rightarrow> (Panic p, nd2)
            | Hang \<Rightarrow> (Hang, nd2)))"

section \<open>Blocks\<close>

definition rpc_get_block ::
  "('ss, 'us, 'sk) env \<Rightarrow> u64 \<Rightarrow> ('us, 'ab, 'tree) node
   \<Rightarrow> block option res \<times> ('us, 'ab, 'tree) node" where
  [op_defs]: "rpc_get_block E h nd = on_storage (\<lambda>st. get_block E st h) nd"

definition get_abbr_block ::
  "('ss, 'us, 'sk) env \<Rightarrow> ('ss, 'sk, 'ab, 'tree, 'pf) rpc_env \<Rightarrow> u64 \<Rightarrow> ('us, 'ab, 'tree) node
   \<Rightarrow> ('ab \<times> consensus_proof) option res \<times> ('us, 'ab, 'tree) node" where
  [op_defs]: "get_abbr_block E L h nd =
     (case abbr_block_cache nd h of
        Some c \<Rightarrow> (Ok (Some c), nd)
      | None \<Rightarrow> bind_st (on_storage (\<lambda>st. get_block E st h) nd) (\<lambda>ob nd. case ob of
            None \<Rightarrow> (Ok None, nd)
          | Some blk \<Rightarrow> bind_st (get_consensus E (node_storage nd) h, nd) (\<lambda>op nd. case op of
                None \<Rightarrow> (Ok None, nd)
              | Some proof \<Rightarrow>
                  (let summ = (abbreviate L blk, proof) in
                   (Ok (Some summ), nd\<lparr>abbr_block_cache :=
                      cache_put (evict_abbr L (abbr_block_cache nd) h) h summ (abbr_block_cache nd)\<rparr>)))))"

definition get_summary ::
  "('ss, 'us, 'sk) env \<Rightarrow> ('ss, 'sk, 'ab, 'tree, 'pf) rpc_env \<Rightarrow> ('us, 'ab, 'tree) node
   \<Rightarrow> state_summary res \<times> ('us, 'ab, 'tree) node" where
  [op_defs]: "get_summary E L nd =
     bind_st (on_storage (highest_state E) nd) (\<lambda>highest nd.
       (let header = header_of E highest; h = height header in
        case summary nd h of
          Some res \<Rightarrow> (Ok res, nd)
        | None \<Rightarrow> bind_st (get_consensus E (node_storage nd) h, nd) (\<lambda>op nd.
            (let proof = (case op of None \<Rightarrow> [] | Some p \<Rightarrow> p);
                 s = \<lparr>sum_netid = node_network nd, sum_height = h, sum_header = header, sum_proof = proof\<rparr>
             in (Ok s, nd\<lparr>summary := cache_put (evict_summary L (summary nd) h) h s (summary nd)\<rparr>)))))"

text \<open>
  The loop of \<open>get_lz4_blocks\<close> over the height, the bytes counted so far, the blocks and
  the proofs collected and the storage. When the last block makes the batch too big it is
  taken out again, its proof is not. A block without a proof sends the loop round with
  nothing changed. \<open>Inl\<close> leaves the loop, with \<open>None\<close> when there is no block at all.
  (Lengths of byte vectors are below 2 ^ 63, so the count stays below \<open>usize\<close>'s end.)
\<close>

type_synonym 'us lz4_vars =
  "u64 \<times> nat \<times> block list \<times> consensus_proof list \<times> 'us storage"

definition lz4_step ::
  "('ss, 'us, 'sk) env \<Rightarrow> nat \<Rightarrow> 'us lz4_vars
   \<Rightarrow> ((block list \<times> consensus_proof list) option res \<times> 'us storage) + 'us lz4_vars" where
  [op_defs]: "lz4_step E size_limit = (\<lambda>(h, total_count, accum, proof_accum, st).
     if \<not> total_count \<le> size_limit then Inl (Ok (Some (accum, proof_accum)), st)
     else (case get_block E st h of
         (Ok (Some blk), st) \<Rightarrow>
           (case get_consensus E st h of
              Ok (Some proof) \<Rightarrow>
                (let total_count = total_count + length (enc_block E blk) + length (enc_proof E proof);
                     accum = accum @ [blk];
                     proof_accum = proof_accum @ [proof];
                     accum = (if size_limit < total_count \<and> 1 < length accum then butlast accum else accum)
                 in case checked_add h 1 of
                      None \<Rightarrow> Inl (Panic Overflow, st)
                    | Some h' \<Rightarrow> Inr (h', total_count, accum, proof_accum, st))
            | Ok None \<Rightarrow> Inr (h, total_count, accum, proof_accum, st)
            | Err e \<Rightarrow> Inl (Err e, st)
            | Panic p \<Rightarrow> Inl (Panic p, st)
            | Hang \<Rightarrow> Inl (Hang, st))
       | (Ok None, st) \<Rightarrow>
           if accum = [] then Inl (Ok None, st) else Inl (Ok (Some (accum, proof_accum)), st)
       | (Err e, st) \<Rightarrow> Inl (Err e, st)
       | (Panic p, st) \<Rightarrow> Inl (Panic p, st)
       | (Hang, st) \<Rightarrow> Inl (Hang, st)))"

definition get_lz4_blocks ::
  "('ss, 'us, 'sk) env \<Rightarrow> wire \<Rightarrow> u64 \<Rightarrow> nat \<Rightarrow> ('us, 'ab, 'tree) node
   \<Rightarrow> (string option res \<times> ('us, 'ab, 'tree) node) option" where
  [op_defs]: "get_lz4_blocks E W h size_limit nd =
     (case iterate (lz4_step E (min size_limit 10000000)) (h, 0, [], [], node_storage nd) of
        None \<Rightarrow> None
      | Some (r, st) \<Rightarrow>
          Some (bind_res r (\<lambda>batch. Ok (map_option (encode_batch W) batch)), nd\<lparr>node_storage := st\<rparr>))"

section \<open>States\<close>

definition get_coin_tree ::
  "('ss, 'us, 'sk) env \<Rightarrow> ('ss, 'sk, 'ab, 'tree, 'pf) rpc_env \<Rightarrow> u64 \<Rightarrow> ('us, 'ab, 'tree) node
   \<Rightarrow> 'tree res \<times> ('us, 'ab, 'tree) node" where
  [op_defs]: "get_coin_tree E L h nd =
     (case coin_smts nd h of
        Some v \<Rightarrow> (Ok v, nd)
      | None \<Rightarrow> bind_st (on_storage (\<lambda>st. get_state E st h) nd) (\<lambda>os nd. case os of
            None \<Rightarrow> (Err (NotConfirmed h), nd)
          | Some state \<Rightarrow>
              (let mm = fold (\<lambda>tx. smt_insert L (hash_nosigs E tx) tx) (transactions (to_block E state))
                          (smt_empty L)
               in (Ok mm, nd\<lparr>coin_smts := cache_put (evict_smts L (coin_smts nd) h) h mm (coin_smts nd)\<rparr>))))"

datatype substate = Coins | History | Pools | Stakes | Transactions

definition get_smt_branch ::
  "('ss, 'us, 'sk) env \<Rightarrow> ('ss, 'sk, 'ab, 'tree, 'pf) rpc_env \<Rightarrow> u64 \<Rightarrow> substate \<Rightarrow> hashval
   \<Rightarrow> ('us, 'ab, 'tree) node \<Rightarrow> (bytes \<times> 'pf) option res \<times> ('us, 'ab, 'tree) node" where
  [op_defs]: "get_smt_branch E L h elem key nd =
     bind_st (on_storage (\<lambda>st. get_state E st h) nd) (\<lambda>os nd. case os of
         None \<Rightarrow> (Ok None, nd)
       | Some state \<Rightarrow> (case get_coin_tree E L h nd of
             (Ok ctree, nd) \<Rightarrow>
               (case elem of
                  Coins \<Rightarrow> Ok (Some (get_with_proof L (raw_coins_smt L state) key))
                | History \<Rightarrow> Ok (Some (get_with_proof L (raw_history_smt L state) key))
                | Pools \<Rightarrow> Ok (Some (get_with_proof L (raw_pools_smt L state) key))
                | Stakes \<Rightarrow> Panic (Todo ''no longer relevant'')
                | Transactions \<Rightarrow> Ok (Some (get_with_proof L ctree key)), nd)
           | (Err e, nd) \<Rightarrow> (Ok None, nd)
           | (Panic p, nd) \<Rightarrow> (Panic p, nd)
           | (Hang, nd) \<Rightarrow> (Hang, nd)))"

text \<open>The \<open>BTreeMap\<close> that \<open>collect\<close> builds: a later entry replaces an earlier one.\<close>

definition get_stakers_raw ::
  "('ss, 'us, 'sk) env \<Rightarrow> ('ss, 'sk, 'ab, 'tree, 'pf) rpc_env \<Rightarrow> u64 \<Rightarrow> ('us, 'ab, 'tree) node
   \<Rightarrow> (hashval \<rightharpoonup> bytes) option res \<times> ('us, 'ab, 'tree) node" where
  [op_defs]: "get_stakers_raw E L h nd =
     bind_st (on_storage (\<lambda>st. get_state E st h) nd) (\<lambda>os nd. case os of
         None \<Rightarrow> (Ok None, nd)
       | Some state \<Rightarrow>
           (Ok (Some (fold (\<lambda>(k, v) m. m(rehash L k \<mapsto> enc_stake E v))
              (stakes_entries L (raw_stakes E state)) Map.empty)), nd))"

section \<open>The coin index\<close>

definition get_indexer :: "('us, 'ab, 'tree) node \<Rightarrow> coin_index option res" where
  [op_defs]: "get_indexer nd =
     (case node_indexer nd of
        None \<Rightarrow> Ok None
      | Some ix \<Rightarrow> bind_res (highest_height (node_storage nd)) (\<lambda>h.
          loop_res (iterate (\<lambda>n. if max_height ix n < h then Inr (Suc n) else Inl (Ok (Some ix))) 0)))"

definition get_some_coins ::
  "u64 \<Rightarrow> address \<Rightarrow> ('us, 'ab, 'tree) node \<Rightarrow> (txhash \<times> u8) list option res" where
  [op_defs]: "get_some_coins h cov nd =
     bind_res (get_indexer nd) (\<lambda>oi. Ok (case oi of
         None \<Rightarrow> None
       | Some ix \<Rightarrow> Some (map (\<lambda>c. (create_txhash c, create_index c))
           (answer ix (query_coins\<lparr>q_covhash := Some cov, q_unspent_by := Some h\<rparr>)))))"

datatype coin_change = Add "txhash \<times> u8" | Delete "txhash \<times> u8" txhash

text \<open>The coins spent at the height, each with an \<open>unwrap\<close> of its spending.\<close>

fun deletions :: "coin_info list \<Rightarrow> coin_change list res" where
  "deletions [] = Ok []"
| "deletions (coin # coins) =
     (case spend_info coin of
        None \<Rightarrow> Panic Unwrap
      | Some s \<Rightarrow> bind_res (deletions coins)
          (\<lambda>ds. Ok (Delete (create_txhash coin, create_index coin) (spend_txhash s) # ds)))"

definition get_coin_changes ::
  "('ss, 'us, 'sk) env \<Rightarrow> u64 \<Rightarrow> address \<Rightarrow> ('us, 'ab, 'tree) node
   \<Rightarrow> coin_change list option res \<times> ('us, 'ab, 'tree) node" where
  [op_defs]: "get_coin_changes E h cov nd =
     bind_st (on_storage (\<lambda>st. get_block E st h) nd) (\<lambda>ob nd. case ob of
         None \<Rightarrow> (Ok None, nd)
       | Some _ \<Rightarrow> bind_st (get_indexer nd, nd) (\<lambda>oi nd. case oi of
             None \<Rightarrow> (Ok None, nd)
           | Some ix \<Rightarrow>
               (let deleted_coins = answer ix (query_coins\<lparr>q_covhash := Some cov, q_spend_height_range := Some (h, h)\<rparr>);
                    added_coins = answer ix (query_coins\<lparr>q_covhash := Some cov, q_create_height_range := Some (h, h)\<rparr>);
                    added = map (\<lambda>c. Add (create_txhash c, create_index c)) added_coins
                in (bind_res (deletions deleted_coins) (\<lambda>deleted. Ok (Some (added @ deleted))), nd))))"

datatype coin_spend_status = NotSpent | Spent txhash u64

definition get_coin_spend ::
  "txhash \<times> u8 \<Rightarrow> ('us, 'ab, 'tree) node \<Rightarrow> coin_spend_status option res" where
  [op_defs]: "get_coin_spend coin nd =
     bind_res (get_indexer nd) (\<lambda>oi. Ok (case oi of
         None \<Rightarrow> None
       | Some ix \<Rightarrow>
           (case answer ix (query_coins\<lparr>q_create_txhash := Some (fst coin), q_create_index := Some (snd coin)\<rparr>) of
              [] \<Rightarrow> None
            | c # _ \<Rightarrow> Some (case spend_info c of
                  Some info \<Rightarrow> Spent (spend_txhash info) (spend_height info)
                | None \<Rightarrow> NotSpent))))"

section \<open>The synchronisation task\<close>

text \<open>
  One round of \<open>blksync_loop\<close>: the first route, if there is one; \<open>connect\<close> gives the
  peer behind it or fails. An error is logged together with the top state.
\<close>

definition blksync_round ::
  "('ss, 'us, 'sk) env \<Rightarrow> wire \<Rightarrow> bool \<Rightarrow> nat \<Rightarrow> string list \<Rightarrow> (string \<Rightarrow> peer res) \<Rightarrow> 'us storage
   \<Rightarrow> (unit res \<times> 'us storage) option" where
  [op_defs]: "blksync_round E W old batch routes connect st =
     (case routes of
        [] \<Rightarrow> Some (Ok (), st)
      | p # _ \<Rightarrow>
          (case (case connect p of
                   Ok P \<Rightarrow> attempt_blksync W P old batch highest_height (apply_block E) st
                 | Err e \<Rightarrow> Some (Err e, st)
                 | Panic x \<Rightarrow> Some (Panic x, st)
                 | Hang \<Rightarrow> Some (Hang, st)) of
             None \<Rightarrow> None
           | Some (Ok blklen, st) \<Rightarrow> Some (if 0 < blklen then bind_res (highest_height st) (\<lambda>_. Ok ()) else Ok (), st)
           | Some (Err e, st) \<Rightarrow> Some (bind_st (highest_state E st) (\<lambda>_ st. (Ok (), st)))
           | Some (Panic x, st) \<Rightarrow> Some (Panic x, st)
           | Some (Hang, st) \<Rightarrow> Some (Hang, st)))"

end
