(* ===== verification/Node_Inv.thy ===== *)
theory Node_Inv
  imports Node_Rpc Chain_Growth
begin

text \<open>
  The invariant of a node: its storage is well formed, and every cache of the RPC handlers
  holds what a fresh computation over the storage would give. Each handler keeps it, and
  so does everything that makes the chain grow.
\<close>

section \<open>Lookups in a grown chain\<close>

lemma block_at_later:
  assumes "later E a b" "wf_core E a" "block_at E (db a) h = Some x"
  shows "block_at E (db b) h = Some x"
proof -
  obtain bs where "chain E (db b) = chain E (db a) @ bs" using laterD(3) [OF assms(1)] by blast
  moreover have "0 < unat h \<and> unat h \<le> length (chain E (db a)) \<and> x = chain E (db a) ! (unat h - 1)"
    using assms(3) block_at_iff [OF wf_coreD(3,2) [OF assms(2)]] by blast
  ultimately show ?thesis
    using block_at_iff [OF wf_coreD(3,2) [OF wf_storageD(1) [OF laterD(1) [OF assms(1)]]], of h x]
    by (auto simp only: nth_append length_append split: if_splits)
qed

lemma consensus_at_later:
  assumes "later E a b" "wf_core E a" "consensus_at E (db a) h = Some x"
  shows "consensus_at E (db b) h = Some x"
proof -
  note core = wf_storageD(1) [OF laterD(1) [OF assms(1)]]
  obtain bs ps where g: "chain E (db b) = chain E (db a) @ bs" "proofs E (db b) = proofs E (db a) @ ps"
    using laterD(3,4) [OF assms(1)] by blast
  have a: "0 < unat h \<and> unat h \<le> length (chain E (db a)) \<and> x = proofs E (db a) ! (unat h - 1)"
    using assms(3) consensus_at_iff [OF wf_coreD(3,2) [OF assms(2)]] by blast
  then have "unat h - 1 < length (proofs E (db a))"
    using proofs_length [OF wf_coreD(3) [OF assms(2)]] by linarith
  moreover have "unat h \<le> length (chain E (db b))"
    using a unfolding g(1) by (simp only: length_append trans_le_add1)
  ultimately show ?thesis
    using a consensus_at_iff [OF wf_coreD(3,2) [OF core], of h x] g(2) by (simp only: nth_append if_True)
qed

lemma later_pool: "wf_storage E st \<Longrightarrow> later E st (st\<lparr>mempool := m\<rparr>)"
proof -
  assume wf: "wf_storage E st"
  then have wf': "wf_storage E (st\<lparr>mempool := m\<rparr>)" by (simp add: wf_storage_def wf_core_def)
  then show ?thesis
    by (intro laterI) (simp_all add: get_state_spec(1) [OF wf_storageD(1)] wf split: option.split sum.split)
qed

section \<open>What the caches may hold\<close>

definition header_at :: "('ss, 'us, 'sk) env \<Rightarrow> genesis_config \<Rightarrow> db_tables \<Rightarrow> u64 \<Rightarrow> header option" where
  "header_at E g tabs h =
     (if h = 0 then Some (header_of E (seal E (realize E g) None))
      else map_option blk_header (block_at E tabs h))"

definition proof_at :: "('ss, 'us, 'sk) env \<Rightarrow> db_tables \<Rightarrow> u64 \<Rightarrow> consensus_proof" where
  "proof_at E tabs h = (case consensus_at E tabs h of None \<Rightarrow> [] | Some p \<Rightarrow> p)"

definition summary_truth ::
  "('ss, 'us, 'sk) env \<Rightarrow> netid \<Rightarrow> genesis_config \<Rightarrow> db_tables \<Rightarrow> u64 \<Rightarrow> state_summary \<Rightarrow> bool" where
  "summary_truth E netid g tabs h s \<longleftrightarrow>
     (\<exists>hdr. header_at E g tabs h = Some hdr \<and>
        s = \<lparr>sum_netid = netid, sum_height = h, sum_header = hdr, sum_proof = proof_at E tabs h\<rparr>)"

definition abbr_truth ::
  "('ss, 'us, 'sk) env \<Rightarrow> ('ss, 'sk, 'ab, 'tree, 'pf) rpc_env \<Rightarrow> db_tables \<Rightarrow> u64 \<Rightarrow> 'ab \<times> consensus_proof \<Rightarrow> bool" where
  "abbr_truth E L tabs h c \<longleftrightarrow>
     (\<exists>b p. block_at E tabs h = Some b \<and> consensus_at E tabs h = Some p \<and> c = (abbreviate L b, p))"

text \<open>The tree of the transactions of a state, keyed by their hashes.\<close>

definition tx_tree ::
  "('ss, 'us, 'sk) env \<Rightarrow> ('ss, 'sk, 'ab, 'tree, 'pf) rpc_env \<Rightarrow> 'ss \<Rightarrow> 'tree" where
  "tx_tree E L state =
     fold (\<lambda>tx. smt_insert L (hash_nosigs E tx) tx) (transactions (to_block E state)) (smt_empty L)"

definition tree_truth ::
  "('ss, 'us, 'sk) env \<Rightarrow> ('ss, 'sk, 'ab, 'tree, 'pf) rpc_env \<Rightarrow> 'us storage \<Rightarrow> u64 \<Rightarrow> 'tree \<Rightarrow> bool" where
  "tree_truth E L st h t \<longleftrightarrow> (\<exists>s. fst (get_state E st h) = Ok (Some s) \<and> t = tx_tree E L s)"

definition wf_node ::
  "('ss, 'us, 'sk) env \<Rightarrow> ('ss, 'sk, 'ab, 'tree, 'pf) rpc_env \<Rightarrow> ('us, 'ab, 'tree) node \<Rightarrow> bool" where
  "wf_node E L nd \<longleftrightarrow>
     (let st = node_storage nd in
      wf_storage E st \<and>
      coherent (summary_truth E (node_network nd) (genesis st) (db st)) (summary nd) \<and>
      coherent (abbr_truth E L (db st)) (abbr_block_cache nd) \<and>
      coherent (tree_truth E L st) (coin_smts nd))"

lemma wf_nodeD:
  assumes "wf_node E L nd"
  shows "wf_storage E (node_storage nd)" "wf_core E (node_storage nd)"
    "coherent (summary_truth E (node_network nd) (genesis (node_storage nd)) (db (node_storage nd))) (summary nd)"
    "coherent (abbr_truth E L (db (node_storage nd))) (abbr_block_cache nd)"
    "coherent (tree_truth E L (node_storage nd)) (coin_smts nd)"
  using assms by (auto simp: wf_node_def Let_def dest: wf_storageD(1))

lemma wf_node_start: "wf_storage E st \<Longrightarrow> wf_node E L (node_start netid st ix)"
  by (simp add: wf_node_def node_start_def)

lemma state_in_chain:
  assumes "wf_core E st" "fst (get_state E st h) = Ok (Some s)"
  shows "unat h \<le> length (chain E (db st))" "\<exists>b. block_at E (db st) h = Some b"
proof -
  show "\<exists>b. block_at E (db st) h = Some b"
    using assms(2) get_state_spec(1) [OF assms(1), of h] by (auto split: if_splits option.splits)
  then show "unat h \<le> length (chain E (db st))"
    using block_at_iff [OF wf_coreD(3,2) [OF assms(1)]] by blast
qed

text \<open>Growing the chain makes no entry of a cache stale.\<close>

lemma wf_node_later:
  assumes "wf_node E L nd" "later E (node_storage nd) st'"
  shows "wf_node E L (nd\<lparr>node_storage := st'\<rparr>)"
proof -
  let ?st = "node_storage nd"
  note wf = wf_nodeD [OF assms(1)] and lt = laterD [OF assms(2)]
  note bk = block_at_later [OF assms(2) wf(2)] and cs = consensus_at_later [OF assms(2) wf(2)]
  have pr: "proof_at E (db st') h = proof_at E (db ?st) h"
    if hdr: "header_at E (genesis ?st) (db ?st) h = Some hdr" for h hdr
  proof (cases "h = 0")
    case True
    then show ?thesis
      using consensus_at_iff [OF wf_coreD(3,2) [OF wf(2)], of 0]
        consensus_at_iff [OF wf_coreD(3,2) [OF wf_storageD(1) [OF lt(1)]], of 0]
      by (simp add: proof_at_def split: option.split)
  next
    case False
    then obtain b where "block_at E (db ?st) h = Some b" using hdr by (auto simp: header_at_def)
    then obtain p where "consensus_at E (db ?st) h = Some p"
      using consensus_at_iff [OF wf_coreD(3,2) [OF wf(2)]] block_at_iff [OF wf_coreD(3,2) [OF wf(2)]] by blast
    then show ?thesis using cs by (simp add: proof_at_def)
  qed
  have hd: "header_at E (genesis st') (db st') h = Some hdr"
    if "header_at E (genesis ?st) (db ?st) h = Some hdr" for h hdr
    using that bk lt(2) by (auto simp: header_at_def split: if_splits)
  have "coherent (summary_truth E (node_network nd) (genesis st') (db st')) (summary nd)"
    using wf(3) by (rule coherent_mono) (auto simp: summary_truth_def hd pr)
  moreover have "coherent (abbr_truth E L (db st')) (abbr_block_cache nd)"
    using wf(4) by (rule coherent_mono) (auto simp: abbr_truth_def bk cs)
  moreover have "coherent (tree_truth E L st') (coin_smts nd)"
    using wf(5)
  proof (rule coherent_mono)
    fix h t
    assume "tree_truth E L ?st h t"
    then obtain s where s: "fst (get_state E ?st h) = Ok (Some s)" "t = tx_tree E L s"
      by (auto simp: tree_truth_def)
    then show "tree_truth E L st' h t"
      using lt(5) [OF state_in_chain(1) [OF wf(2) s(1)]] by (auto simp: tree_truth_def)
  qed
  ultimately show ?thesis using lt(1) by (simp add: wf_node_def)
qed

lemma wf_node_same:
  assumes "wf_node E L nd" "same_but_cache (node_storage nd) st'" "wf_core E st'"
  shows "wf_node E L (nd\<lparr>node_storage := st'\<rparr>)"
  by (rule wf_node_later [OF assms(1) later_same [OF wf_nodeD(1) [OF assms(1)] assms(2,3)]])

section \<open>The synchronisation task\<close>

text \<open>
  The storages that grew out of a given one are a block store of their own, so what is
  proved of the loops over the interface holds of them.
\<close>

interpretation grown: block_store "\<lambda>st. later E st0 st" "\<lambda>st. chain E (db st)" highest_height "apply_block E"
  for E :: "('ss, 'us, 'sk) env" and st0 :: "'us storage"
proof unfold_locales
  fix s s' :: "'us storage" and b p e i
  show "later E st0 s' \<and> chain E (db s') = chain E (db s) @ [b]"
    if "later E st0 s" "apply_block E s b p = (Ok (), s')"
    using later_trans [OF that(1) apply_block_later(1) [OF laterD(1) [OF that(1)] that(2)]]
      apply_block_extends [OF laterD(1) [OF that(1)] that(2)] by blast
  show "later E st0 s' \<and> chain E (db s') = chain E (db s)"
    if "later E st0 s" "apply_block E s b p = (Err e, s')"
  proof -
    note wf = laterD(1) [OF that(1)]
    note same = apply_block_Err [OF wf_storageD(1) [OF wf] that(2)]
    show ?thesis
      using later_trans [OF that(1) later_same [OF wf]] same same_but_cache_fields(1) by fastforce
  qed
  show "later E st0 s \<Longrightarrow> i < length (chain E (db s)) \<Longrightarrow>
      unat (height (blk_header (chain E (db s) ! i))) = Suc i"
    using store.numbered laterD(1) by blast
  show "later E st0 s \<Longrightarrow> highest_height s = Ok (of_nat (length (chain E (db s)))) \<and>
      length (chain E (db s)) < 2 ^ 63"
    using store.top_length laterD(1) by blast
qed

lemma blksync_round_later:
  assumes "wf_storage E st" "blksync_round E W old batch routes connect st = Some (r, st')"
    and "r = Ok () \<or> r = Err e"
  shows "later E st st'"
proof -
  note refl = later_refl [OF assms(1)]
  have log: "later E st s2"
    if "later E st s1" "bind_st (highest_state E s1) (\<lambda>_ st. (Ok (), st)) = (r, s2)" for s1 s2
  proof -
    note core = wf_storageD(1) [OF laterD(1) [OF that(1)]]
    have "s2 = snd (highest_state E s1)"
      using that(2) assms(3) by (cases "highest_state E s1"; cases "fst (highest_state E s1)") auto
    then show ?thesis
      using later_trans [OF that(1) later_same [OF laterD(1) [OF that(1)] highest_state_spec(3,4) [OF core]]]
      by simp
  qed
  show ?thesis
  proof (cases routes)
    case Nil
    then show ?thesis using assms(2) refl by (simp add: blksync_round_def)
  next
    case (Cons p ps)
    show ?thesis
    proof (cases "connect p")
      case (Ok P)
      obtain ra sa where a: "attempt_blksync W P old batch highest_height (apply_block E) st = Some (ra, sa)"
        using assms(2) Cons Ok by (auto simp: blksync_round_def split: option.splits)
      show ?thesis
      proof (cases ra)
        case ra: (Ok m)
        then have "later E st sa" using grown.attempt_extends [OF a refl, of m] by blast
        then show ?thesis using assms(2) Cons Ok a ra by (simp add: blksync_round_def split: if_splits)
      next
        case (Err e')
        then have "later E st sa" using grown.attempt_extends [OF a refl, of _ e'] by blast
        then show ?thesis using assms(2) Cons Ok a Err log by (simp add: blksync_round_def)
      qed (use assms(2,3) Cons Ok a in \<open>auto simp: blksync_round_def\<close>)
    next
      case (Err e')
      then show ?thesis using assms(2) Cons log [OF refl] by (simp add: blksync_round_def)
    qed (use assms(2,3) Cons in \<open>auto simp: blksync_round_def\<close>)
  qed
qed

end
