(* ===== verification/Node_Handlers.thy ===== *)
theory Node_Handlers
  imports Node_Inv
begin

text \<open>
  What each handler of \<open>src/node.rs\<close> answers in terms of the stored chain, and that it
  keeps the invariant; then the life of a node as a sequence of handled requests.
\<close>

section \<open>States\<close>

lemma highest_state_total:
  assumes "wf_storage E st"
  obtains tip st' where "highest_state E st = (Ok tip, st')" "same_but_cache st st'" "wf_core E st'"
    "height (header_of E tip) = of_nat (length (chain E (db st)))"
    "header_at E (genesis st) (db st) (of_nat (length (chain E (db st)))) = Some (header_of E tip)"
proof -
  note core = wf_storageD(1) [OF assms]
  obtain tip where t: "top_state E (genesis st) (db st) = Some tip" using top_state_total [OF assms] by blast
  have n: "height (header_of E tip) = of_nat (length (chain E (db st)))"
    using top_state_height [OF core t] by (metis of_nat_unat ucast_id)
  have "header_at E (genesis st) (db st) (of_nat (length (chain E (db st)))) = Some (header_of E tip)"
  proof (cases "chain E (db st) = []")
    case True
    then show ?thesis using t by (simp add: header_at_def top_state_def chain_def)
  next
    case False
    have "chain E (db st) = butlast (chain E (db st)) @ [last (chain E (db st))]" using False by simp
    from top_state_header [OF wf_coreD(1) [OF core] this t] wf_core_top(1,4) [OF core False]
    show ?thesis by (simp add: header_at_def)
  qed
  then show thesis
    using that [of tip "snd (highest_state E st)"] n highest_state_spec [OF core] t
    by (metis prod.collapse)
qed

section \<open>Handlers\<close>

lemma on_storage_bind:
  "f (node_storage nd) = (r, st') \<Longrightarrow>
     bind_st (on_storage f nd) g = bind_st (r, nd\<lparr>node_storage := st'\<rparr>) g"
  by (simp add: on_storage_def)

text \<open>\<open>kept E L nd nd'\<close>: a handler that only reads went from \<open>nd\<close> to \<open>nd'\<close>.\<close>

definition kept ::
  "('ss, 'us, 'sk) env \<Rightarrow> ('ss, 'sk, 'ab, 'tree, 'pf) rpc_env \<Rightarrow> ('us, 'ab, 'tree) node
   \<Rightarrow> ('us, 'ab, 'tree) node \<Rightarrow> bool" where
  "kept E L nd nd' \<longleftrightarrow>
     wf_node E L nd' \<and> same_but_cache (node_storage nd) (node_storage nd') \<and>
     node_network nd' = node_network nd \<and> recent nd' = recent nd \<and> outbox nd' = outbox nd"

lemma kept_refl: "wf_node E L nd \<Longrightarrow> kept E L nd nd"
  by (simp add: kept_def)

lemma kept_trans: "kept E L a b \<Longrightarrow> kept E L b c \<Longrightarrow> kept E L a c"
  using same_but_cache_trans unfolding kept_def by metis

lemma kept_storage:
  "wf_node E L nd \<Longrightarrow> same_but_cache (node_storage nd) st' \<Longrightarrow> wf_core E st' \<Longrightarrow>
     kept E L nd (nd\<lparr>node_storage := st'\<rparr>)"
  using wf_node_same by (fastforce simp: kept_def)

lemma kept_summary:
  assumes "kept E L nd nd'"
    and "summary_truth E (node_network nd') (genesis (node_storage nd')) (db (node_storage nd')) h s"
  shows "kept E L nd (nd'\<lparr>summary := cache_put ev h s (summary nd')\<rparr>)"
  using assms by (auto simp: kept_def wf_node_def Let_def intro!: cache.put_coherent)

lemma kept_abbr:
  assumes "kept E L nd nd'" "abbr_truth E L (db (node_storage nd')) h c"
  shows "kept E L nd (nd'\<lparr>abbr_block_cache := cache_put ev h c (abbr_block_cache nd')\<rparr>)"
  using assms by (auto simp: kept_def wf_node_def Let_def intro!: cache.put_coherent)

lemma kept_tree:
  assumes "kept E L nd nd'" "tree_truth E L (node_storage nd') h t"
  shows "kept E L nd (nd'\<lparr>coin_smts := cache_put ev h t (coin_smts nd')\<rparr>)"
  using assms by (auto simp: kept_def wf_node_def Let_def intro!: cache.put_coherent)

lemma get_state_keeps:
  assumes "wf_node E L nd"
  shows "kept E L nd (nd\<lparr>node_storage := snd (get_state E (node_storage nd) h)\<rparr>)"
  by (rule kept_storage [OF assms get_state_spec(2,3) [OF wf_nodeD(2) [OF assms]]])

lemma get_block_keeps:
  assumes "wf_node E L nd"
  shows "kept E L nd (nd\<lparr>node_storage := snd (get_block E (node_storage nd) h)\<rparr>)"
  by (rule kept_storage [OF assms get_block_spec(2,3) [OF wf_nodeD(2) [OF assms]]])

lemma get_summary_spec:
  assumes "wf_node E L nd"
  shows "\<exists>nd' hdr. let st = node_storage nd; h = of_nat (length (chain E (db st))) in
    header_at E (genesis st) (db st) h = Some hdr \<and> kept E L nd nd' \<and>
    get_summary E L nd = (Ok \<lparr>sum_netid = node_network nd, sum_height = h, sum_header = hdr,
      sum_proof = proof_at E (db st) h\<rparr>, nd')"
proof -
  let ?st = "node_storage nd"
  let ?h = "of_nat (length (chain E (db ?st))) :: u64"
  obtain tip st' where hs: "highest_state E ?st = (Ok tip, st')" "same_but_cache ?st st'" "wf_core E st'"
    and h: "height (header_of E tip) = ?h" "header_at E (genesis ?st) (db ?st) ?h = Some (header_of E tip)"
    using highest_state_total [OF wf_nodeD(1) [OF assms]] by blast
  let ?nd = "nd\<lparr>node_storage := st'\<rparr>"
  let ?s = "\<lparr>sum_netid = node_network nd, sum_height = ?h, sum_header = header_of E tip,
      sum_proof = proof_at E (db ?st) ?h\<rparr>"
  note f = same_but_cache_fields [OF hs(2)]
  have k: "kept E L nd ?nd" by (rule kept_storage [OF assms hs(2,3)])
  have run: "get_summary E L nd = (case summary nd ?h of
      Some res \<Rightarrow> (Ok res, ?nd)
    | None \<Rightarrow> bind_st (get_consensus E st' ?h, ?nd) (\<lambda>op nd.
        (let proof = (case op of None \<Rightarrow> [] | Some p \<Rightarrow> p);
             s = \<lparr>sum_netid = node_network nd, sum_height = ?h, sum_header = header_of E tip, sum_proof = proof\<rparr>
         in (Ok s, nd\<lparr>summary := cache_put (evict_summary L (summary nd) ?h) ?h s (summary nd)\<rparr>))))"
    by (simp add: get_summary_def on_storage_def hs(1) h(1) Let_def cong: option.case_cong)
  show ?thesis
  proof (cases "summary nd ?h")
    case (Some res)
    from cache.hit_true [OF wf_nodeD(3) [OF assms] Some] have "res = ?s"
      using h(2) by (auto simp: summary_truth_def)
    then show ?thesis using run Some h(2) k by (auto simp: Let_def)
  next
    case None
    have "sql_u64 E ?h"
      using chain_bound [OF wf_nodeD(2) [OF assms]] env_okD(4) [OF wf_coreD(1) [OF hs(3)]]
      by (simp add: unat_of_nat_small)
    then have c: "get_consensus E st' ?h = Ok (consensus_at E (db ?st) ?h)"
      using get_consensus_spec [OF hs(3)] f(1) by simp
    have "get_summary E L nd = (Ok ?s, ?nd\<lparr>summary := cache_put (evict_summary L (summary ?nd) ?h) ?h ?s (summary ?nd)\<rparr>)"
      using run None c by (simp add: Let_def proof_at_def)
    moreover have "kept E L nd (?nd\<lparr>summary := cache_put (evict_summary L (summary ?nd) ?h) ?h ?s (summary ?nd)\<rparr>)"
      using h(2) f by (intro kept_summary [OF k]) (simp add: summary_truth_def)
    ultimately show ?thesis using h(2) by (auto simp: Let_def)
  qed
qed

lemma get_abbr_block_spec:
  assumes "wf_node E L nd"
  shows "fst (get_abbr_block E L h nd) =
      (if sql_u64 E h then Ok (case (block_at E (db (node_storage nd)) h, consensus_at E (db (node_storage nd)) h) of
         (Some b, Some p) \<Rightarrow> Some (abbreviate L b, p) | _ \<Rightarrow> None)
       else Panic Overflow)"
    and "kept E L nd (snd (get_abbr_block E L h nd))"
proof -
  let ?st = "node_storage nd"
  note wf = wf_nodeD [OF assms]
  obtain r st' where g: "get_block E ?st h = (r, st')" by (cases "get_block E ?st h")
  note gb = get_block_spec [OF wf(2), of h, unfolded g, simplified]
  note f = same_but_cache_fields [OF gb(2)]
  have k: "kept E L nd (nd\<lparr>node_storage := st'\<rparr>)" by (rule kept_storage [OF assms gb(2,3)])
  note run = get_abbr_block_def [of E L h nd] on_storage_bind [where f = "\<lambda>st. get_block E st h", OF g]
    get_consensus_spec [OF gb(3), of h]
  have hit: "sql_u64 E h \<and> c = (abbreviate L b, p)"
    if "abbr_block_cache nd h = Some c" "block_at E (db ?st) h = Some b" "consensus_at E (db ?st) h = Some p" for c b p
  proof -
    have "unat h \<le> length (chain E (db ?st))"
      using that(2) block_at_iff [OF wf_coreD(3,2) [OF wf(2)]] by blast
    then have "sql_u64 E h"
      using chain_bound [OF wf(2)] env_okD(4) [OF wf_coreD(1) [OF wf(2)]] by simp
    then show ?thesis using cache.hit_true [OF wf(4) that(1)] that(2,3) by (auto simp: abbr_truth_def)
  qed
  have hit': "\<exists>b p. block_at E (db ?st) h = Some b \<and> consensus_at E (db ?st) h = Some p"
    if "abbr_block_cache nd h = Some c" for c
    using cache.hit_true [OF wf(4) that] by (auto simp: abbr_truth_def)
  show "fst (get_abbr_block E L h nd) =
      (if sql_u64 E h then Ok (case (block_at E (db ?st) h, consensus_at E (db ?st) h) of
         (Some b, Some p) \<Rightarrow> Some (abbreviate L b, p) | _ \<Rightarrow> None)
       else Panic Overflow)"
  proof (cases "abbr_block_cache nd h")
    case (Some c)
    with hit hit' show ?thesis by (fastforce simp: get_abbr_block_def)
  next
    case None
    then show ?thesis
      by (simp add: run gb(1) f Let_def split: option.split)
  qed
  show "kept E L nd (snd (get_abbr_block E L h nd))"
  proof (cases "abbr_block_cache nd h")
    case (Some c)
    then show ?thesis by (simp add: get_abbr_block_def kept_refl [OF assms])
  next
    case None
    show ?thesis
    proof (cases "sql_u64 E h")
      case True
      then show ?thesis
        using None k f gb(1)
        by (auto simp: run Let_def abbr_truth_def split: option.split
            intro!: kept_abbr [OF k, simplified])
    qed (use None k gb(1) in \<open>simp add: run\<close>)
  qed
qed

lemma get_coin_tree_spec:
  assumes "wf_node E L nd" "fst (get_state E (node_storage nd) h) = Ok os"
  shows "fst (get_coin_tree E L h nd) =
      (case os of None \<Rightarrow> Err (NotConfirmed h) | Some s \<Rightarrow> Ok (tx_tree E L s))"
    and "kept E L nd (snd (get_coin_tree E L h nd))"
proof -
  let ?st = "node_storage nd"
  note wf = wf_nodeD [OF assms(1)]
  obtain st' where g: "get_state E ?st h = (Ok os, st')" using assms(2) by (metis prod.collapse)
  note gs = get_state_spec(2,3) [OF wf(2), of h, unfolded g, simplified]
  have k: "kept E L nd (nd\<lparr>node_storage := st'\<rparr>)" by (rule kept_storage [OF assms(1) gs])
  note run = get_coin_tree_def [of E L h nd] on_storage_bind [where f = "\<lambda>st. get_state E st h", OF g]
  have st': "fst (get_state E st' h) = fst (get_state E ?st h)"
    by (simp only: get_state_spec(1) [OF gs(2)] get_state_spec(1) [OF wf(2)] same_but_cache_fields [OF gs(1)])
  show "fst (get_coin_tree E L h nd) =
      (case os of None \<Rightarrow> Err (NotConfirmed h) | Some s \<Rightarrow> Ok (tx_tree E L s))"
  proof (cases "coin_smts nd h")
    case (Some t)
    from cache.hit_true [OF wf(5) this] show ?thesis
      using Some assms(2) by (auto simp: get_coin_tree_def tree_truth_def)
  next
    case None
    then show ?thesis by (simp add: run Let_def tx_tree_def split: option.split)
  qed
  show "kept E L nd (snd (get_coin_tree E L h nd))"
  proof (cases "coin_smts nd h")
    case (Some t)
    then show ?thesis by (simp add: get_coin_tree_def kept_refl [OF assms(1)])
  next
    case None
    show ?thesis
    proof (cases os)
      case (Some s)
      have t: "tree_truth E L (node_storage (nd\<lparr>node_storage := st'\<rparr>)) h (tx_tree E L s)"
        using assms(2) Some st' by (simp add: tree_truth_def)
      from kept_tree [OF k this] show ?thesis
        using None Some by (simp add: run Let_def tx_tree_def)
    qed (use None k in \<open>simp add: run\<close>)
  qed
qed

text \<open>Reading a state a second time gives the same state.\<close>

lemma get_state_again:
  assumes "wf_core E st" "get_state E st h = (r, st')"
  shows "fst (get_state E st' h) = r"
proof -
  note gs = get_state_spec(2,3) [OF assms(1), of h, unfolded assms(2) snd_conv]
  have "fst (get_state E st' h) = fst (get_state E st h)"
    by (simp only: get_state_spec(1) [OF gs(2)] get_state_spec(1) [OF assms(1)] same_but_cache_fields [OF gs(1)])
  then show ?thesis by (simp add: assms(2))
qed

lemma get_smt_branch_spec:
  assumes "wf_node E L nd" "fst (get_state E (node_storage nd) h) = Ok (Some s)"
  shows "fst (get_smt_branch E L h elem key nd) =
     (case elem of
        Coins \<Rightarrow> Ok (Some (get_with_proof L (raw_coins_smt L s) key))
      | History \<Rightarrow> Ok (Some (get_with_proof L (raw_history_smt L s) key))
      | Pools \<Rightarrow> Ok (Some (get_with_proof L (raw_pools_smt L s) key))
      | Stakes \<Rightarrow> Panic (Todo ''no longer relevant'')
      | Transactions \<Rightarrow> Ok (Some (get_with_proof L (tx_tree E L s) key)))"
    and "kept E L nd (snd (get_smt_branch E L h elem key nd))"
proof -
  obtain st' where g: "get_state E (node_storage nd) h = (Ok (Some s), st')"
    using assms(2) by (metis prod.collapse)
  let ?nd = "nd\<lparr>node_storage := st'\<rparr>"
  have k: "kept E L nd ?nd"
    using get_state_keeps [OF assms(1), of h] g by simp
  then have wf: "wf_node E L ?nd" by (simp add: kept_def)
  have "fst (get_state E (node_storage ?nd) h) = Ok (Some s)"
    using get_state_again [OF wf_nodeD(2) [OF assms(1)] g] by simp
  note t = get_coin_tree_spec [OF wf this]
  note run = get_smt_branch_def [of E L h elem key nd] on_storage_bind [where f = "\<lambda>st. get_state E st h", OF g]
  obtain nd' where "get_coin_tree E L h ?nd = (Ok (tx_tree E L s), nd')"
    using t(1) by (cases "get_coin_tree E L h ?nd") simp
  with t(2) kept_trans [OF k]
  show "fst (get_smt_branch E L h elem key nd) =
     (case elem of
        Coins \<Rightarrow> Ok (Some (get_with_proof L (raw_coins_smt L s) key))
      | History \<Rightarrow> Ok (Some (get_with_proof L (raw_history_smt L s) key))
      | Pools \<Rightarrow> Ok (Some (get_with_proof L (raw_pools_smt L s) key))
      | Stakes \<Rightarrow> Panic (Todo ''no longer relevant'')
      | Transactions \<Rightarrow> Ok (Some (get_with_proof L (tx_tree E L s) key)))"
    and "kept E L nd (snd (get_smt_branch E L h elem key nd))"
    by (simp_all add: run)
qed

lemma send_tx_keeps:
  assumes "wf_node E L nd"
  shows "wf_node E L (snd (send_tx E L now now' routes tx nd))"
proof -
  let ?st = "node_storage nd"
  obtain r m where a: "apply_transaction E tx (mempool ?st) = (r, m)"
    by (cases "apply_transaction E tx (mempool ?st)")
  have "wf_node E L (nd\<lparr>node_storage := ?st\<lparr>mempool := m\<rparr>\<rparr>)"
    by (rule wf_node_later [OF assms later_pool [OF wf_nodeD(1) [OF assms]]])
  then show ?thesis
    using assms by (cases r) (simp_all add: send_tx_def a Let_def wf_node_def)
qed

lemma get_stakers_raw_keeps: "wf_node E L nd \<Longrightarrow> kept E L nd (snd (get_stakers_raw E L h nd))"
  using get_state_keeps [of E L nd h] kept_refl [of E L nd]
  by (cases "get_state E (node_storage nd) h"; cases "fst (get_state E (node_storage nd) h)")
    (auto simp: get_stakers_raw_def on_storage_def split: option.split)

lemma get_coin_changes_keeps: "wf_node E L nd \<Longrightarrow> kept E L nd (snd (get_coin_changes E h cov nd))"
proof -
  assume wf: "wf_node E L nd"
  obtain r st' where g: "get_block E (node_storage nd) h = (r, st')" by (cases "get_block E (node_storage nd) h")
  have k: "kept E L nd (nd\<lparr>node_storage := st'\<rparr>)" using get_block_keeps [OF wf, of h] g by simp
  note run = get_coin_changes_def [of E h cov nd] on_storage_bind [where f = "\<lambda>st. get_block E st h", OF g]
  show ?thesis
  proof (cases r)
    case (Ok ob)
    then show ?thesis
      using k by (cases "get_indexer (nd\<lparr>node_storage := st'\<rparr>)")
        (auto simp: run Let_def split: option.split)
  qed (use k in \<open>simp_all add: run\<close>)
qed

lemma rpc_get_block_keeps: "wf_node E L nd \<Longrightarrow> kept E L nd (snd (rpc_get_block E h nd))"
  using get_block_keeps [of E L nd h] by (simp add: rpc_get_block_def on_storage_def Let_def)

end
