(* ===== verification/Node_Lz4.thy ===== *)
theory Node_Lz4
  imports Node_Handlers
begin

text \<open>
  The batches of \<open>get_lz4_blocks\<close>: the loop equals a fold over the stored blocks from the
  requested height on, so it ends; and what it sends is what block synchronisation needs
  to make progress.
\<close>

section \<open>The batch, without the loop\<close>

text \<open>How many entries of the given sizes are taken while the sum is within the limit.\<close>

fun batch_len :: "nat \<Rightarrow> nat \<Rightarrow> nat list \<Rightarrow> nat" where
  "batch_len limit tot [] = 0"
| "batch_len limit tot (s # ss) = (if tot \<le> limit then Suc (batch_len limit (tot + s) ss) else 0)"

definition entry_size :: "('ss, 'us, 'sk) env \<Rightarrow> block \<times> consensus_proof \<Rightarrow> nat" where
  "entry_size E x = length (enc_block E (fst x)) + length (enc_proof E (snd x))"

definition batch_of ::
  "('ss, 'us, 'sk) env \<Rightarrow> nat \<Rightarrow> (block \<times> consensus_proof) list \<Rightarrow> block list \<times> consensus_proof list" where
  "batch_of E limit xs =
     (let k = batch_len limit 0 (map (entry_size E) xs);
          bs = map fst (take k xs)
      in (if limit < sum_list (map (entry_size E) (take k xs)) \<and> 1 < length bs then butlast bs else bs,
          map snd (take k xs)))"

lemma batch_len_sum:
  "tot + sum_list (take k ss) \<le> limit \<Longrightarrow> k < length ss \<Longrightarrow> k < batch_len limit tot ss"
proof (induction ss arbitrary: tot k)
  case Nil
  then show ?case by simp
next
  case (Cons s ss)
  then show ?case by (cases k) auto
qed

lemma batch_len_within:
  "k < batch_len limit tot ss \<Longrightarrow> tot + sum_list (take k ss) \<le> limit"
proof (induction ss arbitrary: tot k)
  case Nil
  then show ?case by simp
next
  case (Cons s ss)
  show ?case
  proof (cases k)
    case (Suc j)
    then show ?thesis
      using Cons.IH [of j "tot + s"] Cons.prems by (simp add: add.assoc split: if_splits)
  qed (use Cons.prems in \<open>simp split: if_splits\<close>)
qed

lemma batch_len_le: "batch_len limit tot ss \<le> length ss"
  by (induction limit tot ss rule: batch_len.induct) simp_all

lemma batch_len_pos: "ss \<noteq> [] \<Longrightarrow> 0 < batch_len limit 0 ss"
  by (cases ss) simp_all

text \<open>What a batch has: at least one block, within the limit unless it is the only one.\<close>

lemma batch_of_props:
  assumes "batch_of E limit xs = (bs, ps)" "xs \<noteq> []"
  shows "bs \<noteq> []" "bs = map fst (take (length bs) xs)" "ps = map snd (take (length ps) xs)"
    "length bs \<le> length ps" "length ps \<le> Suc (length bs)"
    "length bs = 1 \<or> sum_list (map (entry_size E) (take (length bs) xs)) \<le> limit"
proof -
  define k where "k = batch_len limit 0 (map (entry_size E) xs)"
  have k: "0 < k" "k \<le> length xs"
    using batch_len_pos [of "map (entry_size E) xs" limit] batch_len_le [of limit 0 "map (entry_size E) xs"] assms(2)
    by (simp_all add: k_def)
  have ps: "ps = map snd (take k xs)"
    using assms(1) by (simp add: batch_of_def k_def Let_def)
  define j where "j = (if limit < sum_list (map (entry_size E) (take k xs)) \<and> 1 < k then k - 1 else k)"
  have bs: "bs = map fst (take j xs)"
    using assms(1) k by (auto simp: batch_of_def k_def [symmetric] Let_def j_def map_butlast [symmetric] butlast_take)
  have j: "0 < j" "j \<le> k" "k \<le> Suc j" using k by (auto simp: j_def)
  have len: "length bs = j" "length ps = k" using bs ps j k by simp_all
  show "bs \<noteq> []" using len j by auto
  show "bs = map fst (take (length bs) xs)" "ps = map snd (take (length ps) xs)"
    "length bs \<le> length ps" "length ps \<le> Suc (length bs)"
    using bs ps len j by simp_all
  have "sum_list (take (k - 1) (map (entry_size E) xs)) \<le> limit"
    using batch_len_within [of "k - 1" limit 0 "map (entry_size E) xs"] k by (simp add: k_def)
  then show "length bs = 1 \<or> sum_list (map (entry_size E) (take (length bs) xs)) \<le> limit"
    unfolding len using k(1) by (auto simp: j_def not_less take_map)
qed

lemma batch_of_proofs:
  assumes "batch_of E limit xs = (bs, ps)" "xs \<noteq> []"
  shows "\<exists>rest. ps = map snd (take (length bs) xs) @ rest"
proof -
  note p = batch_of_props [OF assms]
  have "take (length bs) ps = take (length bs) (map snd (take (length ps) xs))"
    using p(3) by (rule arg_cong)
  also have "\<dots> = map snd (take (length bs) xs)"
    using p(4) by (simp only: take_map take_take min.absorb1)
  finally show ?thesis
    using append_take_drop_id [of "length bs" ps] by metis
qed

lemma batch_of_zip:
  assumes "batch_of E limit xs = (bs, ps)" "xs \<noteq> []"
  shows "zip bs ps = take (length bs) xs"
  using batch_of_proofs [OF assms] zip_map_rest [of "take (length bs) xs"] batch_of_props(2) [OF assms] by metis

section \<open>The loop\<close>

definition chain_proofs :: "('ss, 'us, 'sk) env \<Rightarrow> db_tables \<Rightarrow> (block \<times> consensus_proof) list" where
  "chain_proofs E tabs = zip (chain E tabs) (proofs E tabs)"

lemma chain_proofs_length: "wf_db E tabs \<Longrightarrow> length (chain_proofs E tabs) = length (chain E tabs)"
  using proofs_length [of E tabs] unfolding chain_proofs_def by (simp only: length_zip min.idem)

text \<open>The storages the loop goes through.\<close>

definition same_wf :: "('ss, 'us, 'sk) env \<Rightarrow> 'us storage \<Rightarrow> 'us storage \<Rightarrow> bool" where
  "same_wf E st st' \<longleftrightarrow> same_but_cache st st' \<and> wf_core E st'"

lemma same_wf_trans: "same_wf E a b \<Longrightarrow> same_wf E b c \<Longrightarrow> same_wf E a c"
  unfolding same_wf_def using same_but_cache_trans by blast

lemma reads_at:
  assumes "wf_core E st" "j < length (chain E (db st))"
  obtains st' where "get_block E st (of_nat (Suc j)) = (Ok (Some (chain E (db st) ! j)), st')"
    "get_consensus E st' (of_nat (Suc j)) = Ok (Some (proofs E (db st) ! j))" "same_wf E st st'"
proof -
  let ?h = "of_nat (Suc j) :: u64"
  note wf = wf_coreD [OF assms(1)] and gb = get_block_spec [OF assms(1), of ?h]
  have i: "j < length (history (db st))" using assms(2) by simp
  note n = chain_nth [OF wf(3,2) i]
  have u: "unat ?h = Suc j"
    using chain_bound [OF assms(1)] assms(2) by (subst unat_of_nat_small) simp_all
  obtain st' where st': "get_block E st ?h = (Ok (block_at E (db st) ?h), st')"
    using gb(1) n(3) by (metis prod.collapse)
  have "consensus_at E (db st) ?h = Some (proofs E (db st) ! j)"
    using consensus_at_iff [OF wf(3,2), of ?h] u assms(2) by (simp del: of_nat_Suc)
  then have "get_consensus E st' ?h = Ok (Some (proofs E (db st) ! j))"
    using get_consensus_spec [OF gb(3), of ?h] n(3) same_but_cache_fields(1) [OF gb(2)] st' by simp
  then show thesis using that st' n(1) gb(2,3) by (simp add: same_wf_def)
qed

lemma reads_none:
  assumes "wf_core E st" "block_at E (db st) h = None" "unat h < 2 ^ 63"
  obtains st' where "get_block E st h = (Ok None, st')" "same_wf E st st'"
  using get_block_spec [OF assms(1), of h] assms(2,3) env_okD(4) [OF wf_coreD(1) [OF assms(1)]]
    that [of "snd (get_block E st h)"]
  by (cases "get_block E st h") (simp add: same_wf_def)

lemma past_end:
  "wf_core E st \<Longrightarrow> block_at E (db st) (of_nat (Suc (length (chain E (db st))))) = None"
proof -
  assume wf: "wf_core E st"
  let ?h = "of_nat (Suc (length (chain E (db st)))) :: u64"
  have "unat ?h = Suc (length (chain E (db st)))"
    using chain_bound [OF wf] by (subst unat_of_nat_small) simp_all
  then have "block_at E (db st) ?h \<noteq> Some b" for b
    using block_at_iff [OF wf_coreD(3,2) [OF wf], of ?h b] by (auto simp del: of_nat_Suc)
  then show ?thesis by (cases "block_at E (db st) ?h") (simp_all del: of_nat_Suc)
qed

text \<open>From position \<open>j\<close> on, with room left; then the loop has these results.\<close>

lemma lz4_loop_eq:
  assumes "wf_core E st" "xs = drop j (chain_proofs E (db st))" "tot \<le> limit" "j \<le> length (chain E (db st))"
    and "k = batch_len limit tot (map (entry_size E) xs)"
    and "acc' = acc @ map fst (take k xs)"
    and "length (chain E (db st)) < 2 ^ 63 - 1"
  shows "\<exists>st'. same_wf E st st' \<and>
    iterate (lz4_step E limit) (of_nat (Suc j), tot, acc, pacc, st) =
      Some (Ok (if acc' = [] then None
        else Some (if limit < tot + sum_list (map (entry_size E) (take k xs)) \<and> 1 < length acc' then butlast acc' else acc',
                   pacc @ map snd (take k xs))), st')"
  using assms
proof (induction xs arbitrary: j tot acc pacc st k acc')
  case Nil
  have wf: "wf_core E st" and j: "j = length (chain E (db st))"
    using Nil.prems(1,2,4) chain_proofs_length [OF wf_coreD(3) [OF Nil.prems(1)]] by auto
  have u: "unat (of_nat (Suc j) :: u64) < 2 ^ 63"
    using Nil.prems(7) j by (subst unat_of_nat_small) simp_all
  obtain st' where "get_block E st (of_nat (Suc j)) = (Ok None, st')" "same_wf E st st'"
    using reads_none [OF wf past_end [OF wf]] u unfolding j by blast
  moreover from this have "lz4_step E limit (of_nat (Suc j), tot, acc, pacc, st) =
      Inl (if acc = [] then (Ok None, st') else (Ok (Some (acc, pacc)), st'))"
    using Nil.prems(3) by (simp add: lz4_step_def del: of_nat_Suc)
  ultimately show ?case
    using Nil.prems(3,5,6) by (auto simp: iterate_Inl simp del: of_nat_Suc)
next
  case (Cons x ys)
  note wf = Cons.prems(1)
  have jl: "j < length (chain_proofs E (db st))" using Cons.prems(2) by (metis drop_eq_Nil list.distinct(1) not_le)
  then have j: "j < length (chain E (db st))" using chain_proofs_length [OF wf_coreD(3) [OF wf]] by simp
  have x: "x = chain_proofs E (db st) ! j" "ys = drop (Suc j) (chain_proofs E (db st))"
    using Cons.prems(2) Cons_nth_drop_Suc [OF jl] by (metis list.inject)+
  have jp: "j < length (proofs E (db st))" using j proofs_length [OF wf_coreD(3) [OF wf]] by simp
  obtain st1 where st1: "get_block E st (of_nat (Suc j)) = (Ok (Some (fst x)), st1)"
    "get_consensus E st1 (of_nat (Suc j)) = Ok (Some (snd x))" "same_wf E st st1"
    using reads_at [OF wf j] j jp unfolding x(1) chain_proofs_def nth_zip [OF j jp] fst_conv snd_conv by blast
  have wf1: "wf_core E st1" and db1: "db st1 = db st"
    using st1(3) same_but_cache_fields by (auto simp: same_wf_def)
  let ?tot = "tot + entry_size E x"
  let ?acc = "if limit < ?tot \<and> 1 < length (acc @ [fst x]) then butlast (acc @ [fst x]) else acc @ [fst x]"
  have c: "checked_add (of_nat (Suc j)) 1 = Some (of_nat (Suc (Suc j)) :: u64)"
    using chain_bound [OF wf] j by (simp add: checked_add_def unat_of_nat_small del: of_nat_Suc) simp
  have step: "lz4_step E limit (of_nat (Suc j), tot, acc, pacc, st) =
      Inr (of_nat (Suc (Suc j)), ?tot, ?acc, pacc @ [snd x], st1)"
    using st1(1,2) Cons.prems(3) c by (simp add: lz4_step_def entry_size_def Let_def add.assoc del: of_nat_Suc)
  note go = iterate_Inr [of "lz4_step E limit", OF step]
  show ?case
  proof (cases "?tot \<le> limit")
    case True
    define k1 where "k1 = batch_len limit ?tot (map (entry_size E) ys)"
    have k: "k = Suc k1" using Cons.prems(3,5) True by (simp add: k1_def)
    have "\<exists>st'. same_wf E st1 st' \<and>
      iterate (lz4_step E limit) (of_nat (Suc (Suc j)), ?tot, acc @ [fst x], pacc @ [snd x], st1) =
      Some (Ok (if acc' = [] then None
        else Some (if limit < ?tot + sum_list (map (entry_size E) (take k1 ys)) \<and> 1 < length acc' then butlast acc' else acc',
                   (pacc @ [snd x]) @ map snd (take k1 ys))), st')"
      by (rule Cons.IH [OF wf1 _ True _ k1_def]) (use x(2) j db1 Cons.prems(6,7) k in simp_all)
    then show ?thesis
      using go True k same_wf_trans [OF st1(3)] by (auto simp: add.assoc simp del: of_nat_Suc)
  next
    case False
    have k: "k = 1" using Cons.prems(3,5) False by (cases ys) simp_all
    have "lz4_step E limit (of_nat (Suc (Suc j)), ?tot, ?acc, pacc @ [snd x], st1) =
        Inl (Ok (Some (?acc, pacc @ [snd x])), st1)"
      using False by (simp add: lz4_step_def del: of_nat_Suc)
    then have "iterate (lz4_step E limit) (of_nat (Suc j), tot, acc, pacc, st) =
        Some (Ok (Some (?acc, pacc @ [snd x])), st1)"
      using go by (simp only: iterate_Inl)
    then show ?thesis using st1(3) Cons.prems(6) False k by (auto simp del: of_nat_Suc)
  qed
qed

section \<open>The handler\<close>

definition lz4_answer ::
  "('ss, 'us, 'sk) env \<Rightarrow> wire \<Rightarrow> db_tables \<Rightarrow> u64 \<Rightarrow> nat \<Rightarrow> string option" where
  "lz4_answer E W tabs h limit =
     (let xs = drop (unat h - 1) (chain_proofs E tabs)
      in if h = 0 \<or> xs = [] then None else Some (encode_batch W (batch_of E limit xs)))"

lemma get_lz4_blocks_eq:
  assumes "wf_node E L nd" "Suc (length (chain E (db (node_storage nd)))) < 2 ^ 63" "unat h < 2 ^ 63"
  shows "\<exists>nd'. kept E L nd nd' \<and> get_lz4_blocks E W h size_limit nd =
     Some (Ok (lz4_answer E W (db (node_storage nd)) h (min size_limit 10000000)), nd')"
proof -
  let ?st = "node_storage nd"
  note wf = wf_nodeD(2) [OF assms(1)]
  note len = chain_proofs_length [OF wf_coreD(3) [OF wf]]
  have fin: ?thesis if "same_wf E ?st st'"
    "iterate (lz4_step E (min size_limit 10000000)) (h, 0, [], [], ?st) = Some (Ok b, st')"
    "map_option (encode_batch W) b = lz4_answer E W (db ?st) h (min size_limit 10000000)" for st' b
    using that kept_storage [OF assms(1)] by (auto simp: get_lz4_blocks_def same_wf_def)
  show ?thesis
  proof (cases "0 < unat h \<and> unat h \<le> length (chain E (db ?st))")
    case True
    let ?j = "unat h - 1"
    have h: "h = of_nat (Suc ?j)" using True by simp
    define xs where "xs = drop ?j (chain_proofs E (db ?st))"
    define k where "k = batch_len (min size_limit 10000000) 0 (map (entry_size E) xs)"
    have "unat h - 1 < length (chain_proofs E (db ?st))" using True len by linarith
    then have xs: "xs \<noteq> []" by (simp add: xs_def)
    have k0: "0 < k" using batch_len_pos [of "map (entry_size E) xs"] xs by (simp add: k_def)
    have h0: "h \<noteq> 0" using True by auto
    have "?j \<le> length (chain E (db ?st))" "length (chain E (db ?st)) < 2 ^ 63 - 1"
      using True assms(2) by (linarith, simp)
    note loop = lz4_loop_eq [OF wf xs_def le0 this(1) k_def refl this(2), of "[]" "[]"]
    have "map fst (take k xs) \<noteq> []" using xs k0 by simp
    with loop obtain st' where "same_wf E ?st st'"
      and "iterate (lz4_step E (min size_limit 10000000)) (h, 0, [], [], ?st) =
        Some (Ok (Some (batch_of E (min size_limit 10000000) xs)), st')"
      unfolding h [symmetric] batch_of_def k_def [symmetric] Let_def by (auto simp only: append_Nil if_False add_0)
    then show ?thesis
      by (rule fin) (use xs h0 in \<open>simp only: lz4_answer_def Let_def xs_def [symmetric] option.map if_False simp_thms\<close>)
  next
    case False
    then have none: "block_at E (db ?st) h = None"
      using block_at_iff [OF wf_coreD(3,2) [OF wf], of h] by (cases "block_at E (db ?st) h") blast+
    obtain st' where st': "get_block E ?st h = (Ok None, st')" "same_wf E ?st st'"
      by (rule reads_none [OF wf none assms(3)])
    have "lz4_answer E W (db ?st) h (min size_limit 10000000) = None"
      using False len by (auto simp: lz4_answer_def Let_def word_unat_eq_iff)
    then show ?thesis
      using st' by (intro fin [of st' None]) (simp_all add: iterate_Inl lz4_step_def)
  qed
qed

section \<open>A node as a peer\<close>

text \<open>
  The peer another node sees when it is connected to \<open>nd\<close> and nothing is lost or late on
  the way.
\<close>

definition honest_peer ::
  "('ss, 'us, 'sk) env \<Rightarrow> ('ss, 'sk, 'ab, 'tree, 'pf) rpc_env \<Rightarrow> wire \<Rightarrow> ('us, 'ab, 'tree) node \<Rightarrow> peer" where
  "honest_peer E L W nd = \<lparr>
     peer_summary = bind_res (fst (get_summary E L nd)) (\<lambda>s. Ok (sum_height s)),
     peer_lz4_blocks = (\<lambda>n h limit. loop_res (map_option fst (get_lz4_blocks E W h (unat limit) nd))),
     peer_full_block = (\<lambda>h. bind_res (fst (get_block E (node_storage nd) h)) (\<lambda>ob.
       bind_res (get_consensus E (node_storage nd) h) (\<lambda>op.
         Ok (case (ob, op) of (Some b, Some p) \<Rightarrow> Some (b, p) | _ \<Rightarrow> None))))\<rparr>"

lemma honest_peer_serves:
  assumes "wf_node E L nd" "wire_ok W" "Suc (length (chain E (db (node_storage nd)))) < 2 ^ 63"
    and "base \<le> length (chain E (db (node_storage nd)))"
    and "bps = drop base (chain_proofs E (db (node_storage nd)))"
  shows "serves W (honest_peer E L W nd) base bps"
proof -
  let ?tabs = "db (node_storage nd)"
  note len = chain_proofs_length [OF wf_coreD(3) [OF wf_nodeD(2) [OF assms(1)]]]
  obtain s where s: "fst (get_summary E L nd) = Ok s" "sum_height s = of_nat (length (chain E ?tabs))"
    using get_summary_spec [OF assms(1)] by (auto simp: Let_def)
  have "base + length bps = length (chain E ?tabs)" using assms(4,5) len by simp
  then have summary: "peer_summary (honest_peer E L W nd) = Ok (of_nat (base + length bps))"
    by (simp only: honest_peer_def peer.select_convs s bind_res_simps)
  have "\<exists>k rest. 0 < k \<and> fetch_blocks W (honest_peer E L W nd) n (of_nat (Suc (base + i))) =
      Ok (map fst (take k (drop i bps)), map snd (take k (drop i bps)) @ rest)"
    if i: "i < length bps" for n i
  proof -
    let ?h = "of_nat (Suc (base + i)) :: u64" and ?xs = "drop i bps"
    have u: "unat ?h = Suc (base + i)"
      using i assms(3,5) len by (subst unat_of_nat_small) auto
    have "unat ?h < 2 ^ 63" using u i assms(3,5) len by simp
    then obtain nd' where "get_lz4_blocks E W ?h (unat (500000 :: u64)) nd =
        Some (Ok (lz4_answer E W ?tabs ?h 500000), nd')"
      using get_lz4_blocks_eq [OF assms(1,3), of ?h W "unat (500000 :: u64)"] by auto
    moreover have "?xs = drop (unat ?h - 1) (chain_proofs E ?tabs)" "?xs \<noteq> []" "?h \<noteq> 0"
      using u i assms(5) by (simp_all add: add.commute del: of_nat_Suc) (metis unat_0 Zero_not_Suc)
    moreover obtain bs ps where b: "batch_of E 500000 ?xs = (bs, ps)" by (cases "batch_of E 500000 ?xs")
    ultimately have f: "fetch_blocks W (honest_peer E L W nd) n ?h = Ok (bs, ps)"
      by (simp add: fetch_blocks_def honest_peer_def lz4_answer_def decode_encode_batch [OF assms(2)]
          del: of_nat_Suc drop_drop)
    have xs: "?xs \<noteq> []" using i by simp
    note p = batch_of_props [OF b xs]
    obtain rest where "ps = map snd (take (length bs) ?xs) @ rest"
      using batch_of_proofs [OF b xs] by blast
    moreover have "0 < length bs" using p(1) by simp
    ultimately show ?thesis using f p(2) by metis
  qed
  with summary show ?thesis unfolding serves_def by blast
qed

end
