(* ===== verification/Node_Life.thy ===== *)
theory Node_Life
  imports Node_Lz4
begin

text \<open>
  The life of a node: its handlers, the synchronisation task and the staker take turns,
  in any order. \<open>node_step\<close> has a rule per event; the invariant holds along every run,
  and the chain only grows.
\<close>

section \<open>Handlers that end\<close>

text \<open>Whatever batch it builds, the loop leaves all of the storage but the cache alone.\<close>

lemma lz4_step_same:
  assumes "wf_core E st" "lz4_step E limit (h, tot, acc, pacc, st) = x"
  shows "(\<forall>r st'. x = Inl (r, st') \<longrightarrow> same_wf E st st') \<and>
    (\<forall>h' tot' acc' pacc' st'. x = Inr (h', tot', acc', pacc', st') \<longrightarrow> same_wf E st st')"
proof -
  obtain r st1 where g: "get_block E st h = (r, st1)" by (cases "get_block E st h")
  have "same_wf E st st1" "same_wf E st st"
    using get_block_spec(2,3) [OF assms(1), of h] g assms(1) by (simp_all add: same_wf_def)
  then show ?thesis
    using assms(2)
    by (auto simp: lz4_step_def g Let_def split: if_splits res.splits option.splits)
qed

lemma get_lz4_blocks_keeps:
  assumes "wf_node E L nd" "get_lz4_blocks E W h limit nd = Some (r, nd')"
  shows "kept E L nd nd'"
proof -
  let ?st = "node_storage nd" and ?l = "min limit 10000000"
  let ?I = "\<lambda>(h, tot, acc, pacc, st). same_wf E ?st st"
  let ?Q = "\<lambda>(r, st). same_wf E ?st st"
  obtain ri sti where it: "iterate (lz4_step E ?l) (h, 0, [], [], ?st) = Some (ri, sti)"
    and nd': "nd' = nd\<lparr>node_storage := sti\<rparr>"
    using assms(2) by (auto simp: get_lz4_blocks_def split: option.splits)
  have "?Q (ri, sti)"
  proof (rule iterate_invariant [where I = ?I and Q = ?Q, OF it])
    show "?I (h, 0, [], [], ?st)"
      using wf_nodeD(2) [OF assms(1)] by (simp add: same_wf_def)
    fix x y assume x: "?I x" "lz4_step E ?l x = Inr y"
    obtain h1 t1 a1 p1 s1 h2 t2 a2 p2 s2 where e: "x = (h1, t1, a1, p1, s1)" "y = (h2, t2, a2, p2, s2)"
      by (metis surj_pair)
    then have s: "same_wf E ?st s1" using x(1) by simp
    then have "wf_core E s1" by (simp add: same_wf_def)
    from lz4_step_same [OF this, of ?l h1 t1 a1 p1] x(2) show "?I y"
      using same_wf_trans [OF s] by (simp add: e)
  next
    fix x y assume x: "?I x" "lz4_step E ?l x = Inl y"
    obtain h1 t1 a1 p1 s1 r2 s2 where e: "x = (h1, t1, a1, p1, s1)" "y = (r2, s2)"
      by (metis surj_pair)
    then have s: "same_wf E ?st s1" using x(1) by simp
    then have "wf_core E s1" by (simp add: same_wf_def)
    from lz4_step_same [OF this, of ?l h1 t1 a1 p1] x(2) show "?Q y"
      using same_wf_trans [OF s] by (simp add: e)
  qed
  then show ?thesis
    unfolding nd' using kept_storage [OF assms(1)] by (simp add: same_wf_def)
qed

lemma get_summary_keeps: "wf_node E L nd \<Longrightarrow> kept E L nd (snd (get_summary E L nd))"
  using get_summary_spec [of E L nd] by (auto simp: Let_def)

lemma get_smt_branch_keeps:
  assumes "wf_node E L nd" "fst (get_smt_branch E L h elem key nd) = Ok x"
  shows "kept E L nd (snd (get_smt_branch E L h elem key nd))"
proof -
  obtain r st' where g: "get_state E (node_storage nd) h = (r, st')" by (cases "get_state E (node_storage nd) h")
  have k: "kept E L nd (nd\<lparr>node_storage := st'\<rparr>)"
    using get_state_keeps [OF assms(1), of h] g by simp
  note run = get_smt_branch_def [of E L h elem key nd] on_storage_bind [where f = "\<lambda>st. get_state E st h", OF g]
  show ?thesis
  proof (cases r)
    case (Ok os)
    show ?thesis
    proof (cases os)
      case None
      then show ?thesis using k Ok by (simp add: run)
    next
      case (Some s)
      then show ?thesis using get_smt_branch_spec(2) [OF assms(1), of h s] g Ok by simp
    qed
  qed (use assms(2) in \<open>simp_all add: run\<close>)
qed

section \<open>Events\<close>

text \<open>
  A handler answers, the synchronisation task finishes a round, the staker hands a block
  over, caches drop entries. A panic or an endless loop is the end of the life instead.
\<close>

inductive node_step ::
  "('ss, 'us, 'sk) env \<Rightarrow> ('ss, 'sk, 'ab, 'tree, 'pf) rpc_env \<Rightarrow> wire
   \<Rightarrow> ('us, 'ab, 'tree) node \<Rightarrow> ('us, 'ab, 'tree) node \<Rightarrow> bool" for E L W where
  sent_tx: "send_tx E L now now' routes tx nd = (Ok x1, nd') \<Longrightarrow> node_step E L W nd nd'"
| read_summary: "get_summary E L nd = (Ok x2, nd') \<Longrightarrow> node_step E L W nd nd'"
| read_abbr: "get_abbr_block E L h nd = (Ok x3, nd') \<Longrightarrow> node_step E L W nd nd'"
| read_block: "rpc_get_block E h nd = (Ok x4, nd') \<Longrightarrow> node_step E L W nd nd'"
| read_branch: "get_smt_branch E L h elem key nd = (Ok x5, nd') \<Longrightarrow> node_step E L W nd nd'"
| read_stakers: "get_stakers_raw E L h nd = (Ok x6, nd') \<Longrightarrow> node_step E L W nd nd'"
| read_changes: "get_coin_changes E h cov nd = (Ok x7, nd') \<Longrightarrow> node_step E L W nd nd'"
| read_batch: "get_lz4_blocks E W h limit nd = Some (Ok x8, nd') \<Longrightarrow> node_step E L W nd nd'"
| synced: "blksync_round E W old batch rts connect (node_storage nd) = Some (Ok (), st') \<Longrightarrow>
    node_step E L W nd (nd\<lparr>node_storage := st'\<rparr>)"
| staked: "apply_block E (node_storage nd) blk cproof = (r, st') \<Longrightarrow> r = Ok () \<or> r = Err e \<Longrightarrow>
    node_step E L W nd (nd\<lparr>node_storage := st'\<rparr>)"
| dropped: "ms \<subseteq>\<^sub>m summary nd \<Longrightarrow> ma \<subseteq>\<^sub>m abbr_block_cache nd \<Longrightarrow> mt \<subseteq>\<^sub>m coin_smts nd \<Longrightarrow>
    node_step E L W nd (nd\<lparr>summary := ms, abbr_block_cache := ma, coin_smts := mt\<rparr>)"

inductive_cases node_stepE: "node_step E L W nd nd'"

text \<open>What one event does: the invariant stays and the storage only grows.\<close>

definition grows ::
  "('ss, 'us, 'sk) env \<Rightarrow> ('ss, 'sk, 'ab, 'tree, 'pf) rpc_env \<Rightarrow> ('us, 'ab, 'tree) node
   \<Rightarrow> ('us, 'ab, 'tree) node \<Rightarrow> bool" where
  "grows E L nd nd' \<longleftrightarrow>
     wf_node E L nd' \<and> later E (node_storage nd) (node_storage nd') \<and> node_network nd' = node_network nd"

lemma kept_grows: "wf_node E L nd \<Longrightarrow> kept E L nd nd' \<Longrightarrow> grows E L nd nd'"
  using later_same [OF wf_nodeD(1) _ wf_nodeD(2)] unfolding kept_def grows_def by blast

lemma later_grows:
  "wf_node E L nd \<Longrightarrow> later E (node_storage nd) st' \<Longrightarrow> grows E L nd (nd\<lparr>node_storage := st'\<rparr>)"
  using wf_node_later by (fastforce simp: grows_def)

lemma send_tx_grows:
  assumes "wf_node E L nd"
  shows "grows E L nd (snd (send_tx E L now now' routes tx nd))"
proof -
  have st: "node_storage (snd (send_tx E L now now' routes tx nd)) = node_storage nd \<or>
      (\<exists>m. node_storage (snd (send_tx E L now now' routes tx nd)) = (node_storage nd)\<lparr>mempool := m\<rparr>)"
    by (simp add: send_tx_def Let_def split: prod.split res.split) blast
  have "node_network (snd (send_tx E L now now' routes tx nd)) = node_network nd"
    by (simp add: send_tx_def Let_def split: prod.split res.split)
  then show ?thesis
    using st send_tx_keeps [OF assms] later_refl later_pool wf_nodeD(1) [OF assms]
    unfolding grows_def by metis
qed

lemma node_step_grows:
  assumes "node_step E L W nd nd'" "wf_node E L nd"
  shows "grows E L nd nd'"
  using assms(1)
proof (cases rule: node_step.cases)
  case (sent_tx now now' routes tx x)
  then show ?thesis using send_tx_grows [OF assms(2)] by (metis snd_conv)
next
  case (read_summary x)
  then show ?thesis using kept_grows [OF assms(2) get_summary_keeps [OF assms(2)]] by simp
next
  case (read_abbr h x)
  then show ?thesis using kept_grows [OF assms(2) get_abbr_block_spec(2) [OF assms(2), of h]] by simp
next
  case (read_block h x)
  then show ?thesis using kept_grows [OF assms(2) rpc_get_block_keeps [OF assms(2), of h]] by simp
next
  case (read_branch h elem key x)
  then show ?thesis using kept_grows [OF assms(2) get_smt_branch_keeps [OF assms(2), of h elem key x]] by simp
next
  case (read_stakers h x)
  then show ?thesis using kept_grows [OF assms(2) get_stakers_raw_keeps [OF assms(2), of h]] by simp
next
  case (read_changes h cov x)
  then show ?thesis using kept_grows [OF assms(2) get_coin_changes_keeps [OF assms(2), of h cov]] by simp
next
  case (read_batch h limit x)
  then show ?thesis using kept_grows [OF assms(2) get_lz4_blocks_keeps [OF assms(2)]] by blast
next
  case (synced old batch rts connect st')
  then show ?thesis
    using later_grows [OF assms(2) blksync_round_later [OF wf_nodeD(1) [OF assms(2)]]] by simp
next
  case (staked blk cproof r st' e)
  note wf = wf_nodeD(1,2) [OF assms(2)]
  have "later E (node_storage nd) st'"
    using staked(2,3) apply_block_later(1) [OF wf(1)] apply_block_Err [OF wf(2)] later_same [OF wf(1)] by blast
  then show ?thesis using staked(1) later_grows [OF assms(2)] by simp
next
  case (dropped ms ma mt)
  note wf = wf_nodeD [OF assms(2)]
  note cache.evict_coherent [OF wf(3) dropped(2)] cache.evict_coherent [OF wf(4) dropped(3)]
    cache.evict_coherent [OF wf(5) dropped(4)]
  then show ?thesis
    using wf(1) later_refl [OF wf(1)] by (simp add: grows_def dropped(1) wf_node_def)
qed

text \<open>A whole run.\<close>

abbreviation node_run ::
  "('ss, 'us, 'sk) env \<Rightarrow> ('ss, 'sk, 'ab, 'tree, 'pf) rpc_env \<Rightarrow> wire
   \<Rightarrow> ('us, 'ab, 'tree) node \<Rightarrow> ('us, 'ab, 'tree) node \<Rightarrow> bool" where
  "node_run E L W \<equiv> (node_step E L W)\<^sup>*\<^sup>*"

lemma node_run_grows:
  assumes "node_run E L W nd nd'" "wf_node E L nd"
  shows "grows E L nd nd'"
  using assms(1)
proof (induction rule: rtranclp_induct)
  case base
  show ?case using assms(2) later_refl [OF wf_nodeD(1) [OF assms(2)]] by (simp add: grows_def)
next
  case (step a b)
  from step.IH have "wf_node E L a" by (simp add: grows_def)
  from node_step_grows [OF step.hyps(2) this] step.IH show ?case
    using later_trans by (auto simp: grows_def)
qed

end
