(* ===== verification/Node_Props.thy ===== *)
theory Node_Props
  imports Node_Life Blksync_Props
begin

text \<open>
  What a node promises to those who call it, in every state of its life: answers that agree
  with the chain, batches that keep a catching-up peer going, at most one broadcast per
  transaction; and the requests that stop it.
\<close>

section \<open>A concrete node\<close>

definition ex_rpc :: "(ex_state, ex_stakes, header, (txhash \<times> transaction) list, unit) rpc_env" where
  "ex_rpc = \<lparr>abbreviate = blk_header, smt_empty = [], smt_insert = AList.update,
     get_with_proof = (\<lambda>t k. (case map_of t k of None \<Rightarrow> [] | Some tx \<Rightarrow> data tx, ())),
     raw_coins_smt = (\<lambda>s. []), raw_history_smt = (\<lambda>s. []), raw_pools_smt = (\<lambda>s. []),
     stakes_entries = id, rehash = (\<lambda>k. k + 1),
     evict_recent = (\<lambda>m k. {}), evict_summary = (\<lambda>m k. {}), evict_smts = (\<lambda>m k. {}),
     evict_abbr = (\<lambda>m k. {})\<rparr>"

type_synonym ex_node = "(ex_state, header, (txhash \<times> transaction) list) node"

definition ex_node1 :: ex_node where "ex_node1 = node_start Custom02 ex_st1 None"
definition ex_node2 :: ex_node where "ex_node2 = node_start Custom02 ex_st2 None"

lemma ex_node_wf: "wf_node ex_env ex_rpc ex_node1" "wf_node ex_env ex_rpc ex_node2"
  by (simp_all add: ex_node1_def ex_node2_def wf_node_start ex_st1_wf ex_st2_wf)

lemma ex_node_storage [simp]: "node_storage ex_node1 = ex_st1" "node_storage ex_node2 = ex_st2"
  by (simp_all add: ex_node1_def ex_node2_def node_start_def)

lemma ex_node_run: "node_run ex_env ex_rpc ex_wire ex_node1 ex_node2"
proof -
  have "node_step ex_env ex_rpc ex_wire ex_node1 (ex_node1\<lparr>node_storage := ex_st2\<rparr>)"
    using node_step.staked [of ex_env ex_node1 ex_b2 "ex_proof [7] 2" "Ok ()" ex_st2] ex_apply2 by simp
  then show ?thesis by (simp add: ex_node1_def ex_node2_def node_start_def r_into_rtranclp)
qed

lemma ex_chain_len: "length (chain ex_env (db ex_st1)) = 1" "length (chain ex_env (db ex_st2)) = 2"
  unfolding ex_st1_chain ex_st2_chain by simp_all

lemma ex_proofs2: "proofs ex_env (db ex_st2) = [ex_proof [7] 1, ex_proof [7] 2]"
  by (simp add: proofs_def ex_st2_db ex_tabs2_def ex_tabs1_def)

lemma ex_chain_proofs2: "chain_proofs ex_env (db ex_st2) = ex_chain_proofs"
  unfolding chain_proofs_def ex_st2_chain ex_proofs2 by (simp add: ex_chain_proofs_def)

section \<open>Answers\<close>

text \<open>
  C12: However a node has lived since its start (requests, synchronisation rounds, blocks
  from the staker, cache evictions in any order), its summary is that of the newest block
  of its storage with the stored proof, and every abbreviated block is that of the stored
  block with its stored proof: no cache is ever stale.
\<close>

theorem node_caches_never_stale:
  assumes "wf_storage E st" and "node_run E L W (node_start netid st ix) nd"
  shows "(\<exists>hdr. header_at E (genesis st) (db (node_storage nd)) (of_nat (length (chain E (db (node_storage nd))))) = Some hdr \<and>
      fst (get_summary E L nd) = Ok \<lparr>sum_netid = netid, sum_height = of_nat (length (chain E (db (node_storage nd)))),
        sum_header = hdr, sum_proof = proof_at E (db (node_storage nd)) (of_nat (length (chain E (db (node_storage nd)))))\<rparr>) \<and>
    (\<forall>h. unat h < 2 ^ 63 \<longrightarrow> fst (get_abbr_block E L h nd) =
      Ok (case (block_at E (db (node_storage nd)) h, consensus_at E (db (node_storage nd)) h) of
        (Some b, Some p) \<Rightarrow> Some (abbreviate L b, p) | _ \<Rightarrow> None))"
proof -
  have g: "grows E L (node_start netid st ix) nd"
    by (rule node_run_grows [OF assms(2) wf_node_start [OF assms(1)]])
  then have wf: "wf_node E L nd" and net: "node_network nd = netid" and "genesis (node_storage nd) = genesis st"
    by (auto simp: grows_def node_start_def dest: laterD(2))
  then show ?thesis
    using get_summary_spec [OF wf] get_abbr_block_spec(1) [OF wf] env_okD(4) [OF wf_coreD(1) [OF wf_nodeD(2) [OF wf]]]
    by (auto simp: Let_def)
qed

text \<open>
  A block once served is served for ever: whatever happens to the node between two
  requests for the same stored height, both get the same block.
\<close>

theorem served_blocks_never_change:
  assumes "wf_node E L nd" and "node_run E L W nd nd'"
    and "fst (rpc_get_block E h nd) = Ok (Some b)"
  shows "fst (rpc_get_block E h nd') = Ok (Some b)"
proof -
  have g: "grows E L nd nd'" by (rule node_run_grows [OF assms(2,1)])
  then have wf': "wf_node E L nd'" and lt: "later E (node_storage nd) (node_storage nd')"
    by (simp_all add: grows_def)
  have b: "sql_u64 E h" "block_at E (db (node_storage nd)) h = Some b"
    using assms(3) get_block_spec(1) [OF wf_nodeD(2) [OF assms(1)], of h]
    by (auto simp: rpc_get_block_def on_storage_def Let_def split: if_splits)
  from block_at_later [OF lt wf_nodeD(2) [OF assms(1)] b(2)] b(1)
  show ?thesis
    using get_block_spec(1) [OF wf_nodeD(2) [OF wf'], of h] by (simp add: rpc_get_block_def on_storage_def Let_def)
qed

text \<open>
  Every stored height has a state: it is rebuilt from the stored block and the stakes
  table, has the header of that block, and the stakes hash assertion never fires.
\<close>

theorem stored_states_rebuild:
  assumes "wf_storage E st" and "i < length (chain E (db st))"
  shows "\<exists>s. fst (get_state E st (of_nat (Suc i))) = Ok (Some s) \<and> header_of E s = blk_header (chain E (db st) ! i)"
proof -
  note core = wf_storageD(1) [OF assms(1)]
  have i: "i < length (history (db st))" using assms(2) by simp
  note n = chain_nth [OF wf_coreD(3,2) [OF core] i]
  from get_state_total [OF assms(1) n(3)] n(1) show ?thesis by auto
qed

text \<open>
  C29: For a stored height, a branch of the coins, history, pools or transactions tree is
  answered from the rebuilt state (the last from the tree of the block's transactions,
  cached or not); asking for a branch of the stakes aborts the process.
\<close>

theorem smt_branch_answers:
  assumes "wf_node E L nd" and "i < length (chain E (db (node_storage nd)))"
  shows "\<exists>s. header_of E s = blk_header (chain E (db (node_storage nd)) ! i) \<and>
    fst (get_smt_branch E L (of_nat (Suc i)) elem key nd) =
     (case elem of
        Coins \<Rightarrow> Ok (Some (get_with_proof L (raw_coins_smt L s) key))
      | History \<Rightarrow> Ok (Some (get_with_proof L (raw_history_smt L s) key))
      | Pools \<Rightarrow> Ok (Some (get_with_proof L (raw_pools_smt L s) key))
      | Stakes \<Rightarrow> Panic (Todo ''no longer relevant'')
      | Transactions \<Rightarrow> Ok (Some (get_with_proof L (tx_tree E L s) key)))"
proof -
  note core = wf_nodeD(2) [OF assms(1)]
  have i: "i < length (history (db (node_storage nd)))" using assms(2) by simp
  note n = chain_nth [OF wf_coreD(3,2) [OF core] i]
  from get_state_total [OF wf_nodeD(1) [OF assms(1)] n(3)] n(1)
  obtain s where "fst (get_state E (node_storage nd) (of_nat (Suc i))) = Ok (Some s)"
    "header_of E s = blk_header (chain E (db (node_storage nd)) ! i)"
    by auto
  with get_smt_branch_spec(1) [OF assms(1)] show ?thesis by blast
qed

section \<open>Batches\<close>

text \<open>
  \<open>get_lz4_blocks\<close> ends for every height SQLite can hold, changes nothing but caches,
  and its loop computes the plain batch: the stored blocks and proofs from that height on
  until the sizes exceed the limit (10,000,000 at most), the last block taken back.
\<close>

theorem get_lz4_blocks_batch:
  assumes "wf_node E L nd" and "Suc (length (chain E (db (node_storage nd)))) < 2 ^ 63" and "unat h < 2 ^ 63"
  shows "\<exists>nd'. kept E L nd nd' \<and> get_lz4_blocks E W h size_limit nd =
    Some (Ok (lz4_answer E W (db (node_storage nd)) h (min size_limit 10000000)), nd')"
  by (rule get_lz4_blocks_eq [OF assms])

text \<open>
  C24: A batch for a stored height has at least one block; its blocks are the stored ones
  from that height on without a gap, with their proofs in order (at most one proof too
  many); and it is within the limit unless it is a single block.
\<close>

theorem lz4_batch_contents:
  assumes "wf_node E L nd" and "Suc (length (chain E (db (node_storage nd)))) < 2 ^ 63"
    and "i < length (chain E (db (node_storage nd)))"
  shows "\<exists>bs ps nd'. get_lz4_blocks E W (of_nat (Suc i)) size_limit nd = Some (Ok (Some (encode_batch W (bs, ps))), nd') \<and>
    0 < length bs \<and> bs = take (length bs) (drop i (chain E (db (node_storage nd)))) \<and>
    ps = take (length ps) (drop i (proofs E (db (node_storage nd)))) \<and>
    length bs \<le> length ps \<and> length ps \<le> Suc (length bs) \<and>
    (length bs = 1 \<or> sum_list (map (entry_size E) (zip bs ps)) \<le> min size_limit 10000000)"
proof -
  let ?tabs = "db (node_storage nd)" and ?h = "of_nat (Suc i) :: u64"
  let ?xs = "drop i (chain_proofs E ?tabs)"
  note wf = wf_coreD(3) [OF wf_nodeD(2) [OF assms(1)]]
  note len = chain_proofs_length [OF wf] and plen = proofs_length [OF wf]
  have u: "unat ?h = Suc i" using assms(2,3) by (subst unat_of_nat_small) simp_all
  then have h: "?h \<noteq> 0" "unat ?h < 2 ^ 63" "unat ?h - 1 = i" using assms(2,3) by (auto simp del: of_nat_Suc)
  have xs: "?xs \<noteq> []" using assms(3) len by simp
  obtain bs ps where b: "batch_of E (min size_limit 10000000) ?xs = (bs, ps)"
    by (cases "batch_of E (min size_limit 10000000) ?xs")
  note p = batch_of_props [OF b xs]
  obtain nd' where "get_lz4_blocks E W ?h size_limit nd =
      Some (Ok (lz4_answer E W ?tabs ?h (min size_limit 10000000)), nd')"
    using get_lz4_blocks_eq [OF assms(1,2) h(2)] by blast
  then have run: "get_lz4_blocks E W ?h size_limit nd = Some (Ok (Some (encode_batch W (bs, ps))), nd')"
    using h xs b by (simp only: lz4_answer_def Let_def if_False simp_thms)
  have fsts: "map fst (drop i (chain_proofs E ?tabs)) = drop i (chain E ?tabs)"
    and snds: "map snd (drop i (chain_proofs E ?tabs)) = drop i (proofs E ?tabs)"
    unfolding chain_proofs_def drop_map [symmetric] using plen by simp_all
  show ?thesis
    by (rule exI [of _ bs], rule exI [of _ ps], rule exI [of _ nd'], intro conjI)
      (use run p(1,4-6) p(2,3) [unfolded take_map [symmetric] fsts snds] batch_of_zip [OF b xs] in simp_all)
qed

text \<open>
  A stored block without a stored proof (a database this version did not write) keeps
  \<open>get_lz4_blocks\<close> in its loop for ever: nothing changes from one pass to the next.
\<close>

theorem missing_proof_spins:
  assumes "get_block E (node_storage nd) h = (Ok (Some b), st')"
    and "get_block E st' h = (Ok (Some b), st')" and "get_consensus E st' h = Ok None"
  shows "get_lz4_blocks E W h size_limit nd = None"
proof -
  let ?I = "\<lambda>x. \<exists>st. x = (h, 0 :: nat, [] :: block list, [] :: consensus_proof list, st) \<and>
    get_block E st h = (Ok (Some b), st')"
  have "iterate (lz4_step E (min size_limit 10000000)) (h, 0, [], [], node_storage nd) = None"
  proof (rule iterate_diverges [where I = ?I])
    show "?I (h, 0, [], [], node_storage nd)" using assms(1) by blast
    fix x assume "?I x"
    then obtain st where x: "x = (h, 0, [], [], st)" "get_block E st h = (Ok (Some b), st')" by blast
    then have "lz4_step E (min size_limit 10000000) x = Inr (h, 0, [], [], st')"
      using assms(3) by (simp add: lz4_step_def)
    then show "\<exists>y. lz4_step E (min size_limit 10000000) x = Inr y \<and> ?I y" using assms(2) by blast
  qed
  then show ?thesis by (simp add: get_lz4_blocks_def)
qed

section \<open>Two nodes\<close>

text \<open>
  C6: A node connected to an honest one catches up: if the honest node's chain continues
  the own one by blocks the own storage accepts, one attempt fetches them batch by batch
  and ends with the honest node's blocks and proofs stored.
\<close>

theorem replica_catches_up:
  assumes "wf_storage E st" and "wf_node E L nd" and "wire_ok W"
    and "Suc (length (chain E (db (node_storage nd)))) < 2 ^ 63"
    and "chain_proofs E (db (node_storage nd)) = chain_proofs E (db st) @ bps"
    and "apply_all (apply_block E) bps st = (Ok (), st')"
  shows "attempt_blksync W (honest_peer E L W nd) False batch highest_height (apply_block E) st =
      Some (Ok (length bps), st') \<and>
    chain_proofs E (db st') = chain_proofs E (db (node_storage nd))"
proof -
  note core = wf_storageD(1) [OF assms(1)]
  note len = chain_proofs_length [OF wf_coreD(3) [OF core]]
    chain_proofs_length [OF wf_coreD(3) [OF wf_nodeD(2) [OF assms(2)]]]
  have le: "length (chain E (db st)) \<le> length (chain E (db (node_storage nd)))"
    using len assms(5) by (metis le_add1 length_append)
  have bps: "bps = drop (length (chain E (db st))) (chain_proofs E (db (node_storage nd)))"
    unfolding assms(5) len(1) [symmetric] by simp
  have "chain E (db st') = chain E (db st) @ map fst bps"
    using store.apply_all_Ok [OF assms(1,6)] by simp
  moreover have "proofs E (db st') = proofs E (db st) @ map snd bps"
    by (rule apply_all_proofs [OF assms(1,6)])
  ultimately have "chain_proofs E (db st') = chain_proofs E (db st) @ bps"
    using proofs_length [OF wf_coreD(3) [OF core]] by (simp add: chain_proofs_def zip_map_fst_snd)
  then show ?thesis
    using store.attempt_served [OF assms(1) honest_peer_serves [OF assms(2,3,4) le bps] assms(6)] assms(5) by simp
qed

section \<open>Transactions\<close>







text \<open>
  A transaction seen less than ten seconds ago is answered with \<open>RecentlySeen\<close> at
  once and changes nothing, whether or not its first sending was accepted.
\<close>

theorem resend_refused:
  assumes "send_tx E L now now' routes tx nd = (r, nd1)" and "r \<noteq> Ok (Inl RecentlySeen)"
    and "hash_nosigs E tx2 = hash_nosigs E tx" and "now2 < now' + 10000000000"
  shows "send_tx E L now2 now2' routes2 tx2 nd1 = (Ok (Inl RecentlySeen), nd1)"
proof -
  have "recent nd1 (hash_nosigs E tx) = Some now'"
    using assms(1,2)
    by (auto simp: cache.put_hit send_tx_def Let_def split: if_splits prod.splits res.splits)
  moreover have "now2 - now' < 10 * 10 ^ 9" using assms(4) by simp
  ultimately show ?thesis using assms(3) by (simp add: send_tx_def Let_def)
qed

section \<open>The coin index\<close>

text \<open>
  What the queries of the index mean (crate melblkidx): a list of coins, filtered.
\<close>

definition in_range :: "u64 \<times> u64 \<Rightarrow> u64 \<Rightarrow> bool" where
  "in_range r h \<longleftrightarrow> fst r \<le> h \<and> h \<le> snd r"

definition matches :: "coin_query \<Rightarrow> coin_info \<Rightarrow> bool" where
  "matches q c \<longleftrightarrow>
     (\<forall>a. q_covhash q = Some a \<longrightarrow> info_covhash c = a) \<and>
     (\<forall>h. q_unspent_by q = Some h \<longrightarrow> create_height c \<le> h \<and> (\<forall>s. spend_info c = Some s \<longrightarrow> h < spend_height s)) \<and>
     (\<forall>r. q_spend_height_range q = Some r \<longrightarrow> (\<exists>s. spend_info c = Some s \<and> in_range r (spend_height s))) \<and>
     (\<forall>r. q_create_height_range q = Some r \<longrightarrow> in_range r (create_height c)) \<and>
     (\<forall>t. q_create_txhash q = Some t \<longrightarrow> create_txhash c = t) \<and>
     (\<forall>i. q_create_index q = Some i \<longrightarrow> create_index c = i)"




text \<open>
  A request that needs the coin index waits for it: it goes on when a poll finds the
  index at the node's height, and never answers when none does.
\<close>

theorem indexer_waits:
  assumes "wf_node E L nd" and "node_indexer nd = Some ix"
  shows "get_indexer nd =
    (if \<exists>n. of_nat (length (chain E (db (node_storage nd)))) \<le> max_height ix n then Ok (Some ix) else Hang)"
proof -
  let ?h = "of_nat (length (chain E (db (node_storage nd)))) :: u64"
  let ?f = "\<lambda>n. if max_height ix n < ?h then Inr (Suc n) else Inl (Ok (Some ix) :: coin_index option res)"
  have "highest_height (node_storage nd) = Ok ?h"
    using store.top_length [OF wf_nodeD(1) [OF assms(1)]] by simp
  then have run: "get_indexer nd = loop_res (iterate ?f 0)" using assms(2) by (simp add: get_indexer_def)
  show ?thesis
  proof (cases "\<exists>n. ?h \<le> max_height ix n")
    case True
    define n where "n = (LEAST n. ?h \<le> max_height ix n)"
    have n: "?h \<le> max_height ix n" using True unfolding n_def by (rule LeastI_ex)
    have less: "max_height ix m < ?h" if "m < n" for m
      using not_less_Least [of m "\<lambda>n. ?h \<le> max_height ix n"] that by (simp add: n_def)
    have "iterate ?f (n - d) = Some (Ok (Some ix))" if "d \<le> n" for d
      using that
    proof (induction d)
      case 0
      then show ?case using n by (simp add: iterate_Inl not_less)
    next
      case (Suc d)
      then have "?f (n - Suc d) = Inr (n - d)" using less [of "n - Suc d"] by (simp add: Suc_diff_Suc)
      from iterate_Inr [of ?f, OF this] Suc show ?case by simp
    qed
    from this [of n] show ?thesis using True run by simp
  next
    case False
    then have "iterate ?f 0 = None"
      by (intro iterate_diverges [where I = "\<lambda>_. True"]) (auto simp: not_le)
    then show ?thesis using False run by simp
  qed
qed

section \<open>Witnesses\<close>

theorem node_caches_never_stale_witness:
  "fst (get_summary ex_env ex_rpc ex_node2) =
     Ok \<lparr>sum_netid = Custom02, sum_height = 2, sum_header = blk_header ex_b2, sum_proof = ex_proof [7] 2\<rparr>"
proof -
  have hd: "header_at ex_env g (db ex_st2) 2 = Some (blk_header ex_b2)" for g
    using block_at_iff [OF wf_coreD(3,2) [OF wf_storageD(1) [OF ex_st2_wf]], of 2 ex_b2]
    unfolding ex_st2_chain by (simp add: header_at_def)
  have pr: "proof_at ex_env (db ex_st2) 2 = ex_proof [7] 2"
    using consensus_at_iff [OF wf_coreD(3,2) [OF wf_storageD(1) [OF ex_st2_wf]], of 2 "ex_proof [7] 2"]
    unfolding ex_st2_chain ex_proofs2 by (simp add: proof_at_def)
  from node_caches_never_stale [OF ex_st1_wf ex_node_run [unfolded ex_node1_def]]
  show ?thesis unfolding ex_node_storage ex_st2_chain by (simp add: hd pr)
qed

theorem served_blocks_never_change_witness:
  "fst (rpc_get_block ex_env 1 ex_node2) = Ok (Some ex_b1)"
proof (rule served_blocks_never_change [OF ex_node_wf(1) ex_node_run])
  show "fst (rpc_get_block ex_env 1 ex_node1) = Ok (Some ex_b1)"
    using get_block_spec(1) [OF wf_storageD(1) [OF ex_st1_wf], of 1]
    by (simp add: rpc_get_block_def on_storage_def Let_def block_at_def ex_st1_db ex_tabs1_def select_row_def)
qed

theorem stored_states_rebuild_witness:
  "\<exists>s. fst (get_state ex_env ex_st2 (of_nat (Suc 1))) = Ok (Some s) \<and>
     header_of ex_env s = blk_header (chain ex_env (db ex_st2) ! 1)"
  by (rule stored_states_rebuild [OF ex_st2_wf]) (simp only: ex_chain_len one_less_numeral_iff semiring_norm)

theorem smt_branch_answers_witness:
  "fst (get_smt_branch ex_env ex_rpc 1 Stakes 0 ex_node1) = Panic (Todo ''no longer relevant'')"
proof -
  have "0 < length (chain ex_env (db (node_storage ex_node1)))" by (simp only: ex_node_storage ex_chain_len)
  from smt_branch_answers [OF ex_node_wf(1) this, of Stakes 0] show ?thesis by simp
qed

theorem get_lz4_blocks_batch_witness:
  "\<exists>nd'. get_lz4_blocks ex_env ex_wire 3 500000 ex_node2 = Some (Ok None, nd')"
proof -
  have "Suc (length (chain ex_env (db (node_storage ex_node2)))) < 2 ^ 63" "unat (3 :: u64) < 2 ^ 63"
    unfolding ex_node_storage ex_chain_len by simp_all
  from get_lz4_blocks_batch [OF ex_node_wf(2) this, of ex_wire 500000] show ?thesis
    by (auto simp: lz4_answer_def ex_chain_proofs2 ex_chain_proofs_def)
qed

theorem lz4_batch_contents_witness:
  "\<exists>bs ps nd'. get_lz4_blocks ex_env ex_wire (of_nat (Suc 0)) 100 ex_node2 =
      Some (Ok (Some (encode_batch ex_wire (bs, ps))), nd') \<and> 0 < length bs"
proof -
  have "Suc (length (chain ex_env (db (node_storage ex_node2)))) < 2 ^ 63"
    "0 < length (chain ex_env (db (node_storage ex_node2)))"
    unfolding ex_node_storage ex_chain_len by simp_all
  from lz4_batch_contents [OF ex_node_wf(2) this, of ex_wire 100] show ?thesis by blast
qed

text \<open>The example storage with its proofs deleted.\<close>

definition ex_no_proofs :: "ex_state storage" where
  "ex_no_proofs = ex_st1\<lparr>db := ex_tabs1\<lparr>consensus_proofs := []\<rparr>, old_cache := Map.empty(1 \<mapsto> ex_b1)\<rparr>"

theorem missing_proof_spins_witness:
  "get_lz4_blocks ex_env ex_wire 1 500000 (node_start Custom02 ex_no_proofs None :: ex_node) = None"
proof (rule missing_proof_spins [of _ _ _ ex_b1 ex_no_proofs])
  show "get_block ex_env ex_no_proofs 1 = (Ok (Some ex_b1), ex_no_proofs)"
    by (simp add: get_block_def get_block_once_def ex_no_proofs_def autoretry_const)
  then show "get_block ex_env (node_storage (node_start Custom02 ex_no_proofs None :: ex_node)) 1 =
      (Ok (Some ex_b1), ex_no_proofs)"
    by (simp add: node_start_def)
  show "get_consensus ex_env ex_no_proofs 1 = Ok None"
    by (simp add: get_consensus_def ex_no_proofs_def select_row_def autoretry_const)
qed

theorem replica_catches_up_witness:
  "attempt_blksync ex_wire (honest_peer ex_env ex_rpc ex_wire ex_node2) False 1000 highest_height
     (apply_block ex_env) ex_st0 = Some (Ok 2, ex_st2)"
proof -
  have "Suc (length (chain ex_env (db (node_storage ex_node2)))) < 2 ^ 63"
    unfolding ex_node_storage ex_chain_len by simp
  moreover have "chain_proofs ex_env (db (node_storage ex_node2)) = chain_proofs ex_env (db ex_st0) @ ex_chain_proofs"
    unfolding ex_node_storage ex_chain_proofs2 by (simp add: chain_proofs_def ex_chain0)
  ultimately show ?thesis
    using replica_catches_up [OF ex_st0_wf ex_node_wf(2) ex_wire_ok _ _ ex_apply_chain]
    by (simp add: ex_chain_proofs_def)
qed

theorem resend_refused_witness:
  "fst (send_tx ex_env ex_rpc 5 6 [] (ex_pool_tx [1])
     (snd (send_tx ex_env ex_rpc 0 0 [] (ex_pool_tx [1]) ex_node1))) = Ok (Inl RecentlySeen)"
proof -
  obtain r nd1 where s: "send_tx ex_env ex_rpc 0 0 [] (ex_pool_tx [1]) ex_node1 = (r, nd1)"
    by (cases "send_tx ex_env ex_rpc 0 0 [] (ex_pool_tx [1]) ex_node1")
  have "recent ex_node1 = Map.empty" by (simp add: ex_node1_def node_start_def)
  then have "r \<noteq> Ok (Inl RecentlySeen)"
    using s by (auto simp: send_tx_def Let_def split: prod.splits res.splits)
  from resend_refused [OF s this refl, of 5 6 "[]"] show ?thesis by (simp add: s)
qed

definition ex_coin :: coin_info where
  "ex_coin = \<lparr>create_txhash = 3, create_index = 0, create_height = 1, info_covhash = 5,
     spend_info = Some \<lparr>spend_txhash = 4, spend_height = 1\<rparr>\<rparr>"

definition ex_index :: coin_index where
  "ex_index = \<lparr>max_height = (\<lambda>n. of_nat n + 1), answer = (\<lambda>q. filter (matches q) [ex_coin])\<rparr>"

definition ex_node3 :: ex_node where "ex_node3 = node_start Custom02 ex_st1 (Some ex_index)"


theorem indexer_waits_witness:
  "get_indexer ex_node3 = Ok (Some ex_index)"
proof -
  have n: "node_storage ex_node3 = ex_st1" "node_indexer ex_node3 = Some ex_index"
    by (simp_all add: ex_node3_def node_start_def)
  have wf: "wf_node ex_env ex_rpc ex_node3"
    unfolding ex_node3_def by (rule wf_node_start [OF ex_st1_wf])
  have "\<exists>k. (of_nat (length (chain ex_env (db (node_storage ex_node3)))) :: u64) \<le> max_height ex_index k"
    unfolding n ex_chain_len by (rule exI [of _ 0]) (simp add: ex_index_def)
  then show ?thesis using indexer_waits [OF wf n(2)] by simp
qed

end
