(* ===== verification/Indexer.thy ===== *)
theory Indexer
  imports Node_Life
begin

text \<open>
  \<open>src/node/indexer.rs\<close>: the indexer beside the node and the task that tells its client
  which block to trust; and \<open>NodeRpcImpl::start\<close>, which starts it. The client (melprot) and
  the index (melblkidx) are arguments.
\<close>

section \<open>The task\<close>

record checkpoint =
  cp_height :: u64
  cp_header_hash :: hashval

text \<open>One pass of \<open>indexer_loop\<close>: \<open>trust\<close> is what the client makes of a checkpoint.\<close>

definition indexer_pass ::
  "('ss, 'us, 'sk) env \<Rightarrow> ('c \<Rightarrow> checkpoint \<Rightarrow> 'c) \<Rightarrow> 'c \<Rightarrow> 'us storage \<Rightarrow> 'c res \<times> 'us storage" where
  [op_defs]: "indexer_pass E trust client st =
     bind_st (highest_state E st) (\<lambda>trusted_height st.
       (Ok (trust client \<lparr>cp_height = height (header_of E trusted_height),
          cp_header_hash = header_hash E (header_of E trusted_height)\<rparr>), st))"

text \<open>
  \<open>WrappedIndexer::start\<close>: the node's own port on the loopback interface; an address is a
  host and a port. \<open>connect\<close> and \<open>new_index\<close> may fail.
\<close>

definition wrapped_indexer_start ::
  "(netid \<Rightarrow> string \<times> u16 \<Rightarrow> err + 'c) \<Rightarrow> (string \<Rightarrow> 'c \<Rightarrow> err + coin_index) \<Rightarrow> netid \<Rightarrow> 'us storage
   \<Rightarrow> string \<times> u16 \<Rightarrow> (coin_index \<times> 'c) res" where
  [op_defs]: "wrapped_indexer_start connect new_index netid st connect_addr =
     (let localhost_listen_addr = (''127.0.0.1'', snd connect_addr) in
      bind_res (of_sum (connect netid localhost_listen_addr)) (\<lambda>client.
        bind_res (context_res ''indexer failed to be created'' (of_sum (new_index (get_indexer_path st) client)))
          (\<lambda>ix. Ok (ix, client))))"

definition rpc_start ::
  "(netid \<Rightarrow> string \<times> u16 \<Rightarrow> err + 'c) \<Rightarrow> (string \<Rightarrow> 'c \<Rightarrow> err + coin_index) \<Rightarrow> string \<times> u16 \<Rightarrow> netid
   \<Rightarrow> 'us storage \<Rightarrow> bool \<Rightarrow> ('us, 'ab, 'tree) node res" where
  [op_defs]: "rpc_start connect new_index listen_addr netid st index_coins =
     (if index_coins then
        bind_res (wrapped_indexer_start connect new_index netid st listen_addr)
          (\<lambda>(ix, client). Ok (node_start netid st (Some ix)))
      else Ok (node_start netid st None))"

section \<open>What the client is told\<close>

lemma header_at_later:
  assumes "later E a b" "wf_storage E a" "header_at E (genesis a) (db a) h = Some hdr"
  shows "header_at E (genesis b) (db b) h = Some hdr"
  using assms(3) block_at_later [OF assms(1) wf_storageD(1) [OF assms(2)]] laterD(2) [OF assms(1)]
  by (auto simp: header_at_def split: if_splits)

lemma indexer_pass_spec:
  assumes "wf_storage E st"
  obtains hdr st' where "indexer_pass E trust client st =
      (Ok (trust client \<lparr>cp_height = of_nat (length (chain E (db st))), cp_header_hash = header_hash E hdr\<rparr>), st')"
    "header_at E (genesis st) (db st) (of_nat (length (chain E (db st)))) = Some hdr" "later E st st'"
proof (rule highest_state_total [OF assms])
  fix tip st'
  assume h: "highest_state E st = (Ok tip, st')" "same_but_cache st st'" "wf_core E st'"
    "height (header_of E tip) = of_nat (length (chain E (db st)))"
    "header_at E (genesis st) (db st) (of_nat (length (chain E (db st)))) = Some (header_of E tip)"
  then show thesis
    using that [of "header_of E tip" st'] later_same [OF assms h(2,3)] by (simp add: indexer_pass_def)
qed

end
