(* ===== verification/Indexer_Props.thy ===== *)
theory Indexer_Props
  imports Indexer Node_Props
begin

text \<open>
  The checkpoints the indexer's client is told to trust, and the well-formedness of a node
  from its start on.
\<close>

text \<open>
  C20: The indexer's client is only told to trust blocks of the chain, and is never told to
  go back: each pass names the top block of the moment by its height and hash, and after
  anything else the node does the block at that height is still the same and the next pass
  names no lower one.
\<close>

theorem indexer_trusts_the_chain:
  assumes "wf_node E L nd" and "node_run E L W nd nd'"
  shows "\<exists>cp cp' hdr. fst (indexer_pass E trust client (node_storage nd)) = Ok (trust client cp) \<and>
    fst (indexer_pass E trust client (node_storage nd')) = Ok (trust client cp') \<and>
    unat (cp_height cp) \<le> unat (cp_height cp') \<and> cp_header_hash cp = header_hash E hdr \<and>
    header_at E (genesis (node_storage nd)) (db (node_storage nd)) (cp_height cp) = Some hdr \<and>
    header_at E (genesis (node_storage nd')) (db (node_storage nd')) (cp_height cp) = Some hdr"
proof -
  have g: "wf_node E L nd'" "later E (node_storage nd) (node_storage nd')"
    using node_run_grows [OF assms(2,1)] by (simp_all add: grows_def)
  note wf = wf_nodeD(1) [OF assms(1)] and wf' = wf_nodeD(1) [OF g(1)]
  let ?n = "length (chain E (db (node_storage nd)))" and ?n' = "length (chain E (db (node_storage nd')))"
  obtain hdr s where p: "indexer_pass E trust client (node_storage nd) =
      (Ok (trust client \<lparr>cp_height = of_nat ?n, cp_header_hash = header_hash E hdr\<rparr>), s)"
    "header_at E (genesis (node_storage nd)) (db (node_storage nd)) (of_nat ?n) = Some hdr"
    by (rule indexer_pass_spec [OF wf])
  obtain hdr' s' where p': "indexer_pass E trust client (node_storage nd') =
      (Ok (trust client \<lparr>cp_height = of_nat ?n', cp_header_hash = header_hash E hdr'\<rparr>), s')"
    by (rule indexer_pass_spec [OF wf'])
  have "?n \<le> ?n'" using laterD(3) [OF g(2)] by (metis le_add1 length_append)
  moreover have "unat (of_nat ?n :: u64) = ?n" "unat (of_nat ?n' :: u64) = ?n'"
    using chain_bound [OF wf_storageD(1) [OF wf]] chain_bound [OF wf_storageD(1) [OF wf']]
    by (simp_all add: unat_of_nat_small)
  ultimately show ?thesis
    using p p' header_at_later [OF g(2) wf p(2)]
    by (intro exI [of _ "\<lparr>cp_height = of_nat ?n, cp_header_hash = header_hash E hdr\<rparr>"]
        exI [of _ "\<lparr>cp_height = of_nat ?n', cp_header_hash = header_hash E hdr'\<rparr>"] exI [of _ hdr]) simp
qed

theorem indexer_trusts_the_chain_witness:
  "\<exists>cp hdr. fst (indexer_pass ex_env (\<lambda>c cp. Some cp) None (node_storage ex_node1)) = Ok (Some cp) \<and>
    cp_header_hash cp = header_hash ex_env hdr \<and>
    header_at ex_env ex_genesis ex_tabs2 (cp_height cp) = Some hdr"
  using indexer_trusts_the_chain [OF ex_node_wf(1) ex_node_run, of "\<lambda>c cp. Some cp" None]
  by (auto simp: ex_st2_db)

text \<open>
  A node that starts on an opened storage is well formed, with the indexer or without
  it, and every event of its life (a request, a round of synchronisation, a block from the
  staker, a cache dropping entries) keeps it so, on the same network.
\<close>

theorem node_stays_well_formed:
  assumes "wf_storage E st" and "rpc_start connect new_index listen_addr netid st index_coins = Ok nd"
    and "node_run E L W nd nd'"
  shows "wf_node E L nd' \<and> node_network nd' = netid \<and>
    (index_coins \<longleftrightarrow> node_indexer nd \<noteq> None)"
proof -
  obtain ix where nd: "nd = node_start netid st ix" "index_coins \<longleftrightarrow> ix \<noteq> None"
    using assms(2) by (auto simp: rpc_start_def bind_res_Ok split: if_splits prod.splits)
  have "wf_node E L nd" unfolding nd(1) by (rule wf_node_start [OF assms(1)])
  from node_run_grows [OF assms(3) this] show ?thesis by (simp add: grows_def nd node_start_def)
qed

theorem node_stays_well_formed_witness: "wf_node ex_env ex_rpc ex_node2"
proof -
  have "rpc_start (\<lambda>n a. Inl Deser) (\<lambda>p c. Inl Deser) (''0.0.0.0'', 41814) Custom02 ex_st1 False = Ok ex_node1"
    by (simp add: rpc_start_def ex_node1_def)
  from node_stays_well_formed [OF ex_st1_wf this ex_node_run] show ?thesis by blast
qed

end
