(* ===== verification/Staker.thy ===== *)
theory Staker
  imports Storage_Inv "HOL-Library.AList"
begin

text \<open>
  \<open>src/staker.rs\<close>: a staker proposes the block its mempool stands for, lets Streamlette
  decide on one, gathers signatures of the decided block from its neighbours until they
  carry enough votes, and hands block and proof to the storage. Streamlette (a crate), the
  clock, keys and neighbours are arguments.
\<close>

section \<open>The schedule\<close>

text \<open>Seconds since the Unix epoch.\<close>

definition MAINNET_START_TIME :: nat where
  "MAINNET_START_TIME = 1618365600 + 30 * 6000"

definition TESTNET_START_TIME :: nat where
  "TESTNET_START_TIME = 1665123000"

text \<open>
  \<open>Duration::from_secs\<close> of a checked product; \<open>SystemTime\<close> counts seconds in 64 signed
  bits and panics when an addition leaves them.
\<close>

definition start_plus :: "nat \<Rightarrow> u64 \<Rightarrow> nat res" where
  "start_plus start h =
     bind_res (of_checked (checked_mul h 30)) (\<lambda>secs.
       if start + unat secs < 2 ^ 63 then Ok (start + unat secs)
       else Panic (Expect ''overflow when adding duration to instant''))"

definition height_to_time :: "netid \<Rightarrow> u64 \<Rightarrow> nat \<Rightarrow> nat res" where
  "height_to_time netid h now =
     (case netid of
        Testnet \<Rightarrow> start_plus TESTNET_START_TIME h
      | Mainnet \<Rightarrow> start_plus MAINNET_START_TIME h
      | _ \<Rightarrow> Ok now)"

section \<open>The proposal\<close>

text \<open>\<open>StakerConfig\<close>, with the secret key as its public key and its signing function.\<close>

record staker_config =
  cfg_public :: ed25519_pk
  cfg_sign :: "hashval \<Rightarrow> bytes"
  payout_addr :: address
  target_fee_multiplier :: u128

definition proposer_action_for :: "staker_config \<Rightarrow> header \<Rightarrow> proposer_action" where
  "proposer_action_for cfg base_header =
     \<lparr>fee_multiplier_delta = (if target_fee_multiplier cfg < fee_multiplier base_header then - 100 else 100),
      reward_dest = payout_addr cfg\<rparr>"

text \<open>The proposed block, unless the mempool does not stand for the next height.\<close>

definition make_proposal ::
  "('ss, 'us, 'sk) env \<Rightarrow> staker_config \<Rightarrow> 'ss \<Rightarrow> u64 \<Rightarrow> 'us mempool \<Rightarrow> block option" where
  "make_proposal E cfg base_state next_height m =
     (if height (header_of E (seal E (to_state m) None)) \<noteq> next_height then None
      else Some (to_block E (seal E (to_state m)
             (Some (proposer_action_for cfg (header_of E base_state))))))"

section \<open>What Streamlette asks for\<close>

text \<open>The secret key is, as in the configuration, its public key and its signing function.\<close>

record ('ss) staker_inner =
  base_state :: 'ss
  my_proposal :: block
  nonce :: u128
  my_sk :: "ed25519_pk \<times> (hashval \<Rightarrow> bytes)"

definition generate_proposal :: "('ss, 'us, 'sk) env \<Rightarrow> 'ss staker_inner \<Rightarrow> bytes" where
  "generate_proposal E c = enc_block E (my_proposal c)"

definition verify_proposal :: "('ss, 'us, 'sk) env \<Rightarrow> 'ss staker_inner \<Rightarrow> bytes \<Rightarrow> bool" where
  "verify_proposal E c prop =
     (case dec_block E prop of
        None \<Rightarrow> False
      | Some blk \<Rightarrow> (case stf_apply_block E (base_state c) blk of Inl _ \<Rightarrow> False | Inr _ \<Rightarrow> True))"

text \<open>The vote weights: stakes are cut to 64 bits (\<open>as u64\<close>), sums are checked.\<close>

fun weigh_stakes ::
  "('ss, 'us, 'sk) env \<Rightarrow> u64 \<Rightarrow> (hashval \<times> bytes) list \<Rightarrow> (ed25519_pk \<rightharpoonup> u64) \<Rightarrow> (ed25519_pk \<rightharpoonup> u64) res" where
  "weigh_stakes E ep [] m = Ok m"
| "weigh_stakes E ep ((_, bs) # rest) m =
     (case dec_stake E bs of
        None \<Rightarrow> Panic Unwrap
      | Some d \<Rightarrow>
          if e_start d \<le> ep \<and> ep < e_post_end d then
            bind_res (of_checked (checked_add (case m (pubkey d) of None \<Rightarrow> 0 | Some w \<Rightarrow> w) (ucast (syms_staked d))))
              (\<lambda>w. weigh_stakes E ep rest (m(pubkey d \<mapsto> w)))
          else weigh_stakes E ep rest m)"

definition vote_weights :: "('ss, 'us, 'sk) env \<Rightarrow> 'ss staker_inner \<Rightarrow> (ed25519_pk \<rightharpoonup> u64) res" where
  [op_defs]: "vote_weights E c =
     bind_res (of_checked (checked_add (height (header_of E (base_state c))) 1)) (\<lambda>h.
       weigh_stakes E (epoch E h) (stakes_iter E (raw_stakes E (base_state c))) Map.empty)"

definition seed :: "'ss staker_inner \<Rightarrow> u128" where
  "seed c = nonce c"

definition my_secret :: "'ss staker_inner \<Rightarrow> ed25519_pk \<times> (hashval \<Rightarrow> bytes)" where
  "my_secret c = my_sk c"

text \<open>
  The answer of the respond loop to a request; one pass of the main loop over the routes,
  each a function from the request to the answer, \<open>None\<close> when it fails in time; and the way
  of a request to the respond loop: a bounded channel of 100; a request that does not fit
  is dropped, which answers with no diff. An invalid diff is only logged.
\<close>

definition respond :: "'ss staker_inner \<Rightarrow> ('summary \<Rightarrow> 'diff list) \<Rightarrow> u128 \<times> 'summary \<Rightarrow> 'diff list" where
  "respond c core_diff req = (if fst req = nonce c then core_diff (snd req) else [])"

definition apply_diffs :: "('core \<Rightarrow> 'diff \<Rightarrow> err option \<times> 'core) \<Rightarrow> 'diff list \<Rightarrow> 'core \<Rightarrow> 'core" where
  "apply_diffs apply_one_diff diffs core = fold (\<lambda>diff core. snd (apply_one_diff core diff)) diffs core"

fun sync_routes ::
  "('core \<Rightarrow> 'diff \<Rightarrow> err option \<times> 'core) \<Rightarrow> ('core \<Rightarrow> 'summary) \<Rightarrow> 'ss staker_inner
   \<Rightarrow> (u128 \<times> 'summary \<Rightarrow> 'diff list option) list \<Rightarrow> 'core \<Rightarrow> 'core" where
  "sync_routes apply_one_diff core_summary c [] core = core"
| "sync_routes apply_one_diff core_summary c (route # routes) core =
     sync_routes apply_one_diff core_summary c routes
       (case route (nonce c, core_summary core) of
          None \<Rightarrow> core
        | Some diffs \<Rightarrow> apply_diffs apply_one_diff diffs core)"

definition get_diff ::
  "(u128 \<times> 'summary) list \<Rightarrow> u128 \<times> 'summary \<Rightarrow> (u128 \<times> 'summary) list \<times> 'diff list option" where
  "get_diff queue req = (if length queue < 100 then (queue @ [req], None) else (queue, Some []))"

section \<open>Gathering signatures\<close>

text \<open>\<open>ConsensusProofGatherer\<close>: per height the signatures seen, by public key.\<close>

type_synonym gatherer = "u64 \<rightharpoonup> consensus_proof"

definition sigs_at :: "gatherer \<Rightarrow> u64 \<Rightarrow> consensus_proof" where
  "sigs_at g h = (case g h of None \<Rightarrow> [] | Some m \<Rightarrow> m)"

definition forget_old :: "u64 \<Rightarrow> gatherer \<Rightarrow> gatherer" where
  "forget_old next_height g = (if 10 < next_height then g(next_height - 10 := None) else g)"

definition insert_own :: "('ss, 'us, 'sk) env \<Rightarrow> staker_config \<Rightarrow> block \<Rightarrow> gatherer \<Rightarrow> gatherer" where
  "insert_own E cfg decision g =
     g(height (blk_header decision) \<mapsto> [(cfg_public cfg, cfg_sign cfg (header_hash E (blk_header decision)))])"

definition merge_sigs :: "u64 \<Rightarrow> consensus_proof \<Rightarrow> gatherer \<Rightarrow> gatherer" where
  "merge_sigs h sigs g = g(h \<mapsto> fold (\<lambda>(k, v). AList.update k v) sigs (sigs_at g h))"

fun sum_votes :: "(ed25519_pk \<Rightarrow> u128) \<Rightarrow> ed25519_pk list \<Rightarrow> u128 \<Rightarrow> u128 res" where
  "sum_votes votes [] acc = Ok acc"
| "sum_votes votes (pk # pks) acc =
     bind_res (of_checked (checked_add acc (votes pk))) (\<lambda>acc'. sum_votes votes pks acc')"

definition vote_threshold :: "('ss, 'us, 'sk) env \<Rightarrow> 'ss \<Rightarrow> u128 res" where
  "vote_threshold E base =
     bind_res (of_checked (checked_mul (stakes_total_votes E (raw_stakes E base) (epoch E (height (header_of E base)))) 2))
       (\<lambda>t. Ok (t div 3))"

text \<open>The signatures of the decided height, once their keys have enough votes.\<close>

definition get_proof ::
  "('ss, 'us, 'sk) env \<Rightarrow> 'ss \<Rightarrow> u128 \<Rightarrow> block \<Rightarrow> gatherer \<Rightarrow> consensus_proof option res" where
  [op_defs]: "get_proof E base threshold decision g =
     (let m = sigs_at g (height (blk_header decision)) in
      bind_res (sum_votes (stakes_votes E (raw_stakes E base) (epoch E (height (header_of E base)))) (map fst m) 0)
        (\<lambda>v. Ok (if threshold < v then Some m else None)))"

text \<open>
  One pass of the gathering loop: \<open>answers n\<close> is what the n-th neighbour asked sends,
  \<open>None\<close> when there is none or it fails. An error of \<open>apply_block\<close> is logged only.
\<close>

type_synonym 's gather_vars = "nat \<times> gatherer \<times> 's"

definition gather_step ::
  "('ss, 'us, 'sk) env \<Rightarrow> ('s \<Rightarrow> block \<Rightarrow> consensus_proof \<Rightarrow> unit res \<times> 's) \<Rightarrow> 'ss \<Rightarrow> u128 \<Rightarrow> u64 \<Rightarrow> block
   \<Rightarrow> (nat \<Rightarrow> consensus_proof option) \<Rightarrow> 's gather_vars
   \<Rightarrow> (unit res \<times> gatherer \<times> 's) + 's gather_vars" where
  "gather_step E apply_b base threshold next_height decision answers = (\<lambda>(n, g, s).
     case get_proof E base threshold decision g of
       Ok (Some cproof) \<Rightarrow>
         (case apply_b s decision cproof of
            (Panic p, s') \<Rightarrow> Inl (Panic p, g, s')
          | (Hang, s') \<Rightarrow> Inl (Hang, g, s')
          | (_, s') \<Rightarrow> Inl (Ok (), g, s'))
     | Ok None \<Rightarrow>
         Inr (Suc n, (case answers n of None \<Rightarrow> g | Some sigs \<Rightarrow> merge_sigs next_height sigs g), s)
     | Err e \<Rightarrow> Inl (Err e, g, s)
     | Panic p \<Rightarrow> Inl (Panic p, g, s)
     | Hang \<Rightarrow> Inl (Hang, g, s))"

definition gather_loop ::
  "('ss, 'us, 'sk) env \<Rightarrow> ('s \<Rightarrow> block \<Rightarrow> consensus_proof \<Rightarrow> unit res \<times> 's) \<Rightarrow> 'ss \<Rightarrow> u128 \<Rightarrow> u64 \<Rightarrow> block
   \<Rightarrow> (nat \<Rightarrow> consensus_proof option) \<Rightarrow> 's gather_vars \<Rightarrow> (unit res \<times> gatherer \<times> 's) option" where
  "gather_loop E apply_b base threshold next_height decision answers =
     iterate (gather_step E apply_b base threshold next_height decision answers)"

section \<open>A round\<close>

text \<open>
  After Streamlette decided on the bytes \<open>decided\<close>: decode, sign, gather, commit.
\<close>

definition commit_decision ::
  "('ss, 'us, 'sk) env \<Rightarrow> ('s \<Rightarrow> block \<Rightarrow> consensus_proof \<Rightarrow> unit res \<times> 's) \<Rightarrow> staker_config \<Rightarrow> 'ss \<Rightarrow> u64
   \<Rightarrow> bytes \<Rightarrow> (nat \<Rightarrow> consensus_proof option) \<Rightarrow> gatherer \<Rightarrow> 's \<Rightarrow> (unit res \<times> gatherer \<times> 's) option" where
  [op_defs]: "commit_decision E apply_b cfg base next_height decided answers g s =
     (case dec_block E decided of
        None \<Rightarrow> Some (Panic (Expect ''decision reached on an INVALID block?!?!?!?!?!?!''), g, s)
      | Some decision \<Rightarrow>
          (let g = insert_own E cfg decision g in
           case vote_threshold E base of
             Ok threshold \<Rightarrow> gather_loop E apply_b base threshold next_height decision answers (0, g, s)
           | Err e \<Rightarrow> Some (Err e, g, s)
           | Panic p \<Rightarrow> Some (Panic p, g, s)
           | Hang \<Rightarrow> Some (Hang, g, s)))"

text \<open>
  \<open>decide_round\<close>: \<open>decide\<close> is Streamlette, from the configuration to the decided bytes.
\<close>

definition decide_round ::
  "('ss, 'us, 'sk) env \<Rightarrow> staker_config \<Rightarrow> 'ss \<Rightarrow> u64 \<Rightarrow> ('ss staker_inner \<Rightarrow> bytes)
   \<Rightarrow> (nat \<Rightarrow> consensus_proof option) \<Rightarrow> gatherer \<Rightarrow> 'us storage \<Rightarrow> (unit res \<times> gatherer \<times> 'us storage) option" where
  [op_defs]: "decide_round E cfg base next_height decide answers g st =
     (case make_proposal E cfg base next_height (mempool st) of
        None \<Rightarrow> Some (Ok (), g, st\<lparr>mempool := rebase E base (mempool st)\<rparr>)
      | Some proposal \<Rightarrow>
          commit_decision E (apply_block E) cfg base next_height
            (decide \<lparr>base_state = base, my_proposal = proposal, nonce = ucast (height (header_of E base)),
               my_sk = (cfg_public cfg, cfg_sign cfg)\<rparr>)
            answers g st)"

text \<open>
  The wait for the slot of the block: \<open>clock n\<close> is what the n-th look at the clock says.
\<close>

definition wait_for_slot :: "(nat \<Rightarrow> nat) \<Rightarrow> nat \<Rightarrow> nat option" where
  "wait_for_slot clock next_time =
     iterate (\<lambda>n. if clock n < next_time then Inr (Suc n) else Inl (clock n)) 0"

text \<open>
  What a turn meets: the instant when \<open>height_to_time\<close> asks for one, what others do to the
  gatherer and the storage while the staker waits, the clock, and the race between the
  block arriving from elsewhere and the round: \<open>None\<close> when the round comes to its end,
  otherwise what has been done to both when it is cancelled.
\<close>

record ('ss, 'us) turn =
  turn_now :: nat
  meanwhile :: "gatherer \<times> 'us storage \<Rightarrow> gatherer \<times> 'us storage"
  slot_clock :: "nat \<Rightarrow> nat"
  cancelled_by :: "(gatherer \<times> 'us storage \<Rightarrow> gatherer \<times> 'us storage) option"
  streamlette :: "'ss staker_inner \<Rightarrow> bytes"
  sig_answers :: "nat \<Rightarrow> consensus_proof option"

text \<open>
  One turn of the loop of \<open>network_task_inner\<close>. \<open>skip_round\<close> is polled before
  \<open>decide_round\<close>, so a block already stored ends the turn at once.
\<close>

definition staker_turn ::
  "('ss, 'us, 'sk) env \<Rightarrow> staker_config \<Rightarrow> ('ss, 'us) turn \<Rightarrow> gatherer \<Rightarrow> 'us storage
   \<Rightarrow> (unit res \<times> gatherer \<times> 'us storage) option" where
  [op_defs]: "staker_turn E cfg t g st =
     (case highest_state E st of
        (Ok base, st) \<Rightarrow>
          (case checked_add (height (header_of E base)) 1 of
             None \<Rightarrow> Some (Panic Overflow, g, st)
           | Some next_height \<Rightarrow>
               (case height_to_time (network (header_of E base)) next_height (turn_now t) of
                  Ok next_time \<Rightarrow>
                    (let (g, st) = meanwhile t (forget_old next_height g, st) in
                     case wait_for_slot (slot_clock t) next_time of
                       None \<Rightarrow> None
                     | Some _ \<Rightarrow>
                         (case get_state E st next_height of
                            (Ok (Some _), st) \<Rightarrow> Some (Ok (), g, st)
                          | (Ok None, st) \<Rightarrow>
                              (case cancelled_by t of
                                 Some effect \<Rightarrow> (let (g, st) = effect (g, st) in Some (Ok (), g, st))
                               | None \<Rightarrow> decide_round E cfg base next_height (streamlette t) (sig_answers t) g st)
                          | (Err e, st) \<Rightarrow> Some (Err e, g, st)
                          | (Panic p, st) \<Rightarrow> Some (Panic p, g, st)
                          | (Hang, st) \<Rightarrow> Some (Hang, g, st)))
                | Err e \<Rightarrow> Some (Err e, g, st)
                | Panic p \<Rightarrow> Some (Panic p, g, st)
                | Hang \<Rightarrow> Some (Hang, g, st)))
      | (Err e, st) \<Rightarrow> Some (Err e, g, st)
      | (Panic p, st) \<Rightarrow> Some (Panic p, g, st)
      | (Hang, st) \<Rightarrow> Some (Hang, g, st))"

text \<open>
  The loop as far as it gets: an error leaves \<open>network_task_inner\<close>, a panic the process.
  The gatherer starts empty; the loop is reached only if the swarm can listen.
\<close>

fun staker_turns ::
  "('ss, 'us, 'sk) env \<Rightarrow> staker_config \<Rightarrow> ('ss, 'us) turn list \<Rightarrow> gatherer \<Rightarrow> 'us storage
   \<Rightarrow> (unit res \<times> gatherer \<times> 'us storage) option" where
  "staker_turns E cfg [] g st = Some (Ok (), g, st)"
| "staker_turns E cfg (t # ts) g st =
     (case staker_turn E cfg t g st of
        Some (Ok _, g, st) \<Rightarrow> staker_turns E cfg ts g st
      | other \<Rightarrow> other)"

definition network_task_inner ::
  "('ss, 'us, 'sk) env \<Rightarrow> staker_config \<Rightarrow> err option \<Rightarrow> ('ss, 'us) turn list \<Rightarrow> 'us storage
   \<Rightarrow> (unit res \<times> 'us storage) option" where
  [op_defs]: "network_task_inner E cfg listen_error ts st =
     (case listen_error of
        Some e \<Rightarrow> Some (Err (Ctx ''cannot start listen'' e), st)
      | None \<Rightarrow> map_option (\<lambda>(r, g, st). (r, st)) (staker_turns E cfg ts Map.empty st))"

text \<open>\<open>network_task\<close>: start over after every error; a session without one goes on.\<close>

fun network_task ::
  "('ss, 'us, 'sk) env \<Rightarrow> staker_config \<Rightarrow> (err option \<times> ('ss, 'us) turn list) list \<Rightarrow> 'us storage
   \<Rightarrow> (unit res \<times> 'us storage) option" where
  "network_task E cfg [] st = Some (Ok (), st)"
| "network_task E cfg ((listen_error, ts) # sessions) st =
     (case network_task_inner E cfg listen_error ts st of
        Some (Err _, st) \<Rightarrow> network_task E cfg sessions st
      | other \<Rightarrow> other)"

text \<open>\<open>get_sigs\<close>: the stored proof, else what was gathered.\<close>

definition get_sigs ::
  "('ss, 'us, 'sk) env \<Rightarrow> u64 \<Rightarrow> gatherer \<Rightarrow> 'us storage \<Rightarrow> consensus_proof res" where
  [op_defs]: "get_sigs E h g st =
     bind_res (get_consensus E st h) (\<lambda>op. Ok (case op of Some val \<Rightarrow> val | None \<Rightarrow> sigs_at g h))"

section \<open>Facts about gathering\<close>

text \<open>How the round ends after \<open>apply_block\<close>: its errors are only logged.\<close>

definition handed_over :: "unit res \<times> 's \<Rightarrow> unit res \<Rightarrow> 's \<Rightarrow> bool" where
  "handed_over res r s' \<longleftrightarrow> s' = snd res \<and>
     r = (case fst res of Panic p \<Rightarrow> Panic p | Hang \<Rightarrow> Hang | _ \<Rightarrow> Ok ())"

text \<open>The gathering keeps the storage as it is until it hands the decision over, once.\<close>

lemma gather_loop_result:
  assumes "gather_loop E apply_b base t h decision answers (n, g, s) = Some (r, g', s')"
  shows "s' = s \<and> r \<noteq> Ok () \<or> (\<exists>cproof. get_proof E base t decision g' = Ok (Some cproof) \<and>
    handed_over (apply_b s decision cproof) r s')"
proof -
  let ?I = "\<lambda>(n, g, s1). s1 = s"
  let ?Q = "\<lambda>(r, g', s'). s' = s \<and> r \<noteq> Ok () \<or> (\<exists>cproof. get_proof E base t decision g' = Ok (Some cproof) \<and>
    handed_over (apply_b s decision cproof) r s')"
  have "?Q (r, g', s')"
  proof (rule iterate_invariant [where I = ?I and Q = ?Q])
    show "iterate (gather_step E apply_b base t h decision answers) (n, g, s) = Some (r, g', s')"
      using assms by (simp add: gather_loop_def)
    show "?I (n, g, s)" by simp
    fix x y assume x: "?I x" "gather_step E apply_b base t h decision answers x = Inr y"
    obtain n1 g1 s1 where e: "x = (n1, g1, s1)" by (metis surj_pair)
    show "?I y"
      using x by (auto simp: e gather_step_def split: res.splits option.splits prod.splits)
  next
    fix x y assume x: "?I x" "gather_step E apply_b base t h decision answers x = Inl y"
    obtain n1 g1 s1 where e: "x = (n1, g1, s1)" by (metis surj_pair)
    show "?Q y"
      using x by (auto simp: e gather_step_def handed_over_def split: res.splits option.splits prod.splits)
  qed
  then show ?thesis by simp
qed

text \<open>The gatherer after the first \<open>n\<close> answers.\<close>

fun gathered :: "u64 \<Rightarrow> (nat \<Rightarrow> consensus_proof option) \<Rightarrow> nat \<Rightarrow> gatherer \<Rightarrow> gatherer" where
  "gathered h answers 0 g = g"
| "gathered h answers (Suc n) g =
     (case answers n of None \<Rightarrow> gathered h answers n g | Some sigs \<Rightarrow> merge_sigs h sigs (gathered h answers n g))"

lemma gather_loop_at:
  assumes "\<And>i. i < n \<Longrightarrow> get_proof E base t decision (gathered h answers i g) = Ok None"
    and "get_proof E base t decision (gathered h answers n g) = Ok (Some cproof)"
  shows "gather_loop E apply_b base t h decision answers (0, g, s) =
    Some (case apply_b s decision cproof of
       (Panic p, s') \<Rightarrow> (Panic p, gathered h answers n g, s')
     | (Hang, s') \<Rightarrow> (Hang, gathered h answers n g, s')
     | (_, s') \<Rightarrow> (Ok (), gathered h answers n g, s'))"
proof -
  let ?f = "gather_step E apply_b base t h decision answers"
  have "iterate ?f (i, gathered h answers i g, s) = iterate ?f (0, g, s)" if "i \<le> n" for i
    using that
  proof (induction i)
    case (Suc i)
    then have "?f (i, gathered h answers i g, s) = Inr (Suc i, gathered h answers (Suc i) g, s)"
      using assms(1) [of i] by (simp add: gather_step_def split: option.split)
    from iterate_Inr [of ?f, OF this] Suc show ?case by simp
  qed simp
  then have run: "gather_loop E apply_b base t h decision answers (0, g, s) = iterate ?f (n, gathered h answers n g, s)"
    by (simp add: gather_loop_def)
  obtain r s' where a: "apply_b s decision cproof = (r, s')" by (cases "apply_b s decision cproof")
  have "?f (n, gathered h answers n g, s) = Inl (case (r, s') of
       (Panic p, s') \<Rightarrow> (Panic p, gathered h answers n g, s')
     | (Hang, s') \<Rightarrow> (Hang, gathered h answers n g, s')
     | (_, s') \<Rightarrow> (Ok (), gathered h answers n g, s'))"
    using assms(2) a by (cases r) (simp_all add: gather_step_def)
  from iterate_Inl [of ?f, OF this] show ?thesis unfolding run a .
qed

context block_store
begin

text \<open>Whatever Streamlette decides and neighbours answer, at most the decision is appended.\<close>

lemma commit_decision_safe:
  assumes "commit_decision E apply_b cfg base h decided answers g s = Some (r, g', s')"
    and "invar s" and "r = Ok () \<or> r = Err e"
  shows "invar s' \<and> (blocks s' = blocks s \<or>
    (\<exists>decision. dec_block E decided = Some decision \<and> blocks s' = blocks s @ [decision]))"
proof (cases "s' = s")
  case True
  then show ?thesis using assms(2) by simp
next
  case False
  then obtain decision threshold where d: "dec_block E decided = Some decision"
    "gather_loop E apply_b base threshold h decision answers (0, insert_own E cfg decision g, s) = Some (r, g', s')"
    using assms(1) by (auto simp: commit_decision_def Let_def split: option.splits res.splits)
  obtain cproof where c: "handed_over (apply_b s decision cproof) r s'"
    using gather_loop_result [OF d(2)] False by fast
  obtain ra s1 where a: "apply_b s decision cproof = (ra, s1)" by (cases "apply_b s decision cproof")
  show ?thesis
  proof (cases ra)
    case (Ok u)
    then have "s' = s1" and "apply_b s decision cproof = (Ok (), s1)" using c a by (simp_all add: handed_over_def)
    then show ?thesis using apply_Ok [OF assms(2)] d(1) by auto
  next
    case (Err e')
    then have "s' = s1" and "apply_b s decision cproof = (Err e', s1)" using c a by (simp_all add: handed_over_def)
    then show ?thesis using apply_Err [OF assms(2)] by auto
  qed (use c a assms(3) in \<open>auto simp: handed_over_def\<close>)
qed

end

section \<open>Facts about vote weights\<close>

text \<open>The stakes of one key in one epoch, each cut to 64 bits.\<close>

definition cut_stake :: "('ss, 'us, 'sk) env \<Rightarrow> u64 \<Rightarrow> ed25519_pk \<Rightarrow> (hashval \<times> bytes) list \<Rightarrow> nat" where
  "cut_stake E ep pk docs = sum_list (map (\<lambda>(_, bs). case dec_stake E bs of
     None \<Rightarrow> 0
   | Some d \<Rightarrow> if pubkey d = pk \<and> e_start d \<le> ep \<and> ep < e_post_end d then unat (syms_staked d) mod 2 ^ 64 else 0) docs)"

abbreviation weight_of :: "(ed25519_pk \<rightharpoonup> u64) \<Rightarrow> ed25519_pk \<Rightarrow> nat" where
  "weight_of m pk \<equiv> unat (case m pk of None \<Rightarrow> 0 | Some w \<Rightarrow> w)"

lemma weigh_stakes_sum:
  assumes "\<forall>(_, bs) \<in> set docs. dec_stake E bs \<noteq> None"
    and "\<forall>pk. weight_of m pk + cut_stake E ep pk docs < 2 ^ 64"
  shows "\<exists>m'. weigh_stakes E ep docs m = Ok m' \<and> (\<forall>pk. weight_of m' pk = weight_of m pk + cut_stake E ep pk docs)"
  using assms
proof (induction docs arbitrary: m)
  case Nil
  then show ?case by (simp add: cut_stake_def)
next
  case (Cons x docs)
  obtain k bs where x: "x = (k, bs)" by (cases x)
  obtain d where d: "dec_stake E bs = Some d" using Cons.prems(1) by (auto simp: x)
  have docs: "\<forall>(_, bs) \<in> set docs. dec_stake E bs \<noteq> None" using Cons.prems(1) by simp
  show ?case
  proof (cases "e_start d \<le> ep \<and> ep < e_post_end d")
    case True
    let ?w = "case m (pubkey d) of None \<Rightarrow> 0 | Some w \<Rightarrow> w"
    let ?c = "ucast (syms_staked d) :: u64"
    have c: "unat ?c = unat (syms_staked d) mod 2 ^ 64" by (simp add: unat_ucast_mod)
    have cut: "cut_stake E ep pk (x # docs) = (if pubkey d = pk then unat ?c else 0) + cut_stake E ep pk docs" for pk
      using True by (simp add: cut_stake_def x d c)
    have "unat ?w + unat ?c < 2 ^ 64"
      using Cons.prems(2) [rule_format, of "pubkey d"] cut [of "pubkey d"] by simp
    then have add: "checked_add ?w ?c = Some (?w + ?c)" and un: "unat (?w + ?c) = unat ?w + unat ?c"
      by (simp_all add: checked_add_def unat_word_ariths)
    let ?m = "m(pubkey d \<mapsto> ?w + ?c)"
    have wt: "weight_of ?m pk = weight_of m pk + (if pubkey d = pk then unat ?c else 0)" for pk
      using un by (cases "pubkey d = pk") simp_all
    have "\<forall>pk. weight_of ?m pk + cut_stake E ep pk docs < 2 ^ 64"
      using Cons.prems(2) unfolding wt cut by (simp only: add.assoc) simp
    from Cons.IH [OF docs this] obtain m' where
      "weigh_stakes E ep docs ?m = Ok m'" "\<forall>pk. weight_of m' pk = weight_of ?m pk + cut_stake E ep pk docs" by blast
    then show ?thesis using True d add unfolding wt cut by (auto simp: x)
  next
    case False
    then have "cut_stake E ep pk (x # docs) = cut_stake E ep pk docs" for pk
      by (auto simp: cut_stake_def x d)
    then show ?thesis using Cons.IH [OF docs, of m] Cons.prems(2) False d by (auto simp: x)
  qed
qed

end
