(* ===== verification/Staker_Life.thy ===== *)
theory Staker_Life
  imports Staker Node_Handlers
begin

text \<open>
  The life of a staker over its storage: no turn of its loop ends with an error, so that
  it starts over only when it cannot listen, and whatever happens the storage only grows.
\<close>

section \<open>Rounds end without errors\<close>

lemma sum_votes_not_Err: "sum_votes votes pks acc \<noteq> Err e"
  by (induction pks arbitrary: acc) (auto simp: bind_res_Err)

lemma get_proof_not_Err: "get_proof E base t blk g \<noteq> Err e"
  by (simp add: get_proof_def Let_def bind_res_Err sum_votes_not_Err)

lemma gather_loop_not_Err:
  assumes "gather_loop E apply_b base t h decision answers (n, g, s) = Some (r, g', s')"
  shows "r \<noteq> Err e"
proof -
  let ?Q = "\<lambda>(r, g' :: gatherer, s'). r \<noteq> Err e"
  have "?Q (r, g', s')"
  proof (rule iterate_invariant [where I = "\<lambda>_. True" and Q = ?Q, OF assms [unfolded gather_loop_def]])
    fix x y assume "gather_step E apply_b base t h decision answers x = Inl y"
    then show "?Q y"
      using get_proof_not_Err [of E base t decision]
      by (auto simp: gather_step_def split: res.splits option.splits prod.splits)
  qed simp_all
  then show ?thesis by simp
qed

lemma decide_round_not_Err:
  assumes "decide_round E cfg base h decide answers g st = Some (r, g', st')"
  shows "r \<noteq> Err e"
proof (cases "make_proposal E cfg base h (mempool st)")
  case None
  then show ?thesis using assms by (auto simp: decide_round_def)
next
  case (Some p)
  have "vote_threshold E base \<noteq> Err x" for x by (simp add: vote_threshold_def bind_res_Err)
  then show ?thesis
    using assms Some gather_loop_not_Err
    by (fastforce simp: decide_round_def commit_decision_def Let_def split: option.splits res.splits)
qed

section \<open>Rounds keep the storage\<close>

lemma decide_round_later:
  assumes "decide_round E cfg base h decide answers g st = Some (Ok (), g', st')" "wf_storage E st"
  shows "later E st st'"
proof (cases "make_proposal E cfg base h (mempool st)")
  case None
  then have "st' = st\<lparr>mempool := rebase E base (mempool st)\<rparr>"
    using assms(1) by (simp add: decide_round_def)
  then show ?thesis using later_pool [OF assms(2)] by simp
next
  case (Some p)
  then obtain decided where c: "commit_decision E (apply_block E) cfg base h decided answers g st = Some (Ok (), g', st')"
    using assms(1) by (simp add: decide_round_def)
  then obtain decision threshold g0 where
    "gather_loop E (apply_block E) base threshold h decision answers (0, g0, st) = Some (Ok (), g', st')"
    by (auto simp: commit_decision_def Let_def split: option.splits res.splits)
  from gather_loop_result [OF this] obtain cproof where
    h: "handed_over (apply_block E st decision cproof) (Ok ()) st'" by blast
  obtain r s1 where a: "apply_block E st decision cproof = (r, s1)" by (cases "apply_block E st decision cproof")
  then have s1: "st' = s1" using h by (simp add: handed_over_def)
  show ?thesis
  proof (cases r)
    case (Ok u)
    then show ?thesis using apply_block_later(1) [OF assms(2)] a s1 by simp
  next
    case (Err e)
    then show ?thesis
      using apply_block_Err [OF wf_storageD(1) [OF assms(2)]] later_same [OF assms(2)] a s1 by blast
  qed (use h a in \<open>simp_all add: handed_over_def\<close>)
qed

section \<open>Turns\<close>

text \<open>What others do to the storage in a turn: let it grow.\<close>

definition turn_ok :: "('ss, 'us, 'sk) env \<Rightarrow> ('ss, 'us) turn \<Rightarrow> bool" where
  "turn_ok E t \<longleftrightarrow>
     (\<forall>g st. wf_storage E st \<longrightarrow> later E st (snd (meanwhile t (g, st)))) \<and>
     (\<forall>effect g st. cancelled_by t = Some effect \<longrightarrow> wf_storage E st \<longrightarrow> later E st (snd (effect (g, st))))"

lemma height_to_time_not_Err: "height_to_time netid h now \<noteq> Err e"
  by (simp add: height_to_time_def start_plus_def bind_res_Err split: netid.split)

lemma staker_turn_later:
  assumes "staker_turn E cfg t g st = Some (r, g', st')" "wf_storage E st" "turn_ok E t"
  shows "r \<noteq> Err e" "r = Ok () \<Longrightarrow> later E st st'"
proof -
  obtain base st0 where hs: "highest_state E st = (Ok base, st0)" "same_but_cache st st0" "wf_core E st0"
    by (rule highest_state_total [OF assms(2)])
  have l0: "later E st st0" by (rule later_same [OF assms(2) hs(2,3)])
  show "r \<noteq> Err e" "r = Ok () \<Longrightarrow> later E st st'"
  proof -
    consider (over) "checked_add (height (header_of E base)) 1 = None"
      | (next_h) h where "checked_add (height (header_of E base)) 1 = Some h" by (cases "checked_add (height (header_of E base)) 1") auto
    then have "r \<noteq> Err e \<and> (r = Ok () \<longrightarrow> later E st st')"
    proof cases
      case over
      then show ?thesis using assms(1) by (auto simp: staker_turn_def hs(1))
    next
      case (next_h h)
      show ?thesis
      proof (cases "height_to_time (network (header_of E base)) h (turn_now t)")
        case (Ok slot)
        obtain g1 st1 where m: "meanwhile t (forget_old h g, st0) = (g1, st1)" by fastforce
        have l1: "later E st0 st1"
          using assms(3) laterD(1) [OF l0] m unfolding turn_ok_def by (metis snd_conv)
        note wf1 = laterD(1) [OF l1]
        obtain rg st2 where gs: "get_state E st1 h = (rg, st2)" by (cases "get_state E st1 h")
        have l2: "later E st1 st2"
          using later_same [OF wf1] get_state_spec(2,3) [OF wf_storageD(1) [OF wf1], of h] gs by simp
        note l = later_trans [OF l0 later_trans [OF l1 l2]]
        have rg: "rg \<noteq> Err x" for x
          using get_state_spec(1) [OF wf_storageD(1) [OF wf1], of h] gs
          by (auto split: if_splits option.splits sum.splits)
        note run = assms(1) [unfolded staker_turn_def hs(1), simplified, unfolded next_h, simplified, unfolded Ok, simplified, unfolded m, simplified]
        show ?thesis
        proof (cases "rg = Ok None \<and> cancelled_by t = None \<and> wait_for_slot (slot_clock t) slot \<noteq> None")
          case True
          then have "decide_round E cfg base h (streamlette t) (sig_answers t) g1 st2 = Some (r, g', st')"
            using run by (auto simp: gs)
          from decide_round_not_Err [OF this, of e] decide_round_later [OF _ laterD(1) [OF l2]] this
          show ?thesis using later_trans [OF l] by metis
        next
          case False
          have c: "later E st (snd (effect (g1, st2)))" if "cancelled_by t = Some effect" for effect
            using assms(3) that laterD(1) [OF l2] later_trans [OF l] unfolding turn_ok_def by blast
          show ?thesis
            using run False rg l c by (auto simp: gs split: option.splits res.splits prod.splits)
        qed
      qed (use assms(1) next_h height_to_time_not_Err in \<open>auto simp: staker_turn_def hs(1)\<close>)
    qed
    then show "r \<noteq> Err e" "r = Ok () \<Longrightarrow> later E st st'" by blast+
  qed
qed

lemma staker_turns_later:
  assumes "staker_turns E cfg ts g st = Some (r, g', st')" "wf_storage E st" "\<forall>t \<in> set ts. turn_ok E t"
  shows "r \<noteq> Err e \<and> (r = Ok () \<longrightarrow> later E st st')"
  using assms
proof (induction ts arbitrary: g st)
  case Nil
  then show ?case by (auto simp: later_refl)
next
  case (Cons t ts)
  obtain r1 g1 st1 where t: "staker_turn E cfg t g st = Some (r1, g1, st1)"
    using Cons.prems(1) by (cases "staker_turn E cfg t g st") auto
  note ok = staker_turn_later [OF t Cons.prems(2)]
  show ?case
  proof (cases r1)
    case (Ok u)
    then have l: "later E st st1" using ok(2) Cons.prems(3) by simp
    have "staker_turns E cfg ts g1 st1 = Some (r, g', st')" using Cons.prems(1) t Ok by simp
    from Cons.IH [OF this laterD(1) [OF l]] Cons.prems(3) show ?thesis using later_trans [OF l] by simp
  qed (use Cons.prems t ok in auto)
qed

end
