(* ===== verification/Staker_Votes.thy ===== *)
theory Staker_Votes
  imports Staker_Life Votes
begin

text \<open>
  The staker's count of votes against that of the storage: with valid signatures, and
  outside the first block of an epoch, a proof that satisfies the staker satisfies the
  consensus check of \<open>apply_block\<close>.
\<close>

section \<open>The votes of keys\<close>

definition active_at :: "u64 \<Rightarrow> stake_doc \<Rightarrow> bool" where
  "active_at ep d \<longleftrightarrow> e_start d \<le> ep \<and> ep < e_post_end d"

definition key_stake :: "u64 \<Rightarrow> stake_doc list \<Rightarrow> ed25519_pk \<Rightarrow> nat" where
  "key_stake ep ds pk = (\<Sum>d\<leftarrow>filter (\<lambda>d. pubkey d = pk \<and> active_at ep d) ds. unat (syms_staked d))"

definition epoch_stake :: "u64 \<Rightarrow> stake_doc list \<Rightarrow> nat" where
  "epoch_stake ep ds = (\<Sum>d\<leftarrow>filter (active_at ep) ds. unat (syms_staked d))"

text \<open>What tip911-stakeset documents of \<open>votes\<close> and \<open>total_votes\<close>.\<close>

definition votes_documented :: "('ss, 'us, 'sk) env \<Rightarrow> bool" where
  "votes_documented E \<longleftrightarrow>
     (\<forall>sk ds ep. stake_docs E (stakes_iter E sk) = Some ds \<longrightarrow>
        stakes_total_votes E sk ep = of_nat (epoch_stake ep ds) \<and>
        (\<forall>pk. stakes_votes E sk ep pk = of_nat (key_stake ep ds pk)))"

lemma stake_simps [simp]:
  "key_stake ep [] pk = 0" "epoch_stake ep [] = 0"
  "key_stake ep (d # ds) pk = (if pubkey d = pk \<and> active_at ep d then unat (syms_staked d) else 0) + key_stake ep ds pk"
  "epoch_stake ep (d # ds) = (if active_at ep d then unat (syms_staked d) else 0) + epoch_stake ep ds"
  by (simp_all add: key_stake_def epoch_stake_def)

lemma sum_list_delta:
  "distinct pks \<Longrightarrow> (\<Sum>pk\<leftarrow>pks. (if k = pk then n else 0) + f pk) = (if k \<in> set pks then n else 0) + (\<Sum>pk\<leftarrow>pks. f pk)"
  for n :: nat
  by (induction pks) auto

text \<open>The votes of distinct keys are the stake they own.\<close>

lemma keys_stake:
  assumes "distinct pks"
  shows "(\<Sum>pk\<leftarrow>pks. key_stake ep ds pk) =
    (\<Sum>d\<leftarrow>filter (\<lambda>d. active_at ep d \<and> pubkey d \<in> set pks) ds. unat (syms_staked d))"
proof (induction ds)
  case Nil
  then show ?case by (simp add: sum_list_0)
next
  case (Cons d ds)
  have "(\<Sum>pk\<leftarrow>pks. key_stake ep (d # ds) pk) =
      (\<Sum>pk\<leftarrow>pks. (if pubkey d = pk then (if active_at ep d then unat (syms_staked d) else 0) else 0) + key_stake ep ds pk)"
    by (rule arg_cong [where f = sum_list], rule map_cong) auto
  then show ?case using Cons.IH by (simp add: sum_list_delta [OF assms])
qed

lemma filter_sum_mono:
  fixes f :: "'a \<Rightarrow> nat"
  shows "(\<And>x. P x \<Longrightarrow> Q x) \<Longrightarrow> (\<Sum>x\<leftarrow>filter P xs. f x) \<le> (\<Sum>x\<leftarrow>filter Q xs. f x)"
  by (induction xs) auto

lemma keys_stake_le: "distinct pks \<Longrightarrow> (\<Sum>pk\<leftarrow>pks. key_stake ep ds pk) \<le> epoch_stake ep ds"
  unfolding keys_stake epoch_stake_def by (rule filter_sum_mono) simp

lemma sum_votes_eq:
  assumes "unat acc + (\<Sum>pk\<leftarrow>pks. f pk) < 2 ^ 128" and "\<And>pk. votes pk = of_nat (f pk)"
  shows "\<exists>v. sum_votes votes pks acc = Ok v \<and> unat v = unat acc + (\<Sum>pk\<leftarrow>pks. f pk)"
  using assms(1)
proof (induction pks arbitrary: acc)
  case Nil
  then show ?case by simp
next
  case (Cons pk pks)
  have u: "unat (votes pk) = f pk"
    using Cons.prems assms(2) [of pk] by (simp add: unat_of_nat_small)
  then have a: "checked_add acc (votes pk) = Some (acc + votes pk)"
    using Cons.prems by (simp add: checked_add_is_Some)
  note s = checked_add_Some_unat [OF a]
  from Cons.IH [of "acc + votes pk"] Cons.prems s u show ?case by (simp add: a add.assoc)
qed

lemma total_epoch_stake:
  "total_stake E hdr ds = epoch_stake (epoch E (height hdr)) ds"
  by (simp add: total_stake_def epoch_stake_def active_stake_def active_at_def cong: filter_cong)

section \<open>Valid signatures\<close>

definition valid_sigs :: "('ss, 'us, 'sk) env \<Rightarrow> header \<Rightarrow> consensus_proof \<Rightarrow> bool" where
  "valid_sigs E hdr ps \<longleftrightarrow> (\<forall>(pk, s) \<in> set ps. sig_verify E pk (header_hash E hdr) s)"

lemma set_update: "set (AList.update k v al) \<subseteq> insert (k, v) (set al)"
  by (induction al) auto

lemma fold_update_valid:
  assumes "valid_sigs E hdr sigs" "valid_sigs E hdr ps" "distinct (map fst ps)"
  shows "valid_sigs E hdr (fold (\<lambda>(k, v). AList.update k v) sigs ps) \<and>
    distinct (map fst (fold (\<lambda>(k, v). AList.update k v) sigs ps))"
  using assms
proof (induction sigs arbitrary: ps)
  case Nil
  then show ?case by simp
next
  case (Cons x sigs)
  obtain k v where x: "x = (k, v)" by (cases x)
  have "valid_sigs E hdr (AList.update k v ps)"
    using Cons.prems(1,2) set_update [of k v ps] by (auto simp: valid_sigs_def x)
  moreover have "valid_sigs E hdr sigs" using Cons.prems(1) by (simp add: valid_sigs_def)
  moreover have "distinct (map fst (AList.update k v ps))" by (rule distinct_update [OF Cons.prems(3)])
  ultimately show ?case using Cons.IH [of "AList.update k v ps"] by (simp only: x fold_simps split_conv simp_thms)
qed

definition heard :: "u64 \<Rightarrow> gatherer \<Rightarrow> ed25519_pk set" where
  "heard h g = fst ` set (sigs_at g h)"

lemma gathered_valid:
  assumes "\<And>n sigs. answers n = Some sigs \<Longrightarrow> valid_sigs E hdr sigs"
    and "valid_sigs E hdr (sigs_at g h)" "distinct (map fst (sigs_at g h))"
  shows "valid_sigs E hdr (sigs_at (gathered h answers n g) h) \<and> distinct (map fst (sigs_at (gathered h answers n g) h))"
proof (induction n)
  case 0
  then show ?case using assms(2,3) by simp
next
  case (Suc n)
  show ?case
  proof (cases "answers n")
    case None
    then show ?thesis using Suc by simp
  next
    case (Some sigs)
    then show ?thesis
      using fold_update_valid [OF assms(1) [OF Some], of "sigs_at (gathered h answers n g) h"] Suc
      by (simp add: merge_sigs_def sigs_at_def)
  qed
qed

text \<open>With valid signatures the signers are the keys heard of.\<close>

lemma signed_by_heard:
  assumes "valid_sigs E hdr ps"
  shows "signed_by E hdr ps d \<longleftrightarrow> pubkey d \<in> fst ` set ps"
proof
  assume "pubkey d \<in> fst ` set ps"
  then obtain s where s: "map_of ps (pubkey d) = Some s"
    by (metis domIff dom_map_of_conv_image_fst not_Some_eq)
  with map_of_SomeD [OF s] assms show "signed_by E hdr ps d" by (auto simp: signed_by_def valid_sigs_def)
next
  assume "signed_by E hdr ps d"
  then show "pubkey d \<in> fst ` set ps"
    by (auto simp: signed_by_def split: option.splits dest!: map_of_SomeD intro: rev_image_eqI)
qed

lemma signed_keys_stake:
  assumes "valid_sigs E hdr ps" "distinct (map fst ps)"
  shows "signed_stake E hdr ps ds = (\<Sum>pk\<leftarrow>map fst ps. key_stake (epoch E (height hdr)) ds pk)"
  unfolding keys_stake [OF assms(2)] signed_stake_def signed_by_heard [OF assms(1)]
  by (simp add: active_stake_def active_at_def cong: filter_cong)

lemma running_tally_le:
  "running_tally E hdr ps ds acc \<le> length ds * (acc + total_stake E hdr ds)"
proof (induction ds arbitrary: acc)
  case Nil
  then show ?case by simp
next
  case (Cons d ds)
  show ?case
    using Cons.IH [of acc] Cons.IH [of "acc + unat (syms_staked d)"]
    by (auto simp: algebra_simps)
qed

section \<open>One count is the other\<close>

text \<open>What a staker that has decided on \<open>blk\<close> relies on to get it committed.\<close>

definition round_facts ::
  "('ss, 'us, 'sk) env \<Rightarrow> 'ss \<Rightarrow> block \<Rightarrow> stake_doc list \<Rightarrow> bool" where
  "round_facts E base blk ds \<longleftrightarrow>
     votes_documented E \<and> stake_docs E (stakes_iter E (raw_stakes E base)) = Some ds \<and>
     epoch E (height (blk_header blk)) = epoch E (height (header_of E base)) \<and>
     2 * total_stake E (blk_header blk) ds < 2 ^ 128 \<and>
     length ds * total_stake E (blk_header blk) ds < 2 ^ 128"

lemma round_threshold:
  assumes "round_facts E base blk ds"
  obtains t where "vote_threshold E base = Ok t" "unat t = 2 * total_stake E (blk_header blk) ds div 3"
proof -
  let ?tv = "stakes_total_votes E (raw_stakes E base) (epoch E (height (header_of E base)))"
  have "?tv = of_nat (total_stake E (blk_header blk) ds)"
    using assms by (simp add: round_facts_def votes_documented_def total_epoch_stake)
  then have "unat ?tv = total_stake E (blk_header blk) ds"
    using assms by (simp add: round_facts_def unat_of_nat_small)
  then have m: "checked_mul ?tv 2 = Some (?tv * 2)" "unat (?tv * 2) = 2 * total_stake E (blk_header blk) ds"
    using assms checked_mul_Some_unat [of ?tv 2 "?tv * 2"] by (simp_all add: checked_mul_def round_facts_def mult.commute)
  show thesis
    using that [of "?tv * 2 div 3"] m by (simp add: vote_threshold_def unat_div)
qed

lemma round_get_proof:
  assumes "round_facts E base blk ds" "unat t = 2 * total_stake E (blk_header blk) ds div 3"
    and "valid_sigs E (blk_header blk) (sigs_at g (height (blk_header blk)))"
    and "distinct (map fst (sigs_at g (height (blk_header blk))))"
  shows "get_proof E base t blk g =
    Ok (if 2 * total_stake E (blk_header blk) ds div 3 <
           signed_stake E (blk_header blk) (sigs_at g (height (blk_header blk))) ds
        then Some (sigs_at g (height (blk_header blk))) else None)"
proof -
  let ?ps = "sigs_at g (height (blk_header blk))" and ?ep = "epoch E (height (blk_header blk))"
  have le: "(\<Sum>pk\<leftarrow>map fst ?ps. key_stake ?ep ds pk) \<le> total_stake E (blk_header blk) ds"
    unfolding total_epoch_stake by (rule keys_stake_le [OF assms(4)])
  moreover have "total_stake E (blk_header blk) ds < 2 ^ 128"
    using assms(1) unfolding round_facts_def by linarith
  ultimately have "unat (0 :: u128) + (\<Sum>pk\<leftarrow>map fst ?ps. key_stake ?ep ds pk) < 2 ^ 128" by simp
  moreover have "stakes_votes E (raw_stakes E base) ?ep pk = of_nat (key_stake ?ep ds pk)" for pk
    using assms(1) by (simp add: round_facts_def votes_documented_def)
  ultimately obtain v where v: "sum_votes (stakes_votes E (raw_stakes E base) ?ep) (map fst ?ps) 0 = Ok v"
    "unat v = unat (0 :: u128) + (\<Sum>pk\<leftarrow>map fst ?ps. key_stake ?ep ds pk)"
    using sum_votes_eq by blast
  then have "unat v = signed_stake E (blk_header blk) ?ps ds"
    by (simp add: signed_keys_stake [OF assms(3,4)])
  with v(1) show ?thesis
    using assms(1,2) by (simp add: get_proof_def Let_def round_facts_def word_less_nat_alt)
qed

lemma round_check:
  assumes "round_facts E base blk ds"
    and "2 * total_stake E (blk_header blk) ds div 3 < signed_stake E (blk_header blk) ps ds"
  shows "check_consensus E (blk_header blk) ps (stakes_iter E (raw_stakes E base)) = Ok ()"
proof -
  have d: "stake_docs E (stakes_iter E (raw_stakes E base)) = Some ds"
    and b: "2 * total_stake E (blk_header blk) ds < 2 ^ 128" "length ds * total_stake E (blk_header blk) ds < 2 ^ 128"
    using assms(1) by (simp_all add: round_facts_def)
  have "running_tally E (blk_header blk) ps ds 0 < 2 ^ 128"
    using running_tally_le [of E "blk_header blk" ps ds 0] b(2) by simp
  from check_consensus_eq(1) [OF d b(1) this] show ?thesis
    using signed_le_tally [of E "blk_header blk" ps ds 0] assms(2) by linarith
qed

end
