(* ===== verification/Staker_Props.thy ===== *)
theory Staker_Props
  imports Staker Node_Props
begin

text \<open>
  What a staker does to its storage and when its rounds end; the schedule and the vote
  weights; and where its count of votes and that of the storage differ.
\<close>

section \<open>Rounds\<close>

text \<open>
  C13: Whatever Streamlette decides and whatever the neighbours send as signatures, a round
  that returns leaves a well-formed storage with the old chain, or that chain with exactly
  the decided block appended.
\<close>

theorem staker_round_safe:
  assumes "decide_round E cfg base next_height decide answers g st = Some (r, g', st')"
    and "wf_storage E st" and "r = Ok () \<or> r = Err e"
  shows "wf_storage E st' \<and> (chain E (db st') = chain E (db st) \<or>
    (\<exists>inner decision. base_state inner = base \<and> dec_block E (decide inner) = Some decision \<and>
       chain E (db st') = chain E (db st) @ [decision]))"
proof (cases "make_proposal E cfg base next_height (mempool st)")
  case None
  then have "st' = st\<lparr>mempool := rebase E base (mempool st)\<rparr>"
    using assms(1) by (simp add: decide_round_def)
  then show ?thesis using laterD(1) [OF later_pool [OF assms(2)]] by simp
next
  case (Some proposal)
  let ?inner = "\<lparr>base_state = base, my_proposal = proposal, nonce = ucast (height (header_of E base)),
    my_sk = (cfg_public cfg, cfg_sign cfg)\<rparr>"
  from Some assms(1) have "commit_decision E (apply_block E) cfg base next_height (decide ?inner) answers g st =
      Some (r, g', st')"
    by (simp add: decide_round_def)
  from store.commit_decision_safe [OF this assms(2,3)]
  show ?thesis by (metis staker_inner.select_convs(1))
qed

text \<open>
  C25: The gathering of signatures ends exactly when the keys heard of reach the threshold
  at some point; as long as they do not, it asks on for ever (until the block comes from
  elsewhere).
\<close>

theorem gathering_ends_iff:
  assumes "\<And>i. \<exists>op. get_proof E base t decision (gathered h answers i g) = Ok op"
  shows "gather_loop E (apply_block E) base t h decision answers (0, g, st) \<noteq> None \<longleftrightarrow>
    (\<exists>n cproof. get_proof E base t decision (gathered h answers n g) = Ok (Some cproof))"
proof
  let ?f = "gather_step E (apply_block E) base t h decision answers"
  assume ends: "gather_loop E (apply_block E) base t h decision answers (0, g, st) \<noteq> None"
  show "\<exists>n cproof. get_proof E base t decision (gathered h answers n g) = Ok (Some cproof)"
  proof (rule ccontr)
    assume "\<nexists>n cproof. get_proof E base t decision (gathered h answers n g) = Ok (Some cproof)"
    then have none: "get_proof E base t decision (gathered h answers n g) = Ok None" for n
      using assms [of n] by (metis option.exhaust)
    have "iterate ?f (0, g, st) = None"
    proof (rule iterate_diverges [where I = "\<lambda>x. \<exists>n. x = (n, gathered h answers n g, st)"])
      show "\<exists>n. (0, g, st) = (n, gathered h answers n g, st)" by (rule exI [of _ 0]) simp
      fix x :: "'b storage gather_vars" assume "\<exists>n. x = (n, gathered h answers n g, st)"
      then obtain n where "x = (n, gathered h answers n g, st)" by blast
      then have "?f x = Inr (Suc n, gathered h answers (Suc n) g, st)"
        using none [of n] by (simp add: gather_step_def split: option.split)
      then show "\<exists>y. ?f x = Inr y \<and> (\<exists>n. y = (n, gathered h answers n g, st))" by blast
    qed
    with ends show False by (simp add: gather_loop_def)
  qed
next
  assume ex: "\<exists>n cproof. get_proof E base t decision (gathered h answers n g) = Ok (Some cproof)"
  define n where "n = (LEAST n. \<exists>cproof. get_proof E base t decision (gathered h answers n g) = Ok (Some cproof))"
  obtain cproof where c: "get_proof E base t decision (gathered h answers n g) = Ok (Some cproof)"
    using LeastI_ex [OF ex] unfolding n_def by blast
  have "get_proof E base t decision (gathered h answers i g) = Ok None" if "i < n" for i
    using not_less_Least [OF that [unfolded n_def]] assms [of i] by (metis option.exhaust)
  from gather_loop_at [OF this c, of "apply_block E" st]
  show "gather_loop E (apply_block E) base t h decision answers (0, g, st) \<noteq> None" by simp
qed

text \<open>
  C32: Signatures are counted by their keys only: if a neighbour's first answer names enough
  voters, valid or not, the staker hands the block over with them; when the storage refuses
  that proof, the round is over with the error swallowed, the decided block is not stored,
  and no later answer is asked for.
\<close>

theorem junk_signatures_lose_decision:
  assumes "wf_storage E st"
    and "dec_block E decided = Some blk" and "vote_threshold E base = Ok t"
    and "get_proof E base t blk (insert_own E cfg blk g) = Ok None"
    and "answers 0 = Some junk"
    and "get_proof E base t blk (merge_sigs next_height junk (insert_own E cfg blk g)) = Ok (Some cproof)"
    and "apply_block E st blk cproof = (Err e, st')"
  shows "commit_decision E (apply_block E) cfg base next_height decided answers g st =
      Some (Ok (), merge_sigs next_height junk (insert_own E cfg blk g), st') \<and>
    chain E (db st') = chain E (db st)"
proof -
  let ?g = "insert_own E cfg blk g"
  have "get_proof E base t blk (gathered next_height answers i ?g) = Ok None" if "i < 1" for i
    using that assms(4) by simp
  moreover have "get_proof E base t blk (gathered next_height answers 1 ?g) = Ok (Some cproof)"
    using assms(5,6) by simp
  ultimately have "gather_loop E (apply_block E) base t next_height blk answers (0, ?g, st) =
      Some (Ok (), merge_sigs next_height junk ?g, st')"
    using gather_loop_at [of 1 E base t blk next_height answers ?g cproof "apply_block E" st] assms(5,7) by simp
  then show ?thesis
    using assms(2,3) store.apply_Err [OF assms(1,7)] by (simp add: commit_decision_def)
qed

text \<open>
  A staker whose mempool does not stand for the next height (after a restart it stands
  for the first block) proposes nothing in this turn, but rebases the mempool, so that at
  the next turn on the same top state it does propose.
\<close>

theorem lagging_mempool_recovers:
  assumes "make_proposal E cfg base next_height (mempool st) = None"
    and "checked_add (height (header_of E base)) 1 = Some next_height"
    and "\<And>s. height (header_of E (seal E (next_unsealed E s) None)) = height (header_of E s) + 1"
    and "decide_round E cfg base next_height decide answers g st = Some (r, g', st')"
  shows "r = Ok () \<and> db st' = db st \<and> (\<exists>proposal. make_proposal E cfg base next_height (mempool st') = Some proposal)"
proof -
  have "next_height = height (header_of E base) + 1"
    using assms(2) by (simp add: checked_add_def split: if_splits)
  then show ?thesis
    using assms by (auto simp: decide_round_def make_proposal_def rebase_def to_state_def Let_def split: if_splits)
qed

section \<open>Schedule and weights\<close>

text \<open>
  On the two public networks the block after a block is due 30 seconds later, as long
  as the times fit; a height too big for them aborts the process.
\<close>

theorem thirty_seconds_apart:
  assumes "height_to_time netid h now = Ok t" and "netid = Mainnet \<or> netid = Testnet"
    and "unat h + 1 < 2 ^ 64"
  shows "height_to_time netid (h + 1) now =
    (if 30 * (unat h + 1) \<ge> 2 ^ 64 then Panic Overflow
     else if t + 30 \<ge> 2 ^ 63 then Panic (Expect ''overflow when adding duration to instant'')
     else Ok (t + 30))"
proof -
  obtain start where s: "height_to_time netid = (\<lambda>h now. start_plus start h)"
    using assms(2) that [of MAINNET_START_TIME] that [of TESTNET_START_TIME]
    by (auto simp: height_to_time_def fun_eq_iff)
  have u: "unat (h + 1) = unat h + 1" using unat_plus_one [OF assms(3)] by simp
  have t: "30 * unat h < 2 ^ 64" "t = start + 30 * unat h"
    using assms(1) by (auto simp: s start_plus_def checked_mul_def bind_res_Ok unat_word_ariths split: if_splits)
  show ?thesis
    using t by (auto simp: s start_plus_def checked_mul_def u unat_word_ariths)
qed

text \<open>
  The weight Streamlette gets for a key is the sum of its active stakes in the next
  block's epoch, each taken modulo \<open>2 ^ 64\<close>, as long as these sums stay below \<open>2 ^ 64\<close>.
\<close>

theorem vote_weights_sum:
  assumes "checked_add (height (header_of E (base_state c))) 1 = Some h"
    and "\<forall>(_, bs) \<in> set (stakes_iter E (raw_stakes E (base_state c))). dec_stake E bs \<noteq> None"
    and "\<forall>pk. cut_stake E (epoch E h) pk (stakes_iter E (raw_stakes E (base_state c))) < 2 ^ 64"
  shows "\<exists>m. vote_weights E c = Ok m \<and>
    (\<forall>pk. weight_of m pk = cut_stake E (epoch E h) pk (stakes_iter E (raw_stakes E (base_state c))))"
  using weigh_stakes_sum [OF assms(2), of Map.empty "epoch E h"] assms(1,3)
  by (simp add: vote_weights_def)

text \<open>
  A stake of \<open>2 ^ 64\<close> micro-units (and every multiple) weighs nothing in Streamlette,
  although the storage counts it in full.
\<close>

theorem huge_stake_weighs_nothing:
  assumes "dec_stake E bs = Some d" and "e_start d \<le> epoch E h" and "epoch E h < e_post_end d"
    and "unat (syms_staked d) mod 2 ^ 64 = 0"
  shows "weigh_stakes E (epoch E h) [(k, bs)] Map.empty = Ok [pubkey d \<mapsto> 0]"
proof -
  have "unat (ucast (syms_staked d) :: u64) = unat (0 :: u64)"
    using assms(4) by (simp add: unat_ucast_mod)
  then have "(ucast (syms_staked d) :: u64) = 0" by (simp only: word_unat_eq_iff)
  then show ?thesis using assms(1-3) by (simp add: checked_add_def)
qed

section \<open>Two ways to count votes\<close>



lemma ex_votes [simp]:
  "stakes_votes ex_env = (\<lambda>sk e pk. sum_list (map (\<lambda>(t, d).
     if pubkey d = pk \<and> e_start d \<le> e \<and> e < e_post_end d then syms_staked d else 0) sk))"
  "stakes_total_votes ex_env = (\<lambda>sk e. sum_list (map (\<lambda>(t, d).
     if e_start d \<le> e \<and> e < e_post_end d then syms_staked d else 0) sk))"
  by (simp_all add: ex_env_def)


text \<open>
  A staker asked for the signatures of a stored height gives the stored proof, whatever
  it has gathered; for a height not stored yet, it gives what it has gathered.
\<close>

theorem get_sigs_answers:
  assumes "wf_core E st" and "unat h < 2 ^ 63"
  shows "get_sigs E h g st = Ok (if 0 < unat h \<and> unat h \<le> length (chain E (db st))
    then proofs E (db st) ! (unat h - 1) else sigs_at g h)"
proof -
  have "consensus_at E (db st) h = (if 0 < unat h \<and> unat h \<le> length (chain E (db st))
      then Some (proofs E (db st) ! (unat h - 1)) else None)"
  proof (cases "0 < unat h \<and> unat h \<le> length (chain E (db st))")
    case True
    then show ?thesis
      using consensus_at_iff [OF wf_coreD(3,2) [OF assms(1)], of h "proofs E (db st) ! (unat h - 1)"] by simp
  next
    case False
    then have "consensus_at E (db st) h = None"
      using consensus_at_iff [OF wf_coreD(3,2) [OF assms(1)], of h] by (cases "consensus_at E (db st) h") blast+
    then show ?thesis using False by (simp only: if_False)
  qed
  moreover have "sql_u64 E h" using assms(2) env_okD(4) [OF wf_coreD(1) [OF assms(1)]] by blast
  ultimately show ?thesis
    by (simp only: get_sigs_def get_consensus_spec [OF assms(1)] if_True bind_res_simps split: if_split) simp
qed

section \<open>Witnesses\<close>

definition ex_cfg :: "ed25519_pk \<Rightarrow> staker_config" where
  "ex_cfg pk = \<lparr>cfg_public = pk, cfg_sign = (\<lambda>m. [ucast pk, ucast m]), payout_addr = 0, target_fee_multiplier = 100\<rparr>"

lemma ex_env_next [simp]: "next_unsealed ex_env = (\<lambda>(h, sk, ts). (h\<lparr>height := height h + 1\<rparr>, sk, []))"
  "to_block ex_env = (\<lambda>(h, sk, ts). \<lparr>blk_header = h, transactions = ts, blk_proposer_action = None\<rparr>)"
  by (simp_all add: ex_env_def)

lemma ex_tip_sel: "raw_stakes ex_env ex_tip1 = [(1, ex_stake 7 900), (2, ex_stake 8 100)]"
  "height (header_of ex_env ex_tip1) = 1"
  by (simp_all add: ex_tip1_def) (simp add: ex_header_def)

lemma ex_threshold: "vote_threshold ex_env ex_tip1 = Ok 666"
  by (simp add: vote_threshold_def ex_tip_sel) (simp add: ex_stake_def checked_mul_def)

lemma ex_own_sig: "insert_own ex_env (ex_cfg 7) ex_b2 g = g(2 \<mapsto> ex_proof [7] 2)"
  by (simp add: insert_own_def ex_b2_def ex_block_def ex_cfg_def) (simp add: ex_header_def ex_proof_def)

lemma ex_own_proof: "get_proof ex_env ex_tip1 666 ex_b2 (g(2 \<mapsto> ex_proof [7] 2)) = Ok (Some (ex_proof [7] 2))"
proof -
  have "height (blk_header ex_b2) = 2" by (simp add: ex_b2_def ex_block_def ex_header_def)
  then show ?thesis
    by (simp add: get_proof_def ex_tip_sel sigs_at_def) (simp add: ex_proof_def ex_stake_def checked_add_def)
qed

lemma ex_mempool1: "to_state (mempool ex_st1) = next_unsealed ex_env ex_tip1"
proof (rule apply_block_Ok [OF wf_storageD(1) [OF ex_st0_wf] ex_apply1])
  fix tip tabs nxt st1
  assume "save_block ex_env ex_b1 (ex_proof [7] 1) (db ex_st0) = Inr tabs"
    and "top_state ex_env (genesis ex_st0) tabs = Some nxt"
    and e: "ex_st1 = st1\<lparr>mempool := rebase ex_env nxt (mempool ex_st0),
           new_block_notify := Suc (new_block_notify ex_st0)\<rparr>"
  moreover have "mempool ex_st1 = rebase ex_env nxt (mempool ex_st0)" by (subst e) simp
  ultimately show ?thesis using ex_save ex_top1 by (simp add: rebase_def to_state_def Let_def)
qed

lemma ex_round:
  "decide_round ex_env (ex_cfg 7) ex_tip1 2 (\<lambda>c. en_block ex_b2) (\<lambda>n. None) Map.empty ex_st1 =
     Some (Ok (), [2 \<mapsto> ex_proof [7] 2], ex_st2)"
proof -
  have "make_proposal ex_env (ex_cfg 7) ex_tip1 2 (mempool ex_st1) \<noteq> None"
    by (simp add: make_proposal_def ex_mempool1 ex_tip1_def) (simp add: ex_header_def)
  then obtain pr where "make_proposal ex_env (ex_cfg 7) ex_tip1 2 (mempool ex_st1) = Some pr" by blast
  moreover have "gather_loop ex_env (apply_block ex_env) ex_tip1 666 2 ex_b2 (\<lambda>n. None)
      (0, [2 \<mapsto> ex_proof [7] 2], ex_st1) = Some (Ok (), [2 \<mapsto> ex_proof [7] 2], ex_st2)"
    using gather_loop_at [of 0 ex_env ex_tip1 666 ex_b2 2 "\<lambda>n. None" "[2 \<mapsto> ex_proof [7] 2]" "ex_proof [7] 2"
        "apply_block ex_env" ex_st1] ex_own_proof [of Map.empty]
    by (simp add: ex_apply2)
  ultimately show ?thesis
    by (simp add: decide_round_def commit_decision_def ex_own_sig ex_threshold Let_def)
qed

theorem staker_round_safe_witness:
  "wf_storage ex_env ex_st2 \<and> (chain ex_env (db ex_st2) = chain ex_env (db ex_st1) \<or>
     (\<exists>decision. chain ex_env (db ex_st2) = chain ex_env (db ex_st1) @ [decision]))"
  using staker_round_safe [OF ex_round ex_st1_wf] by blast

theorem gathering_ends_iff_witness:
  "gather_loop ex_env (apply_block ex_env) ex_tip1 666 2 ex_b2 (\<lambda>n. None) (0, [2 \<mapsto> ex_proof [7] 2], ex_st1) \<noteq> None"
proof -
  have g: "gathered 2 (\<lambda>n. None) i [2 \<mapsto> ex_proof [7] 2] = [2 \<mapsto> ex_proof [7] 2]" for i
    by (induction i) simp_all
  show ?thesis
    by (rule gathering_ends_iff [THEN iffD2]) (use ex_own_proof [of Map.empty] in \<open>auto simp: g\<close>)
qed

definition ex_tip0 :: ex_state where
  "ex_tip0 = (\<lparr>network = Custom02, height = 0, fee_multiplier = 1, stakes_hash = 2, hdr_rest = 0\<rparr>,
     gen_stakes ex_genesis, [])"

theorem junk_signatures_lose_decision_witness:
  "\<exists>g st'. commit_decision ex_env (apply_block ex_env) (ex_cfg 9) ex_tip0 1 (en_block ex_b1)
       (\<lambda>n. Some [(7, [0])]) Map.empty ex_st0 = Some (Ok (), g, st') \<and> chain ex_env (db st') = []"
proof -
  have h: "height (blk_header ex_b1) = 1" by (simp add: ex_b1_def ex_block_def ex_header_def)
  have own: "insert_own ex_env (ex_cfg 9) ex_b1 Map.empty = [1 \<mapsto> [(9, [9, 1])]]"
    by (simp add: insert_own_def h ex_cfg_def)
  have stakes: "raw_stakes ex_env ex_tip0 = [(1, ex_stake 7 900), (2, ex_stake 8 100)]" "height (header_of ex_env ex_tip0) = 0"
    by (simp_all add: ex_tip0_def ex_genesis_def)
  have merged: "merge_sigs 1 [(7, [0])] [1 \<mapsto> [(9, [9, 1])]] = [1 \<mapsto> [(9, [9, 1]), (7, [0])]]"
    by (simp add: merge_sigs_def sigs_at_def)
  have t: "vote_threshold ex_env ex_tip0 = Ok 666"
    by (simp add: vote_threshold_def stakes) (simp add: ex_stake_def checked_mul_def)
  have p0: "get_proof ex_env ex_tip0 666 ex_b1 [1 \<mapsto> [(9, [9, 1])]] = Ok None"
    by (simp add: get_proof_def stakes sigs_at_def h) (simp add: ex_stake_def checked_add_def)
  have p1: "get_proof ex_env ex_tip0 666 ex_b1 [1 \<mapsto> [(9, [9, 1]), (7, [0])]] = Ok (Some [(9, [9, 1]), (7, [0])])"
    by (simp add: get_proof_def stakes sigs_at_def h) (simp add: ex_stake_def checked_add_def)
  have hs: "highest_state ex_env ex_st0 = (Ok ex_tip0, ex_st0)"
    using store.top_length [OF ex_st0_wf] unfolding ex_chain0
    by (simp add: highest_state_def ex_tip0_def) (simp add: ex_genesis_def ex_root_def)
  have "check_consensus ex_env (blk_header ex_b1) [(9, [9, 1]), (7, [0])] (stakes_iter ex_env (raw_stakes ex_env ex_tip0)) =
      Err (InsufficientVotes 1 0 1000)"
    by (simp add: check_consensus_def stakes)
      (simp add: active_stake_def signed_by_def ex_b1_def ex_block_def ex_header_def ex_stake_def checked_add_def checked_mul_def)
  then have "apply_block ex_env ex_st0 ex_b1 [(9, [9, 1]), (7, [0])] = (Err (InsufficientVotes 1 0 1000), ex_st0)"
    by (simp add: apply_block_def hs Let_def stakes(2) h checked_add_def)
  then have "commit_decision ex_env (apply_block ex_env) (ex_cfg 9) ex_tip0 1 (en_block ex_b1) (\<lambda>n. Some [(7, [0])]) Map.empty ex_st0 =
      Some (Ok (), merge_sigs 1 [(7, [0])] (insert_own ex_env (ex_cfg 9) ex_b1 Map.empty), ex_st0) \<and>
    chain ex_env (db ex_st0) = chain ex_env (db ex_st0)"
    using ex_chain0 by (intro junk_signatures_lose_decision [OF ex_st0_wf _ t]) (simp_all only: own merged p0 p1, simp_all)
  then show ?thesis using ex_chain0 by blast
qed

theorem lagging_mempool_recovers_witness:
  "\<exists>st' proposal. decide_round ex_env (ex_cfg 7) ex_tip1 2 (\<lambda>c. []) (\<lambda>n. None) Map.empty
      (storage_open ex_env ''/db'' ex_genesis ex_tabs1) = Some (Ok (), Map.empty, st') \<and>
    make_proposal ex_env (ex_cfg 7) ex_tip1 2 (mempool st') = Some proposal"
proof -
  let ?st = "storage_open ex_env ''/db'' ex_genesis ex_tabs1 :: ex_state storage"
  have none: "make_proposal ex_env (ex_cfg 7) ex_tip1 2 (mempool ?st) = None"
    by (simp add: make_proposal_def storage_open_def mempool_new_def to_state_def)
  then have run: "decide_round ex_env (ex_cfg 7) ex_tip1 2 (\<lambda>c. []) (\<lambda>n. None) Map.empty ?st =
      Some (Ok (), Map.empty, ?st\<lparr>mempool := rebase ex_env ex_tip1 (mempool ?st)\<rparr>)"
    by (simp add: decide_round_def)
  have "checked_add (height (header_of ex_env ex_tip1)) 1 = Some 2" by (simp add: ex_tip_sel checked_add_def)
  from lagging_mempool_recovers [OF none this _ run] run show ?thesis by auto
qed

theorem thirty_seconds_apart_witness:
  "height_to_time Mainnet (0 + 1) 0 = Ok (1618545600 + 30)"
  using thirty_seconds_apart [of Mainnet 0 0 1618545600]
  by (simp add: height_to_time_def start_plus_def MAINNET_START_TIME_def checked_mul_def)

theorem vote_weights_sum_witness:
  "\<exists>m. vote_weights ex_env \<lparr>base_state = ex_tip1, my_proposal = ex_b2, nonce = 1, my_sk = (7, \<lambda>h. [])\<rparr> = Ok m \<and> weight_of m 7 = 900"
proof -
  let ?c = "\<lparr>base_state = ex_tip1, my_proposal = ex_b2, nonce = 1, my_sk = (7, \<lambda>h. [])\<rparr>"
  have c: "checked_add (height (header_of ex_env (base_state ?c))) 1 = Some 2" by (simp add: ex_tip_sel checked_add_def)
  have cut: "cut_stake ex_env (epoch ex_env 2) pk (stakes_iter ex_env (raw_stakes ex_env (base_state ?c))) =
      (if pk = 7 then 900 else if pk = 8 then 100 else 0)" for pk
    by (simp add: cut_stake_def ex_tip_sel) (simp add: ex_stake_def)
  have "\<forall>(_, bs) \<in> set (stakes_iter ex_env (raw_stakes ex_env (base_state ?c))). dec_stake ex_env bs \<noteq> None"
    by (simp add: ex_tip_sel)
  moreover have "\<forall>pk. cut_stake ex_env (epoch ex_env 2) pk (stakes_iter ex_env (raw_stakes ex_env (base_state ?c))) < 2 ^ 64"
    unfolding cut by simp
  ultimately obtain m where "vote_weights ex_env ?c = Ok m" "\<forall>pk. weight_of m pk =
      cut_stake ex_env (epoch ex_env 2) pk (stakes_iter ex_env (raw_stakes ex_env (base_state ?c)))"
    using vote_weights_sum [OF c] by blast
  then show ?thesis unfolding cut by auto
qed

theorem huge_stake_weighs_nothing_witness:
  "weigh_stakes ex_env (epoch ex_env 1) [(1, en_stake (ex_stake 7 18446744073709551616))] Map.empty = Ok [7 \<mapsto> 0]"
  using huge_stake_weighs_nothing [of ex_env "en_stake (ex_stake 7 18446744073709551616)" "ex_stake 7 18446744073709551616" 1 1]
  by (simp add: ex_stake_def)

theorem get_sigs_answers_witness:
  "get_sigs ex_env 2 Map.empty ex_st2 = Ok (ex_proof [7] 2)"
  using get_sigs_answers [OF wf_storageD(1) [OF ex_st2_wf], of 2 Map.empty]
  unfolding ex_st2_chain ex_proofs2 by simp

end
