(* ===== verification/Staker_Life_Props.thy ===== *)
theory Staker_Life_Props
  imports Staker_Votes Staker_Props
begin

text \<open>
  What a staker achieves and keeps over its life: an honest round commits the decided
  block, the loop never ends with an error, and no round starts before its slot.
\<close>

section \<open>Honest rounds\<close>

text \<open>
  C11: When the decided block extends the chain, can be stored, and is not the first of an
  epoch, when the neighbours' signatures are valid and at some point the keys heard of own
  more than two thirds of the active stake, then the gathering ends, what it hands over
  passes the consensus check of the storage, and the round ends with the block committed.
\<close>

theorem honest_round_commits:
  assumes "wf_storage E st" and "top_state E (genesis st) (db st) = Some base"
    and "dec_block E decided = Some blk"
    and "unat (height (blk_header blk)) = Suc (length (chain E (db st)))"
    and "stf_apply_block E base blk = Inr s"
    and "\<And>ps. \<exists>tabs. save_block E blk ps (db st) = Inr tabs \<and> stakes_agree E (genesis st) tabs blk"
    and "round_facts E base blk ds"
    and "sig_verify E (cfg_public cfg) (header_hash E (blk_header blk)) (cfg_sign cfg (header_hash E (blk_header blk)))"
    and "\<And>n sigs. answers n = Some sigs \<Longrightarrow> valid_sigs E (blk_header blk) sigs"
    and "2 * total_stake E (blk_header blk) ds div 3 <
      signed_stake E (blk_header blk) (sigs_at (gathered (height (blk_header blk)) answers n (insert_own E cfg blk g)) (height (blk_header blk))) ds"
  shows "\<exists>g' st'. commit_decision E (apply_block E) cfg base (height (blk_header blk)) decided answers g st = Some (Ok (), g', st') \<and>
    wf_storage E st' \<and> chain E (db st') = chain E (db st) @ [blk]"
proof -
  let ?h = "height (blk_header blk)" and ?g = "insert_own E cfg blk g"
  let ?at = "\<lambda>i. sigs_at (gathered ?h answers i ?g) ?h"
  obtain t where t: "vote_threshold E base = Ok t" "unat t = 2 * total_stake E (blk_header blk) ds div 3"
    by (rule round_threshold [OF assms(7)])
  have "valid_sigs E (blk_header blk) (sigs_at ?g ?h)" "distinct (map fst (sigs_at ?g ?h))"
    using assms(8) by (simp_all add: insert_own_def sigs_at_def valid_sigs_def)
  then have at: "valid_sigs E (blk_header blk) (?at i)" "distinct (map fst (?at i))" for i
    using gathered_valid [of answers E "blk_header blk" ?g ?h i] assms(9) by blast+
  note gp = round_get_proof [OF assms(7) t(2) at]
  let ?ok = "\<lambda>i. 2 * total_stake E (blk_header blk) ds div 3 < signed_stake E (blk_header blk) (?at i) ds"
  define m where "m = (LEAST i. ?ok i)"
  have m: "?ok m" unfolding m_def by (rule LeastI [of ?ok, OF assms(10)])
  have before: "get_proof E base t blk (gathered ?h answers i ?g) = Ok None" if "i < m" for i
    using not_less_Least [of i ?ok] that gp [of i] unfolding m_def by simp
  have found: "get_proof E base t blk (gathered ?h answers m ?g) = Ok (Some (?at m))"
    using gp [of m] m by simp
  obtain tabs where tabs: "save_block E blk (?at m) (db st) = Inr tabs" "stakes_agree E (genesis st) tabs blk"
    using assms(6) by blast
  have "admissible E st blk (?at m) base"
    using assms(2,4,5) round_check [OF assms(7) m] by (simp add: admissible_def)
  then obtain st' where st': "apply_block E st blk (?at m) = (Ok (), st')"
    using apply_block_commits [OF assms(1) _ tabs(1)] tabs(2) by blast
  have "commit_decision E (apply_block E) cfg base ?h decided answers g st = Some (Ok (), gathered ?h answers m ?g, st')"
    using gather_loop_at [OF before found, of "apply_block E" st] assms(3) t(1) st' by (simp add: commit_decision_def Let_def)
  then show ?thesis using apply_block_extends [OF assms(1) st'] by blast
qed

lemma ex_votes_documented: "votes_documented ex_env"
proof -
  have "stakes_votes ex_env sk ep pk = of_nat (key_stake ep (map snd sk) pk) \<and>
      stakes_total_votes ex_env sk ep = of_nat (epoch_stake ep (map snd sk))" for sk ep pk
    by (induction sk) (auto simp: active_at_def)
  moreover have "stake_docs ex_env (stakes_iter ex_env sk) = Some (map snd sk)" for sk
    by (induction sk) (auto simp: stake_docs_simps)
  ultimately show ?thesis by (simp add: votes_documented_def)
qed

lemma ex_round_facts: "round_facts ex_env ex_tip1 ex_b2 [ex_stake 7 900, ex_stake 8 100]"
proof -
  have h: "height (blk_header ex_b2) = 2" by (simp add: ex_b2_def ex_block_def ex_header_def)
  have "total_stake ex_env (blk_header ex_b2) [ex_stake 7 900, ex_stake 8 100] = 1000"
    by (simp add: active_stake_def h) (simp add: ex_stake_def)
  then show ?thesis
    by (simp add: round_facts_def ex_votes_documented ex_tip_sel stake_docs_simps h)
qed

theorem honest_round_commits_witness:
  "\<exists>g' st'. commit_decision ex_env (apply_block ex_env) (ex_cfg 8) ex_tip1 2 (en_block ex_b2)
      (\<lambda>n. if n = 3 then Some (ex_proof [7] 2) else None) Map.empty ex_st1 = Some (Ok (), g', st') \<and>
    chain ex_env (db st') = [ex_b1, ex_b2]"
proof -
  let ?ans = "\<lambda>n :: nat. if n = 3 then Some (ex_proof [7] 2) else None"
  have h: "height (blk_header ex_b2) = 2" by (simp add: ex_b2_def ex_block_def ex_header_def)
  have own: "insert_own ex_env (ex_cfg 8) ex_b2 Map.empty = [2 \<mapsto> [(8, [8, 2])]]"
    by (simp add: insert_own_def h ex_cfg_def)
  have g4: "sigs_at (gathered 2 ?ans 4 [2 \<mapsto> [(8, [8, 2])]]) 2 = [(8, [8, 2]), (7, [7, 2])]"
    by (simp add: numeral_eq_Suc merge_sigs_def sigs_at_def) (simp add: ex_proof_def)
  have saves: "\<exists>tabs. save_block ex_env ex_b2 ps (db ex_st1) = Inr tabs \<and> stakes_agree ex_env (genesis ex_st1) tabs ex_b2" for ps
  proof -
    have "save_block ex_env ex_b2 ps (db ex_st1) = Inr (ex_tabs2\<lparr>consensus_proofs := consensus_proofs ex_tabs1 @ [(2, en_list en_sig ps)]\<rparr>)"
      by (simp add: save_block_def ex_st1_db ex_b2_def ex_block_def ex_tabs2_def ex_tabs1_def insert_row_def)
        (simp add: ex_header_def insert_row_def)
    then show ?thesis using ex_agree2 by (simp add: stakes_agree_def)
  qed
  have top: "top_state ex_env (genesis ex_st1) (db ex_st1) = Some ex_tip1" using ex_top1 by (simp add: ex_st1_db)
  have stf: "\<exists>s. stf_apply_block ex_env ex_tip1 ex_b2 = Inr s"
    by (simp add: ex_tip1_def h) (simp add: ex_header_def)
  have total: "total_stake ex_env (blk_header ex_b2) [ex_stake 7 900, ex_stake 8 100] = 1000"
    by (simp add: active_stake_def h) (simp add: ex_stake_def)
  have "signed_stake ex_env (blk_header ex_b2) [(8, [8, 2]), (7, [7, 2])] [ex_stake 7 900, ex_stake 8 100] = 1000"
    by (simp add: active_stake_def signed_by_def h) (simp add: ex_stake_def)
  then have enough: "2 * total_stake ex_env (blk_header ex_b2) [ex_stake 7 900, ex_stake 8 100] div 3 <
      signed_stake ex_env (blk_header ex_b2) (sigs_at (gathered (height (blk_header ex_b2)) ?ans 4
        (insert_own ex_env (ex_cfg 8) ex_b2 Map.empty)) (height (blk_header ex_b2))) [ex_stake 7 900, ex_stake 8 100]"
    unfolding h own g4 total by simp
  have valid: "valid_sigs ex_env (blk_header ex_b2) sigs" if "?ans n = Some sigs" for n sigs
    using that by (auto simp: valid_sigs_def h ex_proof_def split: if_splits)
  obtain s where s: "stf_apply_block ex_env ex_tip1 ex_b2 = Inr s" using stf by blast
  have "\<exists>g' st'. commit_decision ex_env (apply_block ex_env) (ex_cfg 8) ex_tip1 (height (blk_header ex_b2)) (en_block ex_b2)
      ?ans Map.empty ex_st1 = Some (Ok (), g', st') \<and> wf_storage ex_env st' \<and>
    chain ex_env (db st') = chain ex_env (db ex_st1) @ [ex_b2]"
    by (rule honest_round_commits [OF ex_st1_wf top _ _ s saves ex_round_facts _ valid enough])
      (simp_all add: h ex_st1_chain ex_cfg_def)
  then show ?thesis unfolding h ex_st1_chain by auto
qed

section \<open>The loop\<close>

text \<open>
  C14: Once it can listen, a staker never starts over: no turn ends with an error, whatever
  Streamlette, neighbours and other writers do; as long as the process lives its storage
  stays well formed, and blocks and proofs are only appended.
\<close>

theorem staker_never_restarts:
  assumes "network_task E cfg ((None, ts) # sessions) st = Some (r, st')"
    and "wf_storage E st" and "\<forall>t \<in> set ts. turn_ok E t"
  shows "network_task_inner E cfg None ts st = Some (r, st') \<and> r \<noteq> Err e \<and>
    (r = Ok () \<longrightarrow> wf_storage E st' \<and>
       (\<exists>bs. chain E (db st') = chain E (db st) @ bs) \<and> (\<exists>ps. proofs E (db st') = proofs E (db st) @ ps))"
proof -
  obtain r1 g1 st1 where t: "staker_turns E cfg ts Map.empty st = Some (r1, g1, st1)"
    using assms(1) by (cases "staker_turns E cfg ts Map.empty st") (auto simp: network_task_inner_def)
  note ok = staker_turns_later [OF t assms(2,3)]
  have i: "network_task_inner E cfg None ts st = Some (r1, st1)" by (simp add: network_task_inner_def t)
  moreover have "r = r1 \<and> st' = st1" using assms(1) i ok by (cases r1) auto
  moreover have "r1 = Ok () \<Longrightarrow> later E st st1" using ok by blast
  ultimately show ?thesis using ok laterD(1,3,4) by metis
qed

text \<open>
  C26: On the main network no turn comes to its end before the clock has shown the slot of
  the next block, 30 seconds per block after the start time.
\<close>

theorem turn_waits_for_slot:
  assumes "wf_storage E st" and "top_state E (genesis st) (db st) = Some base"
    and "network (header_of E base) = Mainnet"
    and "staker_turn E cfg t g st = Some (Ok (), g', st')"
  shows "\<exists>n. MAINNET_START_TIME + 30 * Suc (length (chain E (db st))) \<le> slot_clock t n"
proof -
  note core = wf_storageD(1) [OF assms(1)]
  obtain st0 where hs: "highest_state E st = (Ok base, st0)"
    using highest_state_spec(1) [OF core] assms(2) by (metis prod.collapse)
  note n = top_state_height [OF core assms(2)]
  obtain h where h: "checked_add (height (header_of E base)) 1 = Some h"
    using assms(4) by (cases "checked_add (height (header_of E base)) 1") (auto simp: staker_turn_def hs)
  have uh: "unat h = Suc (length (chain E (db st)))" using checked_add_Some_unat [OF h] n by simp
  obtain slot where slot: "height_to_time Mainnet h (turn_now t) = Ok slot"
    using assms(3,4) by (auto simp: staker_turn_def hs h split: res.splits)
  then have s: "slot = MAINNET_START_TIME + 30 * Suc (length (chain E (db st)))"
    using uh checked_mul_Some_unat
    by (fastforce simp: height_to_time_def start_plus_def bind_res_Ok split: if_splits)
  have "wait_for_slot (slot_clock t) slot \<noteq> None"
    using assms(3,4) slot by (auto simp: staker_turn_def hs h split: option.splits prod.splits)
  then obtain c where "wait_for_slot (slot_clock t) slot = Some c" by blast
  then have "\<exists>n. slot \<le> slot_clock t n"
    unfolding wait_for_slot_def
    by (rule iterate_invariant [where I = "\<lambda>_. True"]) (auto split: if_splits intro: leI)
  then show ?thesis by (simp add: s)
qed

text \<open>A turn that meets nothing and is cancelled at once.\<close>

definition idle_turn :: "nat \<Rightarrow> ('ss, 'us) turn" where
  "idle_turn now = \<lparr>turn_now = now, meanwhile = id, slot_clock = (\<lambda>n. now), cancelled_by = Some id,
     streamlette = (\<lambda>c. []), sig_answers = (\<lambda>n. None)\<rparr>"

lemma idle_turn_ok: "turn_ok E (idle_turn now)"
  by (simp add: turn_ok_def idle_turn_def later_refl)

lemma idle_turn_runs:
  assumes "wf_storage E st" "top_state E (genesis st) (db st) = Some base"
    and "height_to_time (network (header_of E base)) (height (header_of E base) + 1) now = Ok slot" "slot \<le> now"
    and "unat (height (header_of E base)) + 1 < 2 ^ 63"
  shows "\<exists>g' st'. staker_turn E cfg (idle_turn now) g st = Some (Ok (), g', st')"
proof -
  note core = wf_storageD(1) [OF assms(1)]
  obtain st0 where hs: "highest_state E st = (Ok base, st0)" "same_but_cache st st0" "wf_core E st0"
    using highest_state_spec [OF core] assms(2) by (metis prod.collapse)
  have wf0: "wf_storage E st0" by (rule wf_storage_same [OF hs(2,3) assms(1)])
  let ?h = "height (header_of E base) + 1"
  have h: "checked_add (height (header_of E base)) 1 = Some ?h" "unat ?h = unat (height (header_of E base)) + 1"
    using assms(5) unat_plus_one by (auto simp: checked_add_def)
  have "sql_u64 E ?h" using env_okD(4) [OF wf_coreD(1) [OF core]] assms(5) h(2) by simp
  moreover obtain x st1 where g: "get_state E st0 ?h = (x, st1)" by (cases "get_state E st0 ?h")
  ultimately have "x = Ok None \<or> (\<exists>s. x = Ok (Some s))" using get_state_total [OF wf0] by (metis fst_conv)
  moreover have "wait_for_slot (\<lambda>n. now) slot = Some now"
    using assms(4) by (simp add: wait_for_slot_def iterate_Inl)
  ultimately show ?thesis
    using assms(3) h(1) g by (auto simp: staker_turn_def hs(1) idle_turn_def)
qed

lemma ex_tip1_header: "network (header_of ex_env ex_tip1) = Custom02" "height (header_of ex_env ex_tip1) = 1"
  by (simp_all add: ex_tip1_def ex_header_def)

theorem staker_never_restarts_witness:
  "\<exists>st'. network_task ex_env (ex_cfg 7) [(None, [idle_turn 0])] ex_st1 = Some (Ok (), st') \<and> wf_storage ex_env st'"
proof -
  have top: "top_state ex_env (genesis ex_st1) (db ex_st1) = Some ex_tip1" using ex_top1 by (simp add: ex_st1_db)
  have "\<exists>g' st'. staker_turn ex_env (ex_cfg 7) (idle_turn 0) Map.empty ex_st1 = Some (Ok (), g', st')"
    by (rule idle_turn_runs [OF ex_st1_wf top, of 0 0]) (simp_all add: ex_tip1_header height_to_time_def)
  then obtain g' st' where "staker_turn ex_env (ex_cfg 7) (idle_turn 0) Map.empty ex_st1 = Some (Ok (), g', st')" by blast
  then have run: "network_task ex_env (ex_cfg 7) ((None, [idle_turn 0]) # []) ex_st1 = Some (Ok (), st')"
    by (simp add: network_task_inner_def)
  from staker_never_restarts [OF run ex_st1_wf] run show ?thesis by (simp add: idle_turn_ok)
qed

definition ex_main :: genesis_config where "ex_main = ex_genesis\<lparr>gen_network := Mainnet\<rparr>"

theorem turn_waits_for_slot_witness:
  "\<exists>g' st'. staker_turn ex_env (ex_cfg 7) (idle_turn 1700000000) Map.empty (storage_open ex_env ''/db'' ex_main no_tables) =
     Some (Ok (), g', st') \<and> MAINNET_START_TIME + 30 \<le> 1700000000"
proof -
  let ?st = "storage_open ex_env ''/db'' ex_main no_tables :: ex_state storage"
  let ?base = "seal ex_env (realize ex_env ex_main) None"
  have wf: "wf_storage ex_env ?st" by (rule storage_open_fresh [OF ex_env_ok])
  have ch: "chain ex_env (db ?st) = []" by (simp add: storage_open_def no_tables_def chain_def)
  then have top: "top_state ex_env (genesis ?st) (db ?st) = Some ?base"
    by (simp add: top_state_def storage_open_def)
  have base: "network (header_of ex_env ?base) = Mainnet" "height (header_of ex_env ?base) = 0"
    by (simp_all add: ex_main_def)
  have "height_to_time Mainnet (0 + 1) 1700000000 = Ok (MAINNET_START_TIME + 30)"
    by (simp add: height_to_time_def start_plus_def checked_mul_def MAINNET_START_TIME_def)
  then have "\<exists>g' st'. staker_turn ex_env (ex_cfg 7) (idle_turn 1700000000) Map.empty ?st = Some (Ok (), g', st')"
    by (intro idle_turn_runs [OF wf top, of 1700000000 "MAINNET_START_TIME + 30"])
      (simp_all only: base, simp_all add: MAINNET_START_TIME_def)
  then obtain g' st' where run: "staker_turn ex_env (ex_cfg 7) (idle_turn 1700000000) Map.empty ?st = Some (Ok (), g', st')"
    by blast
  from turn_waits_for_slot [OF wf top base(1) run] ch
  have "MAINNET_START_TIME + 30 \<le> 1700000000" by (simp add: idle_turn_def)
  with run show ?thesis by blast
qed

end
