(* ===== verification/Staker_Net.thy ===== *)
theory Staker_Net
  imports Staker
begin

text \<open>
  The way of a request for a diff through \<open>src/staker.rs\<close>: \<open>get_diff\<close> of the network
  service puts it into a bounded channel with a one-shot channel for the answer, and the
  respond loop of the round at work takes it out. The channel outlives the rounds.
\<close>

section \<open>State\<close>

text \<open>
  \<open>DiffReq\<close>: the nonce, and the summary with the one-shot channel, which is the number of
  the request here. \<open>replies\<close> is what each one-shot channel delivered. The round is its
  configuration and its Streamlette core, \<open>None\<close> while no \<open>sync_core\<close> is running.
  \<open>asked\<close> and \<open>served_by\<close> are ghosts: the requests made, and the round that answered.
\<close>

type_synonym 'summary diff_req = "u128 \<times> 'summary \<times> nat"

record ('ss, 'core, 'summary, 'diff) staker_net =
  diff_queue :: "'summary diff_req list"
  replies :: "nat \<rightharpoonup> 'diff list"
  responder :: "('ss staker_inner \<times> 'core) option"
  asked :: "(u128 \<times> 'summary) list"
  served_by :: "nat \<rightharpoonup> 'ss staker_inner \<times> 'core"

definition net_start :: "('ss, 'core, 'summary, 'diff) staker_net" where
  "net_start = \<lparr>diff_queue = [], replies = Map.empty, responder = None, asked = [], served_by = Map.empty\<rparr>"

text \<open>Streamlette's core: its diff against a summary, and the application of one diff.\<close>

record ('core, 'summary, 'diff) core_ops =
  core_diff :: "'core \<Rightarrow> 'summary \<Rightarrow> 'diff list"
  apply_one_diff :: "'core \<Rightarrow> 'diff \<Rightarrow> err option \<times> 'core"

section \<open>Steps\<close>

text \<open>
  A request arrives; the respond loop takes one; the main loop applies a diff it received;
  \<open>sync_core\<close> starts on a core, or is cancelled.
\<close>

datatype ('ss, 'core, 'summary, 'diff) net_event =
    Request u128 'summary
  | Respond
  | Apply_diff 'diff
  | Round_starts "'ss staker_inner" 'core
  | Round_ends

definition on_request ::
  "u128 \<Rightarrow> 'summary \<Rightarrow> ('ss, 'core, 'summary, 'diff) staker_net \<Rightarrow> ('ss, 'core, 'summary, 'diff) staker_net" where
  "on_request n summary s =
     (let rid = length (asked s); (queue, answer) = get_diff (diff_queue s) (n, summary, rid)
      in s\<lparr>diff_queue := queue, asked := asked s @ [(n, summary)],
           replies := (case answer of None \<Rightarrow> replies s | Some diffs \<Rightarrow> (replies s)(rid \<mapsto> diffs))\<rparr>)"

definition on_respond ::
  "('core, 'summary, 'diff) core_ops \<Rightarrow> ('ss, 'core, 'summary, 'diff) staker_net
   \<Rightarrow> ('ss, 'core, 'summary, 'diff) staker_net" where
  "on_respond K s =
     (case (responder s, diff_queue s) of
        (Some (c, core), (n, summary, send_resp) # queue) \<Rightarrow>
          s\<lparr>diff_queue := queue,
            replies := (replies s)(send_resp \<mapsto> respond c (\<lambda>(their_summary, _). core_diff K core their_summary) (n, summary, send_resp)),
            served_by := (served_by s)(send_resp \<mapsto> (c, core))\<rparr>
      | _ \<Rightarrow> s)"

fun net_step ::
  "('core, 'summary, 'diff) core_ops \<Rightarrow> ('ss, 'core, 'summary, 'diff) net_event
   \<Rightarrow> ('ss, 'core, 'summary, 'diff) staker_net \<Rightarrow> ('ss, 'core, 'summary, 'diff) staker_net" where
  "net_step K (Request n summary) s = on_request n summary s"
| "net_step K Respond s = on_respond K s"
| "net_step K (Apply_diff d) s =
     s\<lparr>responder := map_option (\<lambda>(c, core). (c, apply_diffs (apply_one_diff K) [d] core)) (responder s)\<rparr>"
| "net_step K (Round_starts c core) s = s\<lparr>responder := Some (c, core)\<rparr>"
| "net_step K Round_ends s = s\<lparr>responder := None\<rparr>"

definition net_run ::
  "('core, 'summary, 'diff) core_ops \<Rightarrow> ('ss, 'core, 'summary, 'diff) net_event list
   \<Rightarrow> ('ss, 'core, 'summary, 'diff) staker_net \<Rightarrow> ('ss, 'core, 'summary, 'diff) staker_net" where
  "net_run K evs s = fold (net_step K) evs s"

section \<open>The invariant of the channel\<close>

abbreviation req_ids :: "'summary diff_req list \<Rightarrow> nat list" where
  "req_ids queue \<equiv> map (\<lambda>(_, _, rid). rid) queue"

text \<open>
  At most 100 requests wait, in the order of their arrival; each request made either waits
  or has its answer; what the respond loop has answered came before all that waits; and an
  answer is empty unless the round that gave it has the nonce asked for.
\<close>

definition net_inv ::
  "('core, 'summary, 'diff) core_ops \<Rightarrow> ('ss, 'core, 'summary, 'diff) staker_net \<Rightarrow> bool" where
  "net_inv K s \<longleftrightarrow>
     length (diff_queue s) \<le> 100 \<and>
     sorted_wrt (<) (req_ids (diff_queue s)) \<and>
     (\<forall>(n, summary, rid) \<in> set (diff_queue s). rid < length (asked s) \<and> asked s ! rid = (n, summary)) \<and>
     dom (replies s) = {..<length (asked s)} - set (req_ids (diff_queue s)) \<and>
     (\<forall>rid x. served_by s rid = Some x \<longrightarrow> rid < length (asked s) \<and> (\<forall>w \<in> set (req_ids (diff_queue s)). rid < w)) \<and>
     (\<forall>rid diffs. replies s rid = Some diffs \<longrightarrow> diffs \<noteq> [] \<longrightarrow>
        (\<exists>c core. served_by s rid = Some (c, core) \<and> fst (asked s ! rid) = nonce c \<and>
           diffs = core_diff K core (snd (asked s ! rid))))"

lemma net_inv_responder: "net_inv K (s\<lparr>responder := r\<rparr>) = net_inv K s"
  by (simp add: net_inv_def)

lemma net_inv_start: "net_inv K net_start"
  by (simp add: net_inv_def net_start_def)

lemma net_inv_respond:
  assumes "net_inv K s"
  shows "net_inv K (on_respond K s)"
proof (cases "responder s")
  case None
  then show ?thesis using assms by (simp add: on_respond_def)
next
  case (Some cc)
  obtain c core where cc: "cc = (c, core)" by (cases cc)
  show ?thesis
  proof (cases "diff_queue s")
    case Nil
    then show ?thesis using assms Some by (simp add: on_respond_def)
  next
    case (Cons q queue)
    obtain n summary rid where q: "q = (n, summary, rid)" by (metis prod.exhaust)
    have before: "\<forall>w \<in> set (req_ids queue). rid < w" and rid: "rid < length (asked s)" "asked s ! rid = (n, summary)"
      using assms by (simp_all add: net_inv_def Cons q)
    then have "rid \<notin> set (req_ids queue)" by blast
    then show ?thesis
      using assms before rid
      by (auto simp: net_inv_def on_respond_def Some cc Cons q respond_def split: if_splits)
  qed
qed

lemma net_inv_request:
  assumes "net_inv K s"
  shows "net_inv K (on_request n summary s)"
proof -
  have late: "rid < Suc (length (asked s))" if "served_by s rid = Some x" for rid x
    using assms that by (cases x) (fastforce simp: net_inv_def)
  show ?thesis
  proof (cases "length (diff_queue s) < 100")
    case True
    let ?n = "length (asked s)"
    have ids: "\<forall>w \<in> set (req_ids (diff_queue s)). w < ?n" and served: "\<forall>rid x. served_by s rid = Some x \<longrightarrow> rid < ?n"
      and replied: "\<forall>rid. rid \<in> dom (replies s) \<longrightarrow> rid < ?n"
      using assms by (auto simp: net_inv_def)
    have "{..<?n} - set (req_ids (diff_queue s)) = {..<Suc ?n} - insert ?n (set (req_ids (diff_queue s)))"
      by auto
    moreover have "(asked s @ [(n, summary)]) ! rid = asked s ! rid" if "replies s rid = Some diffs" for rid diffs
      using replied that by (simp add: nth_append domIff)
    ultimately show ?thesis
      using assms True ids served
      by (auto simp: net_inv_def on_request_def get_diff_def sorted_wrt_append nth_append Let_def dest: late)
  next
    case False
    then show ?thesis
      using assms by (auto simp: net_inv_def on_request_def get_diff_def nth_append Let_def dest: late)
  qed
qed

lemma net_inv_step: "net_inv K s \<Longrightarrow> net_inv K (net_step K e s)"
  by (cases e) (simp_all add: net_inv_request net_inv_respond net_inv_responder)

lemma net_inv_run: "net_inv K s \<Longrightarrow> net_inv K (net_run K evs s)"
  unfolding net_run_def by (induction evs arbitrary: s) (simp_all add: net_inv_step)

section \<open>Answers come\<close>

text \<open>With a round at work, as many turns of the respond loop as requests wait empty the channel.\<close>

lemma responds_empty:
  "responder s = Some (c, core) \<Longrightarrow>
     diff_queue (net_run K (replicate (length (diff_queue s)) Respond) s) = [] \<and>
     asked (net_run K (replicate (length (diff_queue s)) Respond) s) = asked s"
proof (induction "diff_queue s" arbitrary: s)
  case Nil
  then show ?case by (simp add: net_run_def)
next
  case (Cons q queue)
  let ?s = "on_respond K s"
  obtain n summary rid where q: "q = (n, summary, rid)" by (metis prod.exhaust)
  have s: "diff_queue ?s = queue" "responder ?s = Some (c, core)" "asked ?s = asked s"
    using Cons.hyps(2) [symmetric] Cons.prems by (simp_all add: on_respond_def q)
  have "net_run K (replicate (length (diff_queue s)) Respond) s = net_run K (replicate (length (diff_queue ?s)) Respond) ?s"
    using Cons.hyps(2) [symmetric] s(1) by (simp add: net_run_def)
  then show ?case using Cons.hyps(1) [OF s(1) [symmetric] s(2)] s(3) by simp
qed

section \<open>Properties\<close>

text \<open>
  C23: Requests for diffs. Whatever requests arrive and rounds come and go, at most 100 wait;
  every request made either waits or has been answered, never both; an answer that is not
  empty is the diff of the core of a round with the nonce the request named; and while a
  round is at work, as many turns of its respond loop as requests wait answer them all.
\<close>

theorem diff_requests_answered:
  assumes "net_run K evs net_start = s"
  shows "length (diff_queue s) \<le> 100 \<and>
    dom (replies s) = {..<length (asked s)} - set (req_ids (diff_queue s)) \<and>
    (\<forall>rid diffs. replies s rid = Some diffs \<longrightarrow> diffs \<noteq> [] \<longrightarrow>
       (\<exists>c core. served_by s rid = Some (c, core) \<and> fst (asked s ! rid) = nonce c \<and>
          diffs = core_diff K core (snd (asked s ! rid)))) \<and>
    (responder s \<noteq> None \<longrightarrow>
       dom (replies (net_run K (replicate (length (diff_queue s)) Respond) s)) = {..<length (asked s)})"
proof -
  have inv: "net_inv K s" using net_inv_run [OF net_inv_start] assms by blast
  let ?t = "net_run K (replicate (length (diff_queue s)) Respond) s"
  have "dom (replies ?t) = {..<length (asked s)}" if "responder s \<noteq> None"
  proof -
    from that obtain c core where "responder s = Some (c, core)" by auto
    from responds_empty [OF this, of K] net_inv_run [OF inv] show ?thesis
      unfolding net_inv_def by auto
  qed
  with inv show ?thesis unfolding net_inv_def by blast
qed

text \<open>
  A round with nonce 4 whose core is a number: request 0 names that nonce, request 1
  another one; request 2 waits.
\<close>

definition ex_ops :: "(nat, nat, nat) core_ops" where
  "ex_ops = \<lparr>core_diff = (\<lambda>core summary. [core - summary]), apply_one_diff = (\<lambda>core d. (None, core + d))\<rparr>"

definition ex_inner :: "unit staker_inner" where
  "ex_inner = \<lparr>base_state = (), my_proposal = undefined, nonce = 4, my_sk = (7, \<lambda>h. [])\<rparr>"

definition ex_events :: "(unit, nat, nat, nat) net_event list" where
  "ex_events = [Request 4 2, Round_starts ex_inner 5, Request 3 2, Apply_diff 1, Respond, Respond, Request 4 0]"

lemma ex_net_run:
  "replies (net_run ex_ops ex_events net_start) = Map.empty(0 \<mapsto> [4], 1 \<mapsto> [])"
  "diff_queue (net_run ex_ops ex_events net_start) = [(4, 0, 2)]"
  "responder (net_run ex_ops ex_events net_start) = Some (ex_inner, 6)"
  "asked (net_run ex_ops ex_events net_start) = [(4, 2), (3, 2), (4, 0)]"
  by (simp_all add: net_run_def ex_events_def net_start_def on_request_def on_respond_def get_diff_def
      respond_def ex_ops_def ex_inner_def apply_diffs_def fun_eq_iff)

theorem diff_requests_answered_witness:
  "(\<exists>c core. served_by (net_run ex_ops ex_events net_start) 0 = Some (c, core) \<and> nonce c = 4) \<and>
   dom (replies (net_run ex_ops [Respond] (net_run ex_ops ex_events net_start))) = {..<3}"
proof -
  let ?s = "net_run ex_ops ex_events net_start"
  note all = diff_requests_answered [OF refl, of ex_ops ex_events]
  note ex = ex_net_run
  have "\<exists>c core. served_by ?s 0 = Some (c, core) \<and> nonce c = 4"
  proof -
    have "replies ?s 0 = Some [4]" by (simp add: ex(1))
    then obtain c core where "served_by ?s 0 = Some (c, core)" "fst (asked ?s ! 0) = nonce c"
      using all by (metis not_Cons_self2)
    then show ?thesis by (simp add: ex(4))
  qed
  moreover have "dom (replies (net_run ex_ops (replicate (length (diff_queue ?s)) Respond) ?s)) = {..<length (asked ?s)}"
    using all ex(3) by blast
  ultimately show ?thesis by (simp add: ex(2,4))
qed

end
