(* ===== verification/Tools.thy ===== *)
theory Tools
  imports Blksync "HOL-Library.List_Lexorder" "HOL-Library.Char_ord"
begin

text \<open>
  The programs beside the node: \<open>src/bin/melnode-db-migrate.rs\<close>, which feeds exported
  blocks into a new database, \<open>src/bin/melsimnet.rs\<close>, which writes the files of a local
  test network, and the self test of \<open>src/main.rs\<close>, which replays the stored history.
\<close>

section \<open>Migration\<close>

text \<open>
  The files of the old directory with their names; \<open>None\<close> for a file that cannot be read.
  \<open>sort_unstable\<close> orders paths by their bytes. \<open>dec_pair\<close> decodes a block with its proof.
\<close>

fun migrate_files ::
  "(bytes \<Rightarrow> (block \<times> consensus_proof) option) \<Rightarrow> ('s \<Rightarrow> block \<Rightarrow> consensus_proof \<Rightarrow> unit res \<times> 's)
   \<Rightarrow> bytes option list \<Rightarrow> 's \<Rightarrow> unit res \<times> 's" where
  "migrate_files dec_pair apply_b [] s = (Ok (), s)"
| "migrate_files dec_pair apply_b (file # files) s =
     (case file of
        None \<Rightarrow> (Err (Lib ''I/O error''), s)
      | Some raw_block \<Rightarrow> (case dec_pair raw_block of
            None \<Rightarrow> (Err Deser, s)
          | Some (blk, cproof) \<Rightarrow>
              bind_st (apply_b s blk cproof) (\<lambda>_ s. migrate_files dec_pair apply_b files s)))"

definition migrate ::
  "(bytes \<Rightarrow> (block \<times> consensus_proof) option) \<Rightarrow> ('s \<Rightarrow> block \<Rightarrow> consensus_proof \<Rightarrow> unit res \<times> 's)
   \<Rightarrow> (string \<times> bytes option) list \<Rightarrow> 's \<Rightarrow> unit res \<times> 's" where
  "migrate dec_pair apply_b directory s =
     migrate_files dec_pair apply_b (map snd (sort_key fst directory)) s"

text \<open>
  The whole program: \<open>tabs\<close> are the tables at the new place, \<open>entries\<close> what listing the old
  directory gives, \<open>None\<close> where the listing or one of its entries fails.
\<close>

definition migrate_main ::
  "('ss, 'us, 'sk) env \<Rightarrow> genesis_config \<Rightarrow> (bytes \<Rightarrow> (block \<times> consensus_proof) option) \<Rightarrow> string \<Rightarrow> db_tables
   \<Rightarrow> (string \<times> bytes option) option list option \<Rightarrow> unit res \<times> 'us storage" where
  [op_defs]: "migrate_main E std_mainnet dec_pair new tabs entries =
     (let st = storage_open E new std_mainnet tabs in
      case Option.bind entries those of
        None \<Rightarrow> (Err (Lib ''I/O error''), st)
      | Some directory \<Rightarrow> migrate dec_pair (apply_block E) directory st)"

lemma migrate_main_Ok:
  "migrate_main E g dec_pair new tabs entries = (Ok (), st') \<longleftrightarrow>
     (\<exists>directory. entries = Some (map Some directory) \<and>
        migrate dec_pair (apply_block E) directory (storage_open E new g tabs) = (Ok (), st'))"
proof -
  have those: "those es = Some ds \<longleftrightarrow> es = map Some ds" for es and ds :: "(string \<times> bytes option) list"
    by (induction es arbitrary: ds) (auto split: option.splits simp: Cons_eq_map_conv)
  then have id: "those (map Some ds) = Some ds" for ds :: "(string \<times> bytes option) list" by blast
  show ?thesis
    by (cases entries) (auto simp: migrate_main_def Let_def those id split: option.splits)
qed

lemma migrate_files_eq:
  "migrate_files dec_pair apply_b files s = (Ok (), s') \<longleftrightarrow>
     (\<exists>bps. map (\<lambda>f. Option.bind f dec_pair) files = map Some bps \<and> apply_all apply_b bps s = (Ok (), s'))"
proof (induction files arbitrary: s)
  case Nil
  then show ?case by auto
next
  case (Cons f files)
  show ?case
  proof (cases "Option.bind f dec_pair")
    case None
    then show ?thesis by (cases f) (auto split: option.split)
  next
    case (Some bp)
    obtain b p where bp: "bp = (b, p)" by (cases bp)
    obtain raw where "f = Some raw" "dec_pair raw = Some (b, p)" using Some bp by (cases f) auto
    then show ?thesis using Cons.IH by (auto simp: bind_st_Ok Cons_eq_map_conv)
  qed
qed

section \<open>The test network\<close>

fun show_nat :: "nat \<Rightarrow> string" where
  "show_nat n = (if n < 10 then [char_of (48 + n)] else show_nat (n div 10) @ [char_of (48 + n mod 10)])"

declare show_nat.simps [simp del]

text \<open>
  A key is its public half. The genesis has one stake per amount, from epoch 0 on; \<open>pk_hash\<close>
  is the hash of the encoded key.
\<close>

definition simnet_genesis :: "(ed25519_pk \<Rightarrow> txhash) \<Rightarrow> u128 list \<Rightarrow> ed25519_pk list \<Rightarrow> genesis_config" where
  "simnet_genesis pk_hash stake secrets =
     \<lparr>gen_network = Custom02,
      init_coindata = \<lparr>covhash = 0, coin_value = 0, coin_denom = Mel, additional_data = []\<rparr>,
      gen_stakes = map (\<lambda>(amount, key). (pk_hash key,
        \<lparr>pubkey = key, e_start = 0, e_post_end = 1000000, syms_staked = amount\<rparr>)) (zip stake secrets),
      init_fee_pool = 0, init_fee_multiplier = 100\<rparr>"

text \<open>The staker port is cut to 16 bits, the node port is printed as it is.\<close>

record simnet_staker =
  sim_secret :: ed25519_pk
  sim_staker_port :: u16
  sim_bootstrap_port :: u16
  sim_target_fee_multiplier :: u128
  sim_node_port :: nat
  sim_run_cmd :: string

definition run_cmd :: "nat \<Rightarrow> string" where
  "run_cmd i =
     ''#!/bin/sh\<newline>melnode --bootstrap 127.0.0.1:2000 --listen 127.0.0.1:'' @ show_nat (2000 + i) @
     '' --advertise 127.0.0.1:'' @ show_nat (2000 + i) @
     '' --override-genesis genesis.yaml --staker-cfg staker-'' @ show_nat i @
     ''.yaml --database .database-'' @ show_nat i"

definition simnet_staker :: "nat \<Rightarrow> ed25519_pk \<Rightarrow> simnet_staker" where
  "simnet_staker i key =
     \<lparr>sim_secret = key, sim_staker_port = of_nat (i + 5000), sim_bootstrap_port = 5000,
      sim_target_fee_multiplier = 10000, sim_node_port = 2000 + i, sim_run_cmd = run_cmd i\<rparr>"

definition simnet_stakers :: "u128 list \<Rightarrow> ed25519_pk list \<Rightarrow> simnet_staker list" where
  "simnet_stakers stake secrets =
     map (\<lambda>(i, (_, key)). simnet_staker i key) (enumerate 0 (zip stake secrets))"

definition run_all_script :: "nat \<Rightarrow> string" where
  "run_all_script n =
     ''#!/bin/sh\<newline>trap \"trap - SIGTERM && kill -- -$$\" SIGINT SIGTERM EXIT\<newline>'' @
     concat (map (\<lambda>i. ''sh run-staker-'' @ show_nat i @ ''.sh &\<newline>'') [0..<n]) @ ''wait\<newline>''"

text \<open>
  \<open>main_create\<close>: the files in the order in which they are written, and the writing, in which
  any file may fail. Drawing the keys and printing YAML are arguments.
\<close>

definition simnet_files ::
  "(simnet_staker \<Rightarrow> string) \<Rightarrow> (genesis_config \<Rightarrow> string) \<Rightarrow> (ed25519_pk \<Rightarrow> txhash) \<Rightarrow> u128 list
   \<Rightarrow> ed25519_pk list \<Rightarrow> (string \<times> string) list" where
  "simnet_files yaml_staker yaml_genesis pk_hash stake secrets =
     concat (map (\<lambda>(i, config).
         [(''staker-'' @ show_nat i @ ''.yaml'', yaml_staker config),
          (''run-staker-'' @ show_nat i @ ''.sh'', sim_run_cmd config)])
       (enumerate 0 (simnet_stakers stake secrets))) @
     [(''run-all.sh'', run_all_script (length (simnet_stakers stake secrets))),
      (''genesis.yaml'', yaml_genesis (simnet_genesis pk_hash stake secrets))]"

fun write_files :: "(string \<Rightarrow> bool) \<Rightarrow> (string \<times> string) list \<Rightarrow> (string \<rightharpoonup> string) \<Rightarrow> unit res \<times> (string \<rightharpoonup> string)" where
  "write_files fails [] files = (Ok (), files)"
| "write_files fails ((name, content) # rest) files =
     (if fails name then (Err (Lib ''I/O error''), files)
      else write_files fails rest (files(name \<mapsto> content)))"

definition main_create ::
  "(simnet_staker \<Rightarrow> string) \<Rightarrow> (genesis_config \<Rightarrow> string) \<Rightarrow> (ed25519_pk \<Rightarrow> txhash) \<Rightarrow> (nat \<Rightarrow> ed25519_pk)
   \<Rightarrow> (string \<Rightarrow> bool) \<Rightarrow> u128 list \<Rightarrow> (string \<rightharpoonup> string) \<Rightarrow> unit res \<times> (string \<rightharpoonup> string)" where
  "main_create yaml_staker yaml_genesis pk_hash generate fails stake files =
     (let secrets = map generate [0..<length stake] in
      write_files fails (simnet_files yaml_staker yaml_genesis pk_hash stake secrets) files)"

text \<open>A file written once, or always with the same content, has that content.\<close>

lemma write_files_content:
  assumes "write_files fails xs files = (Ok (), files')" and "\<forall>c'. (name, c') \<in> set xs \<longrightarrow> c' = c"
    and "(name, c) \<in> set xs \<or> files name = Some c"
  shows "files' name = Some c"
  using assms
proof (induction xs arbitrary: files)
  case (Cons x xs)
  obtain n k where x: "x = (n, k)" by (cases x)
  have "write_files fails xs (files(n \<mapsto> k)) = (Ok (), files')"
    using Cons.prems(1) by (simp add: x split: if_splits)
  then show ?case
  proof (rule Cons.IH)
    show "\<forall>c'. (name, c') \<in> set xs \<longrightarrow> c' = c" using Cons.prems(2) by simp
    have "n = name \<Longrightarrow> k = c" using Cons.prems(2) by (simp add: x)
    then show "(name, c) \<in> set xs \<or> (files(n \<mapsto> k)) name = Some c" using Cons.prems(3) by (auto simp: x)
  qed
qed simp

section \<open>The self test\<close>

text \<open>
  One turn of the loop over heights. \<open>changes h a\<close> is what the own RPC answers to
  \<open>get_coin_changes\<close>; a failed answer is an \<open>unwrap\<close> that panics. \<open>tx_coin\<close> and
  \<open>reward_coin\<close> say whether the answer contains the coin looked for.
\<close>

definition self_test_index ::
  "bool \<Rightarrow> (u64 \<Rightarrow> address \<Rightarrow> 'c list option) \<Rightarrow> ('c list \<Rightarrow> transaction \<Rightarrow> bool) \<Rightarrow> ('c list \<Rightarrow> u64 \<Rightarrow> bool)
   \<Rightarrow> u64 \<Rightarrow> block \<Rightarrow> unit res" where
  [op_defs]: "self_test_index index_coins changes tx_coin reward_coin bh blk =
     (if \<not> index_coins then Ok ()
      else
        bind_res
          (case transactions blk of
             [] \<Rightarrow> Ok ()
           | tx_0 # _ \<Rightarrow> (case outputs tx_0 of
                 [] \<Rightarrow> Panic (Expect ''index out of bounds'')
               | out # _ \<Rightarrow> (case changes bh (covhash out) of
                     None \<Rightarrow> Panic Unwrap
                   | Some cs \<Rightarrow> if tx_coin cs tx_0 then Ok () else Panic Assertion)))
          (\<lambda>_. case blk_proposer_action blk of
             None \<Rightarrow> Ok ()
           | Some action \<Rightarrow> (case changes bh (reward_dest action) of
                 None \<Rightarrow> Panic Unwrap
               | Some cs \<Rightarrow> if reward_coin cs bh then Ok () else Panic Assertion)))"

fun self_test_replay ::
  "('ss, 'us, 'sk) env \<Rightarrow> (u64 \<Rightarrow> block \<Rightarrow> unit res) \<Rightarrow> u64 list \<Rightarrow> 'ss \<Rightarrow> 'us storage \<Rightarrow> 'ss res \<times> 'us storage" where
  "self_test_replay E check [] state st = (Ok state, st)"
| "self_test_replay E check (bh # bhs) state st =
     bind_st (get_block E st bh) (\<lambda>ob st. case ob of
         None \<Rightarrow> (Err (Lib ''no block''), st)
       | Some blk \<Rightarrow> (case stf_apply_block E state blk of
             Inl _ \<Rightarrow> (Panic (Expect ''block application failed''), st)
           | Inr state' \<Rightarrow> bind_st (check bh blk, st) (\<lambda>_ st. self_test_replay E check bhs state' st)))"

definition self_test_pass ::
  "('ss, 'us, 'sk) env \<Rightarrow> (u64 \<Rightarrow> block \<Rightarrow> unit res) \<Rightarrow> 'us storage \<Rightarrow> 'ss res \<times> 'us storage" where
  [op_defs]: "self_test_pass E check st =
     bind_st (get_state E st 9) (\<lambda>os st. case os of
         None \<Rightarrow> (Err (Lib ''no block 1''), st)
       | Some state \<Rightarrow> bind_st (highest_height st, st) (\<lambda>last_height st.
           self_test_replay E check (map of_nat [10..<Suc (unat last_height)]) state st))"

text \<open>The state transition function over a list of blocks.\<close>

fun stf_fold :: "('ss, 'us, 'sk) env \<Rightarrow> 'ss \<Rightarrow> block list \<Rightarrow> err + 'ss" where
  "stf_fold E s [] = Inr s"
| "stf_fold E s (b # bs) = (case stf_apply_block E s b of Inl e \<Rightarrow> Inl e | Inr s' \<Rightarrow> stf_fold E s' bs)"

end
