(* ===== verification/Main_Start.thy ===== *)
theory Main_Start
  imports Args Indexer Tools
begin

text \<open>
  The start of a node: \<open>Node::start\<close> of \<open>src/node.rs\<close> and \<open>main_async\<close> of \<open>src/main.rs\<close>, from
  the arguments to the running node, with the loop of the self test.
\<close>

section \<open>Listening\<close>

text \<open>
  The network as the start uses it: the client of the indexer, the index, the swarm's
  \<open>start_listen\<close> (the error, if it fails), and whether the client of the self test could be
  set up (each of its three \<open>unwrap\<close>s).
\<close>

record 'c net_ops =
  connect_http :: "netid \<Rightarrow> socket_addr \<Rightarrow> err + 'c"
  index_new :: "string \<Rightarrow> 'c \<Rightarrow> err + coin_index"
  start_listen :: "socket_addr \<Rightarrow> socket_addr option \<Rightarrow> err option"
  self_client :: "netid \<Rightarrow> socket_addr \<Rightarrow> bool"

text \<open>\<open>Node::start\<close>: the handlers first, then the listening. (The synchronisation task is spawned.)\<close>

definition start_node ::
  "'c net_ops \<Rightarrow> netid \<Rightarrow> socket_addr \<Rightarrow> socket_addr option \<Rightarrow> 'us storage \<Rightarrow> bool
   \<Rightarrow> ('us, 'ab, 'tree) node res" where
  [op_defs]: "start_node N netid addr advertised st with_index =
     bind_res (rpc_start (connect_http N) (index_new N) addr netid st with_index) (\<lambda>nd.
       case start_listen N addr advertised of
         Some e \<Rightarrow> Err e
       | None \<Rightarrow> Ok nd)"

section \<open>The main function\<close>

record ('us, 'ab, 'tree, 'cfg) running =
  run_routes :: "string list"
  run_node :: "('us, 'ab, 'tree) node"
  run_staker :: "'cfg option"
  run_self_test :: bool

definition main_async ::
  "('ss, 'us, 'sk) env \<Rightarrow> 'cfg host \<Rightarrow> 'c net_ops \<Rightarrow> main_args \<Rightarrow> ('us, 'ab, 'tree, 'cfg) running res" where
  [op_defs]: "main_async E H N args =
     bind_res (genesis_config H args) (\<lambda>g.
     let netid = gen_network g in
     bind_res (open_storage E H args) (\<lambda>st.
     bind_res (bootstrap_addrs H args) (\<lambda>routes.
     bind_res (start_node N netid (listen_addr args) (advertise_addr args) st (index_coins args)) (\<lambda>nd.
     bind_res (staker_cfg H args) (\<lambda>cfg.
       if self_test args \<and> \<not> self_client N netid (listen_addr args) then Panic Unwrap
       else Ok \<lparr>run_routes = routes, run_node = nd, run_staker = cfg, run_self_test = self_test args\<rparr>)))))"

text \<open>
  The loop of the self test: \<open>others n\<close> is what the others do to the storage before the
  n-th pass. An error ends the task, an abort the process.
\<close>

definition self_test_loop ::
  "('ss, 'us, 'sk) env \<Rightarrow> (u64 \<Rightarrow> block \<Rightarrow> unit res) \<Rightarrow> (nat \<Rightarrow> 'us storage \<Rightarrow> 'us storage) \<Rightarrow> 'us storage
   \<Rightarrow> (unit res \<times> 'us storage) option" where
  "self_test_loop E check others st =
     iterate (\<lambda>(n, st).
       case self_test_pass E check (others n st) of
         (Ok _, st') \<Rightarrow> Inr (Suc n, st')
       | (Err e, st') \<Rightarrow> Inl (Err e, st')
       | (Panic p, st') \<Rightarrow> Inl (Panic p, st')
       | (Hang, st') \<Rightarrow> Inl (Hang, st')) (0, st)"

section \<open>What starts\<close>

lemma open_storage_Ok:
  assumes "open_storage E H args = Ok st"
  shows "\<exists>g path. genesis_config H args = Ok g \<and> genesis st = g \<and>
    st = storage_open E path g (tables_at H (open_path E path g))"
proof -
  obtain g where g: "genesis_config H args = Ok g" using assms by (auto simp: open_storage_def bind_res_Ok)
  show ?thesis
  proof (cases "home_dir H")
    case None
    then show ?thesis using assms g by (simp add: open_storage_def)
  next
    case (Some home)
    define base where "base = (case database args of Some p \<Rightarrow> p | None \<Rightarrow> path_push home ''.melnode/'')"
    have "Ok st = Ok (storage_open E base g (tables_at H (open_path E base g)))"
      using assms g Some unfolding open_storage_def base_def [symmetric] by (simp add: Let_def base_def [symmetric] split: if_splits)
    then show ?thesis using g by auto
  qed
qed

lemma main_async_Ok:
  assumes "main_async E H N args = Ok run"
  obtains g path ix where "genesis_config H args = Ok g"
    "run_node run = node_start (gen_network g) (storage_open E path g (tables_at H (open_path E path g))) ix"
    "index_coins args \<longleftrightarrow> ix \<noteq> None"
proof -
  obtain g st nd where g: "genesis_config H args = Ok g" "open_storage E H args = Ok st"
    "start_node N (gen_network g) (listen_addr args) (advertise_addr args) st (index_coins args) = Ok nd" "run_node run = nd"
    using assms by (auto simp: main_async_def bind_res_Ok Let_def split: if_splits)
  obtain path where st: "st = storage_open E path g (tables_at H (open_path E path g))"
    using open_storage_Ok [OF g(2)] g(1) by auto
  obtain ix where "nd = node_start (gen_network g) st ix" "index_coins args \<longleftrightarrow> ix \<noteq> None"
    using g(3) by (auto simp: start_node_def rpc_start_def bind_res_Ok split: if_splits prod.splits option.splits)
  with that g st show thesis by blast
qed

end
