(* ===== verification/Tools_Props.thy ===== *)
theory Tools_Props
  imports Tools Main_Start Staker_Props
begin

text \<open>
  The properties of the start-up code and of the programs beside the node.
\<close>

section \<open>Start-up\<close>

text \<open>
  Two genesis configurations never share a database: in one folder their storages have
  different paths, as long as their hashes differ and a hash prints as a file name.
\<close>

theorem genesis_separates_databases:
  assumes "codec_ok E" and "hash_single E (enc_genesis E g1) \<noteq> hash_single E (enc_genesis E g2)"
    and "\<And>g. g \<in> {g1, g2} \<Longrightarrow> hash_to_string E (hash_single E (enc_genesis E g)) \<noteq> [] \<and>
      CHR ''/'' \<notin> set (hash_to_string E (hash_single E (enc_genesis E g)))"
  shows "sqlite_path (storage_open E folder g1 tabs1) \<noteq> sqlite_path (storage_open E folder g2 tabs2)"
proof -
  have inj: "hash_to_string E a = hash_to_string E b \<Longrightarrow> a = b" for a b
    using codec_okD(4) [OF assms(1)] by (metis option.inject)
  have "open_path E folder g = (if folder = [] \<or> last folder = CHR ''/'' then folder else folder @ ''/'') @
      hash_to_string E (hash_single E (enc_genesis E g)) @ ''/storage.db''" if "g \<in> {g1, g2}" for g
    using open_path_eq [OF refl] assms(3) [OF that] by (metis list.set_sel(1))
  then show ?thesis using inj assms(2) by (auto simp: storage_open_def split: if_splits)
qed

text \<open>
  Without a home directory the node does not start, even when the database path is
  given on the command line and no default is needed.
\<close>

theorem home_dir_required:
  assumes "home_dir H = None" and "genesis_config H args = Ok g" and "database args = Some p"
  shows "main_async E H N args = Panic (Expect ''no home dir?!'')"
  using assms by (simp add: main_async_def open_storage_def)

section \<open>Migration\<close>

text \<open>
  C39: A migration that succeeds has stored the blocks of the files in the order of the file
  names, and that order was the order of the heights, without a gap, right after the chain
  that was there.
\<close>

theorem migrate_in_name_order:
  assumes "wf_storage E st" and "migrate dec_pair (apply_block E) directory st = (Ok (), st')"
  shows "\<exists>bps. map (\<lambda>f. Option.bind (snd f) dec_pair) (sort_key fst directory) = map Some bps \<and>
    chain E (db st') = chain E (db st) @ map fst bps \<and>
    (\<forall>i < length bps. unat (height (blk_header (fst (bps ! i)))) = Suc (length (chain E (db st)) + i))"
proof -
  obtain bps where b: "map (\<lambda>f. Option.bind f dec_pair) (map snd (sort_key fst directory)) = map Some bps"
    "apply_all (apply_block E) bps st = (Ok (), st')"
    using assms(2) unfolding migrate_def migrate_files_eq by blast
  then show ?thesis
    using store.apply_all_Ok [OF assms(1) b(2)] store.apply_all_heights [OF assms(1) b(2)]
    by (auto simp: o_def)
qed

text \<open>
  Files named by the plain decimal height cannot be migrated once there are ten of
  them: the tenth sorts before the second, and the storage refuses it.
\<close>

theorem migrate_needs_padding:
  assumes "wf_storage E st" and "chain E (db st) = []" and "10 \<le> n"
    and "\<And>h. 1 \<le> h \<Longrightarrow> h \<le> n \<Longrightarrow> \<exists>b p. Option.bind (file h) dec_pair = Some (b, p) \<and> unat (height (blk_header b)) = h"
  shows "fst (migrate dec_pair (apply_block E) (map (\<lambda>h. (show_nat h, file h)) [1..<Suc n]) st) \<noteq> Ok ()"
proof
  let ?dir = "map (\<lambda>h. (show_nat h, file h)) [1..<Suc n]"
  let ?xs = "sort_key fst ?dir"
  assume "fst (migrate dec_pair (apply_block E) ?dir st) = Ok ()"
  then obtain st' where "migrate dec_pair (apply_block E) ?dir st = (Ok (), st')" by (metis prod.collapse)
  then obtain bps where b: "map (\<lambda>f. Option.bind f dec_pair) (map snd ?xs) = map Some bps"
    "apply_all (apply_block E) bps st = (Ok (), st')"
    unfolding migrate_def migrate_files_eq by blast
  have len: "length bps = n" using arg_cong [OF b(1), of length] assms(3) by simp
  have name: "fst (?xs ! i) = show_nat (Suc i)" if "i < n" for i
  proof -
    have il: "i < length ?xs" using that by simp
    then have "?xs ! i \<in> set ?dir" using nth_mem [OF il] by (simp only: set_sort)
    then obtain h where h: "1 \<le> h" "h \<le> n" "?xs ! i = (show_nat h, file h)" by auto
    have "Option.bind (file h) dec_pair = Some (bps ! i)"
      using arg_cong [OF b(1), of "\<lambda>ys. ys ! i"] il that len h(3) by simp
    moreover obtain bl p where "Option.bind (file h) dec_pair = Some (bl, p)" "unat (height (blk_header bl)) = h"
      using assms(4) h(1,2) by blast
    moreover have "unat (height (blk_header (fst (bps ! i)))) = Suc i"
      using store.apply_all_heights [OF assms(1) b(2)] that len assms(2) by simp
    ultimately have "h = Suc i" by (metis fst_conv option.inject)
    then show ?thesis using h(3) by (simp del: upt_Suc)
  qed
  have "sorted (map fst ?xs)" by simp
  then have "map fst ?xs ! 1 \<le> map fst ?xs ! 9"
    using assms(3) by (intro sorted_nth_mono) simp_all
  then have "show_nat 2 \<le> show_nat 10" using name [of 1] name [of 9] assms(3) by (simp add: numeral_eq_Suc)
  moreover have "show_nat 2 = ''2''" "show_nat 10 = ''10''"
    by (simp_all add: show_nat.simps char_of_def bit_0)
  ultimately show False by (simp add: less_eq_char_def)
qed

section \<open>Numbers as text\<close>

lemma digit_val_char: "d < 10 \<Longrightarrow> digit_val (char_of (48 + d)) = Some d"
  by (simp add: digit_val_def)

lemma parse_digits_snoc:
  "parse_digits (cs @ [c]) acc =
     (case parse_digits cs acc of None \<Rightarrow> None | Some a \<Rightarrow> parse_digits [c] a)"
  by (induction cs acc rule: parse_digits.induct) (simp_all split: option.split)

lemma parse_show: "n < 2 ^ 64 \<Longrightarrow> parse_digits (show_nat n) 0 = Some n"
proof (induction n rule: show_nat.induct)
  case (1 n)
  show ?case
  proof (cases "n < 10")
    case True
    then show ?thesis by (simp add: show_nat.simps [of n] digit_val_char)
  next
    case False
    with 1 have "parse_digits (show_nat (n div 10)) 0 = Some (n div 10)" by simp
    moreover have "10 * (n div 10) + n mod 10 = n" by simp
    ultimately show ?thesis
      using False 1(2) by (simp add: show_nat.simps [of n] parse_digits_snoc digit_val_char)
  qed
qed

lemma show_nat_head: "show_nat n \<noteq> [] \<and> hd (show_nat n) \<noteq> CHR ''+''"
proof (induction n rule: show_nat.induct)
  case (1 n)
  have "char_of (48 + d) \<noteq> CHR ''+''" if "d < 10" for d :: nat
    using that by (auto dest: arg_cong [of _ _ "of_char :: char \<Rightarrow> nat"])
  with 1 show ?case by (cases "n < 10") (simp_all add: show_nat.simps [of n])
qed

text \<open>
  A batch size set in decimal is the batch size used: parsing reads back every number
  of 64 bits; and a number that does not fit falls back to the default of 1000.
\<close>

theorem blksync_batch_reads_decimal:
  assumes "n < 2 ^ 64"
  shows "blksync_batch (Some (show_nat n)) = n"
  using parse_show [OF assms] show_nat_head [of n]
  by (cases "show_nat n") (simp_all add: blksync_batch_def parse_usize_def)

section \<open>The test network\<close>

text \<open>
  In a test network of at most 3,000 stakers all listening ports, of nodes and of
  staker services, differ; with more, the node of staker 3,000 gets the port of the first
  staker service.
\<close>

theorem simnet_ports:
  assumes "length secrets = length stake"
  shows "(length stake \<le> 3000 \<longrightarrow>
      distinct (map sim_node_port (simnet_stakers stake secrets) @
        map (unat \<circ> sim_staker_port) (simnet_stakers stake secrets))) \<and>
    (3000 < length stake \<longrightarrow>
      sim_node_port (simnet_stakers stake secrets ! 3000) = unat (sim_staker_port (simnet_stakers stake secrets ! 0)))"
proof -
  let ?n = "length stake" and ?s = "simnet_stakers stake secrets"
  have len: "length ?s = ?n" using assms by (simp add: simnet_stakers_def)
  have nth: "?s ! i = simnet_staker i (secrets ! i)" if "i < ?n" for i
    using that assms by (simp add: simnet_stakers_def nth_enumerate_eq)
  have node: "map sim_node_port ?s = map (\<lambda>i. 2000 + i) [0..<?n]"
    by (rule nth_equalityI) (simp_all add: len nth simnet_staker_def)
  have stk: "map (unat \<circ> sim_staker_port) ?s = map (\<lambda>i. 5000 + i) [0..<?n]" if "?n \<le> 3000"
  proof (rule nth_equalityI)
    fix i assume "i < length (map (unat \<circ> sim_staker_port) ?s)"
    then have i: "i < ?n" by (simp add: len)
    then have "unat (of_nat (i + 5000) :: u16) = i + 5000"
      using that by (subst unat_of_nat_small) simp_all
    then show "map (unat \<circ> sim_staker_port) ?s ! i = map (\<lambda>i. 5000 + i) [0..<?n] ! i"
      using i by (simp add: len nth simnet_staker_def del: of_nat_add)
  qed (simp add: len)
  show ?thesis
  proof (intro conjI impI)
    assume n: "?n \<le> 3000"
    then show "distinct (map sim_node_port ?s @ map (unat \<circ> sim_staker_port) ?s)"
      unfolding node stk [OF n] by (auto simp: distinct_map)
  next
    assume "3000 < ?n"
    then have "0 < ?n" by linarith
    from nth [OF \<open>3000 < ?n\<close>] nth [OF this]
    show "sim_node_port (?s ! 3000) = unat (sim_staker_port (?s ! 0))" by (simp add: simnet_staker_def)
  qed
qed



section \<open>The self test\<close>



section \<open>Witnesses\<close>

definition ex_small_genesis :: "stake_doc list \<Rightarrow> genesis_config" where
  "ex_small_genesis ds = ex_genesis\<lparr>gen_stakes := map (Pair 0) ds\<rparr>"

theorem genesis_separates_databases_witness:
  "sqlite_path (storage_open ex_env ''/db'' (ex_small_genesis []) no_tables) \<noteq>
   sqlite_path (storage_open ex_env ''/db'' (ex_small_genesis [ex_stake 0 0]) no_tables)"
proof -
  have h: "hash_single ex_env (enc_genesis ex_env (ex_small_genesis [])) = 1"
    "hash_single ex_env (enc_genesis ex_env (ex_small_genesis [ex_stake 0 0])) = 107"
    by (simp_all add: ex_env_def ex_small_genesis_def en_list_def en_nat_def en_stake_def en_word_def ex_stake_def)
  show ?thesis
    by (rule genesis_separates_databases [OF env_okD(1) [OF ex_env_ok]]) (auto simp: h)
qed

definition ex_host :: "staker_config host" where
  "ex_host = \<lparr>read_file = (\<lambda>p. None), parse_genesis = (\<lambda>b. None), parse_staker_cfg = (\<lambda>b. None),
     home_dir = None, create_dir = (\<lambda>p. True), resolve_name = (\<lambda>n. None), bootstrap_routes = (\<lambda>n. []),
     std_mainnet = ex_genesis, std_testnet = ex_genesis, tables_at = (\<lambda>p. no_tables)\<rparr>"

definition ex_net :: "unit net_ops" where
  "ex_net = \<lparr>connect_http = (\<lambda>n a. Inr ()), index_new = (\<lambda>p c. Inl Deser), start_listen = (\<lambda>a b. None),
     self_client = (\<lambda>n a. True)\<rparr>"

theorem home_dir_required_witness:
  "main_async ex_env ex_host ex_net (default_args\<lparr>database := Some ''/data''\<rparr>) = Panic (Expect ''no home dir?!'')"
  by (rule home_dir_required [of _ _ ex_genesis "''/data''"])
    (simp_all add: ex_host_def genesis_config_def default_args_def)

definition ex_dec_pair :: "bytes \<Rightarrow> (block \<times> consensus_proof) option" where
  "ex_dec_pair raw = (if raw = [1] then Some (ex_b1, ex_proof [7] 1)
     else if raw = [2] then Some (ex_b2, ex_proof [7] 2) else None)"

theorem migrate_in_name_order_witness:
  "\<exists>bps. map (\<lambda>f. Option.bind (snd f) ex_dec_pair) (sort_key fst [(''b'', Some [2]), (''a'', Some [1])]) = map Some bps \<and>
     chain ex_env (db ex_st2) = map fst bps"
proof -
  have "sort_key fst [(''b'', Some [2]), (''a'', Some [1 :: u8])] = [(''a'', Some [1]), (''b'', Some [2])]"
    by (simp add: less_eq_char_def)
  then have "migrate ex_dec_pair (apply_block ex_env) [(''b'', Some [2]), (''a'', Some [1])] ex_st0 = (Ok (), ex_st2)"
    by (simp add: migrate_def ex_dec_pair_def ex_apply1 ex_apply2)
  from migrate_in_name_order [OF ex_st0_wf this] show ?thesis
    using ex_chain0 by (simp only: append_Nil) blast
qed

theorem migrate_needs_padding_witness:
  "fst (migrate (\<lambda>raw. Some (ex_block (ucast (hd raw)) 2 [], [])) (apply_block ex_env)
     (map (\<lambda>h. (show_nat h, Some [of_nat h])) [1..<Suc 10]) ex_st0) \<noteq> Ok ()"
proof (rule migrate_needs_padding [OF ex_st0_wf ex_chain0])
  fix h :: nat
  assume "1 \<le> h" "h \<le> 10"
  then have "unat (of_nat h :: u8) = h" by (subst unat_of_nat_small) simp_all
  then have "unat (ucast (of_nat h :: u8) :: u64) = h" using \<open>h \<le> 10\<close> by (simp add: unat_ucast_mod)
  then show "\<exists>b p. Option.bind (Some [of_nat h :: u8]) (\<lambda>raw. Some (ex_block (ucast (hd raw)) 2 [], [])) = Some (b, p) \<and>
      unat (height (blk_header b)) = h"
    by (simp add: ex_block_def ex_header_def)
qed simp

theorem blksync_batch_reads_decimal_witness: "blksync_batch (Some (show_nat 500)) = 500"
  by (rule blksync_batch_reads_decimal) simp

theorem simnet_ports_witness:
  "distinct (map sim_node_port (simnet_stakers [1, 1] [7, 8]) @ map (unat \<circ> sim_staker_port) (simnet_stakers [1, 1] [7, 8]))"
  using simnet_ports [of "[7, 8]" "[1, 1]"] by simp



end
