(* ===== verification/Main_Props.thy ===== *)
theory Main_Props
  imports Tools_Props Indexer_Props
begin

text \<open>
  What a node is when its main function has started it, and when the self test stops.
\<close>

section \<open>From the command line to a running node\<close>


text \<open>
  The self test of a node with fewer than nine blocks stops on its first pass; its error
  is the result of a detached task and is never shown.
\<close>

theorem self_test_gives_up:
  assumes "wf_storage E (others 0 st)" and "length (chain E (db (others 0 st))) < 9"
  shows "\<exists>st'. self_test_loop E check others st = Some (Err (Lib ''no block 1''), st')"
proof -
  note core = wf_storageD(1) [OF assms(1)]
  have "sql_u64 E 9" using env_okD(4) [OF wf_coreD(1) [OF core]] by simp
  moreover have "block_at E (db (others 0 st)) 9 = None"
    using block_at_iff [OF wf_coreD(3,2) [OF core], of 9] assms(2) by (cases "block_at E (db (others 0 st)) 9") auto
  ultimately have "fst (get_state E (others 0 st) 9) = Ok None" using get_state_spec(1) [OF core, of 9] by simp
  then obtain st' where "get_state E (others 0 st) 9 = (Ok None, st')" by (metis prod.collapse)
  then show ?thesis
    unfolding self_test_loop_def by (intro exI iterate_Inl) (simp add: self_test_pass_def)
qed

section \<open>Witnesses\<close>



theorem self_test_gives_up_witness:
  "\<exists>st'. self_test_loop ex_env (\<lambda>bh blk. Ok ()) (\<lambda>n st. st) ex_st2 = Some (Err (Lib ''no block 1''), st')"
  by (rule self_test_gives_up) (use ex_st2_wf ex_st2_chain in simp_all)

end
