(* ===== verification/Spec2Isabelle.thy ===== *)
theory Spec2Isabelle
  imports Storage_Props Steps_Props Read_Props Conn_Pool Open_Steps Durable Blksync_Shared Node_Props
    Indexer_Props Staker_Life_Props Staker_Net Main_Props
begin

text \<open>
  A model of the mel node (the crate under src/): a full node that keeps the chain in an
  SQLite database, answers RPC requests about it, synchronises with other nodes, and, with
  a staker configuration, takes part in deciding blocks.

  \<^bold>\<open>The parts and how they meet.\<close> Blocks enter the storage only through
  \<open>Storage::apply_block\<close>. Three callers push them: block synchronisation
  (src/node/blksync.rs) with blocks of a peer, the staker (src/staker.rs) with blocks that
  Streamlette decided, and the migration tool. The RPC handlers (src/node.rs) and the
  indexer task (src/node/indexer.rs) read the storage; \<open>send_tx\<close> feeds its mempool, from
  which the staker takes its proposal. All callers work against one contract, the locale
  \<open>block_store\<close> of Block_Store: blocks are numbered from 1, a successful \<open>apply_block\<close>
  appends, a failing one leaves them alone. Storage_Inv interprets it on the model of
  \<open>apply_block\<close> with the invariant \<open>wf_storage\<close>, and Node_Inv once more with \<open>later\<close>, the
  storages that grew out of a given one; the clients' lemmas are proved in the locale. It is
  a sublocale of \<open>gaining_store\<close>, what is left of the contract when other tasks apply blocks
  in between; Blksync proves its loops against that one, and Blksync_Shared interprets it on
  the storage with other writers.

  \<^bold>\<open>Theories.\<close>
  \<^item> Prelude: words and checked arithmetic, the result type (\<open>Ok\<close>, \<open>Err\<close>, \<open>Panic\<close>, \<open>Hang\<close>),
    loops that may not end (\<open>iterate\<close>), tables with a primary key and read-through caches,
    the latter two as locales with interpretations.
  \<^item> Autoretry: src/autoretry.rs with the overflow of \<open>Duration\<close>.
  \<^item> Chain_Types: the data of the crates and \<open>env\<close>, their operations as parameters, with
    the documented facts about them (\<open>codec_ok\<close>, \<open>env_ok\<close>). Example_Env is a small
    executable instance of them, for witnesses; Example_Run a chain of two blocks on it.
  \<^item> Mempool: src/storage/mempool.rs. Storage: src/storage/storage.rs, every operation as
    one task runs it. Votes: what the vote count of \<open>apply_block\<close> computes. Storage_Inv: the
    invariant (contiguous history, one proof per block, coherent cache, stakes that have
    the root each header names) and what each operation does to it. Storage_Life: opening,
    restarting, crashing. Chain_Growth: what stays true when the chain grows.
    Storage_Steps: \<open>apply_block\<close> and \<open>get_state_or_wait\<close> as tasks that take turns, with the
    lock and the notifier, dropped callers included, and their invariant. Steps_Live:
    wake-ups, the call as a run, and that the lock is given back. Read_Steps: \<open>get_state\<close> as a
    task interrupted between its lookup, its queries and its insertion into the cache.
    Open_Steps: \<open>Storage::open\<close> call by call, each of which may fail. Conn_Pool: the 16
    SQLite connections. Durable: Merkle store and SQLite across crashes.
  \<^item> Blksync: src/node/blksync.rs in both modes against an arbitrary peer;
    Blksync_Shared: the same amid other writers.
  \<^item> Node_Rpc: src/node.rs, the handlers with their caches. Node_Inv, Node_Handlers,
    Node_Lz4: the invariant of the caches, each handler against a computation from the
    tables, the loop of \<open>get_lz4_blocks\<close> against a fold. Node_Life: a step relation with a
    rule per event. Indexer: src/node/indexer.rs.
  \<^item> Staker: src/staker.rs. Staker_Life: its turns and sessions over a growing storage.
    Staker_Votes: its count of votes against that of the storage. Staker_Net: the channel
    of requests for diffs, which outlives the rounds.
  \<^item> Args: src/args.rs and src/storage/smt.rs. Tools: a pass of the self test of
    src/main.rs, src/bin/melnode-db-migrate.rs and src/bin/melsimnet.rs. Main_Start:
    \<open>Node::start\<close> and \<open>main_async\<close>, from the arguments to the running node.

  The properties stand in the theories named \<open>_Props\<close>, in Votes, Mempool, Autoretry, Conn_Pool,
  Open_Steps, Durable, Staker_Net and Blksync_Shared.

  \<^bold>\<open>What the lemmas show.\<close> The storage: the exact condition for a commit, atomicity of a
  failure, contiguity through every life, and that interleaved callers amount to calls one
  after the other, with the lock never stuck and no wake-up lost; that interleaved reads are
  each an atomic read of some moment of the call; that failed starts and crashes leave what
  a later start can use. Synchronisation: whatever a peer answers and other writers do, the
  chain is only appended to; an honest node brings a replica up to its own chain. The node:
  from the command line on it is well formed, no cache is ever stale, batches have no gap. The staker: an honest
  round commits, no error ends its loop, no turn ends before its slot. Beside these stand
  the cases where the code does not do what it means to: the vote count that one staker
  passes alone, the stakes that brick a database, endless loops on empty batches or missing
  proofs, signatures that are counted unverified, the epoch boundary, the connections that
  dropped callers take with them.

  \<^bold>\<open>Conventions.\<close> Heights are \<open>64 word\<close>, coin values \<open>128 word\<close>, hashes and keys
  \<open>256 word\<close>; every addition and multiplication the code does on them is checked, as the
  profiles of Cargo.toml demand, and a failure is \<open>Panic\<close>, which ends the process
  (\<open>panic = "abort"\<close>). A retry loop over a permanent error is such an end too: the back-off
  doubles until \<open>Duration\<close> overflows, after 69 calls. There is no fuel: a loop that may not
  end is \<open>iterate\<close>, a \<open>partial_function\<close>, and \<open>None\<close> or \<open>Hang\<close> is the value of one that does not;
  the theorems that a loop ends say so of the value. Byte strings and sizes are lists and
  \<open>nat\<close>.

  \<^bold>\<open>Atomicity.\<close> The operations of Storage are sequential. Storage_Steps cuts \<open>apply_block\<close>
  at its awaits (lock, checks, save, re-read, notify); there a read of a state is one step,
  and Read_Steps cuts it too and shows that this is sound. An SQLite statement or transaction
  happens or does not.

  \<^bold>\<open>Parameters.\<close> The state transition function (melstf), hashes and signatures
  (tmelcrypt), stdcode, the stake set (tip911-stakeset), sparse Merkle trees (novasmt,
  meshanina), Streamlette, the coin index (melblkidx), the client (melprot), the network
  (melnet2, nanorpc), lz4 and base64, the clock, files, DNS and the random choice of a peer
  are arguments. What is assumed of them is named where it is used: \<open>env_ok\<close>, \<open>wire_ok\<close>,
  \<open>mesha_ok\<close>, \<open>index_of\<close>, \<open>votes_documented\<close>.

  \<^bold>\<open>Not modelled.\<close> Logging, the dhat profiler, the effect of the SQLite pragmas, the inside
  of the swarms and of Streamlette: the code here only calls them. Which Merkle nodes a block
  inserts is a parameter of Durable. The back-off of \<open>autoretry\<close> is in the sequential
  operations; an interrupted reader that meets an error just starts over. Lifetimes of entries in the caches are arbitrary evictions. The
  module files lib.rs and storage/mod.rs declare modules only.
\<close>

end
